(* ===== verification/Raft_Prelude.thy ===== *)
theory Raft_Prelude
  imports Main "HOL-Library.Word" "HOL-Library.Monad_Syntax"
begin

text \<open>
  What the other theories share. (1) Go's run-time failures: an index or a slice bound out of
  range panics; the model writes a computation that may panic as a value of an option type, with
  None for the panic, and composes such computations with the monad notation of the library.
  (2) Majorities: the interface \<open>quorums\<close> and its interpretation on the counting the code
  does (\<open>more than len(peers)/2\<close>). (3) Runs of a labelled step relation whose labels satisfy
  a filter, and the interface \<open>step_invariant\<close> that turns a one-step argument into a fact
  about every reachable state.
\<close>

named_theorems go_simps \<open>evaluation of Go's indexing and slicing inside their bounds\<close>
named_theorems frame \<open>the fields of a node an operation leaves alone\<close>

section \<open>Go slices\<close>

text \<open>Go's \<open>int\<close> is modelled by unbounded integers: terms and log indices grow by one per
  election or command and are not expected to reach \<open>2 ^ 63\<close>. Negative values (\<open>votedFor = -1\<close>,
  \<open>XTerm = -1\<close>, a \<open>nextIndex\<close> of 0 minus 1) are kept.\<close>

definition go_nth :: "'a list \<Rightarrow> int \<Rightarrow> 'a option" where
  \<comment> \<open>the expression \<open>xs[i]\<close>\<close>
  "go_nth xs i = (if 0 \<le> i \<and> i < int (length xs) then Some (xs ! nat i) else None)"

definition go_upto :: "'a list \<Rightarrow> int \<Rightarrow> 'a list option" where
  \<comment> \<open>the expression \<open>xs[:i]\<close> for \<open>i\<close> up to the length\<close>
  "go_upto xs i = (if 0 \<le> i \<and> i \<le> int (length xs) then Some (take (nat i) xs) else None)"

definition go_from :: "'a list \<Rightarrow> int \<Rightarrow> 'a list option" where
  \<comment> \<open>the expression \<open>xs[i:]\<close>\<close>
  "go_from xs i = (if 0 \<le> i \<and> i \<le> int (length xs) then Some (drop (nat i) xs) else None)"

definition go_set :: "'a list \<Rightarrow> int \<Rightarrow> 'a \<Rightarrow> 'a list option" where
  \<comment> \<open>the statement \<open>xs[i] = v\<close>\<close>
  "go_set xs i v = (if 0 \<le> i \<and> i < int (length xs) then Some (xs[nat i := v]) else None)"

lemma go_nth_int [go_simps]: "go_nth xs (int j) = (if j < length xs then Some (xs ! j) else None)"
  by (simp add: go_nth_def)

lemma go_set_int [go_simps]: "go_set xs (int j) v = (if j < length xs then Some (xs[j := v]) else None)"
  by (simp add: go_set_def)

lemma go_nth_in [go_simps]: "0 \<le> i \<Longrightarrow> i < int (length xs) \<Longrightarrow> go_nth xs i = Some (xs ! nat i)"
  by (simp add: go_nth_def)

lemma go_upto_in [go_simps]: "0 \<le> i \<Longrightarrow> i \<le> int (length xs) \<Longrightarrow> go_upto xs i = Some (take (nat i) xs)"
  by (simp add: go_upto_def)

lemma go_from_in [go_simps]: "0 \<le> i \<Longrightarrow> i \<le> int (length xs) \<Longrightarrow> go_from xs i = Some (drop (nat i) xs)"
  by (simp add: go_from_def)

lemma go_nth_eq_Some: "go_nth xs i = Some x \<longleftrightarrow> 0 \<le> i \<and> i < int (length xs) \<and> x = xs ! nat i"
  by (auto simp: go_nth_def)

lemma go_nth_eq_None: "go_nth xs i = None \<longleftrightarrow> i < 0 \<or> int (length xs) \<le> i"
  by (auto simp: go_nth_def)

lemma go_set_eq_Some:
  "go_set xs i v = Some ys \<longleftrightarrow> 0 \<le> i \<and> i < int (length xs) \<and> ys = xs[nat i := v]"
  by (auto simp: go_set_def)

lemma go_set_length: "go_set xs i v = Some ys \<Longrightarrow> length ys = length xs"
  by (auto simp: go_set_eq_Some)

text \<open>A counted loop \<open>for i := a; i <= b; i++\<close> that appends one element per turn, and stops with
  the panic of the first element that cannot be read.\<close>

definition go_collect :: "(int \<Rightarrow> 'a option) \<Rightarrow> int \<Rightarrow> int \<Rightarrow> 'a list option" where
  "go_collect f a b = those (map f [a..b])"

lemma those_map_Some: "(\<And>x. x \<in> set xs \<Longrightarrow> f x = Some (g x)) \<Longrightarrow> those (map f xs) = Some (map g xs)"
  by (induction xs) auto

lemma go_collect_Some:
  "(\<And>i. a \<le> i \<Longrightarrow> i \<le> b \<Longrightarrow> f i = Some (g i)) \<Longrightarrow> go_collect f a b = Some (map g [a..b])"
  unfolding go_collect_def by (rule those_map_Some) auto

lemma those_eq_Some_D: "those xs = Some ys \<Longrightarrow> xs = map Some ys"
  by (induction xs arbitrary: ys) (auto split: option.splits)

lemma go_collect_SomeD:
  assumes "go_collect f a b = Some ys" and "a \<le> i" and "i \<le> b"
  shows "\<exists>y. f i = Some y"
proof -
  have "map f [a..b] = map Some ys" using assms(1) unfolding go_collect_def by (rule those_eq_Some_D)
  then have "set (map f [a..b]) = set (map Some ys)" by simp
  then have "f ` {a..b} = Some ` set ys" by simp
  moreover have "f i \<in> f ` {a..b}" using assms(2,3) by simp
  ultimately have "f i \<in> Some ` set ys" by simp
  then show ?thesis by blast
qed

text \<open>Reading a window of a list index by index is slicing.\<close>

lemma map_nth_upto_drop:
  "0 \<le> k \<Longrightarrow> map (\<lambda>i. xs ! nat (i - c)) [c + k..c + int (length xs) - 1] = drop (nat k) xs"
proof (induction "nat (int (length xs) - k)" arbitrary: k)
  case 0
  then show ?case by simp
next
  case (Suc n)
  then have lt: "nat k < length xs" by arith
  have IH: "map (\<lambda>i. xs ! nat (i - c)) [c + (k + 1)..c + int (length xs) - 1] = drop (nat (k + 1)) xs"
    using Suc by (intro Suc.hyps(1)) auto
  have "[c + k..c + int (length xs) - 1] = (c + k) # [c + (k + 1)..c + int (length xs) - 1]"
    using lt Suc.prems by (subst upto_rec1) (auto simp: add.assoc)
  moreover have "nat (k + 1) = Suc (nat k)" using Suc.prems by simp
  ultimately show ?case using IH lt by (simp add: Cons_nth_drop_Suc)
qed

section \<open>Majorities\<close>

text \<open>Two families of acknowledgements that are both large enough share a member: what an election
  or a commit relies on.\<close>

locale quorums =
  fixes quorum :: "'a set \<Rightarrow> bool"
  assumes quorum_meet: "quorum A \<Longrightarrow> quorum B \<Longrightarrow> A \<inter> B \<noteq> {}"
begin

lemma quorum_choice:
  assumes "quorum A" and "quorum B"
    and "\<And>a. a \<in> A \<Longrightarrow> f a = Some x" and "\<And>b. b \<in> B \<Longrightarrow> f b = Some y"
  shows "x = y"
proof -
  obtain c where "c \<in> A" "c \<in> B" using quorum_meet [OF assms(1,2)] by blast
  then show ?thesis using assms(3,4) by (metis option.inject)
qed

lemma quorum_nonempty: "quorum A \<Longrightarrow> A \<noteq> {}"
  using quorum_meet by blast

end

definition majority :: "nat \<Rightarrow> nat set \<Rightarrow> bool" where
  \<comment> \<open>the test \<open>count > len(rf.peers)/2\<close> on a set of servers\<close>
  "majority n A \<longleftrightarrow> A \<subseteq> {..<n} \<and> n div 2 < card A"

interpretation maj: quorums "majority n" for n
proof
  fix A B :: "nat set"
  assume A: "majority n A" and B: "majority n B"
  show "A \<inter> B \<noteq> {}"
  proof
    assume disj: "A \<inter> B = {}"
    have fin: "finite A" "finite B"
      using A B by (auto simp: majority_def intro: finite_subset)
    have "card A + card B = card (A \<union> B)"
      using fin disj by (simp add: card_Un_disjoint)
    also have "\<dots> \<le> card {..<n}"
      using A B by (intro card_mono) (auto simp: majority_def)
    finally have "card A + card B \<le> n" by simp
    moreover have "n div 2 < card A" "n div 2 < card B" using A B by (auto simp: majority_def)
    ultimately show False by linarith
  qed
qed

section \<open>Runs of a labelled step relation\<close>

text \<open>\<open>reach I T P s\<close>: from a state of \<open>I\<close>, steps of \<open>T\<close> whose labels satisfy \<open>P\<close> lead to \<open>s\<close>.\<close>

inductive reach :: "('s \<Rightarrow> bool) \<Rightarrow> ('s \<Rightarrow> 'e \<Rightarrow> 's \<Rightarrow> bool) \<Rightarrow> ('e \<Rightarrow> bool) \<Rightarrow> 's \<Rightarrow> bool"
  for I T P where
  reach_init: "I s \<Longrightarrow> reach I T P s"
| reach_step: "reach I T P s \<Longrightarrow> T s e s' \<Longrightarrow> P e \<Longrightarrow> reach I T P s'"

lemma reach_weaken: "reach I T P s \<Longrightarrow> (\<And>e. P e \<Longrightarrow> Q e) \<Longrightarrow> reach I T Q s"
  by (induction rule: reach.induct) (auto intro: reach.intros)

lemma reach_from: "reach I T P s \<Longrightarrow> (\<And>s. I s \<Longrightarrow> J s) \<Longrightarrow> reach J T P s"
  by (induction rule: reach.induct) (auto intro: reach.intros)

lemma reach_trans: "reach ((=) s) T P s' \<Longrightarrow> reach I T P s \<Longrightarrow> reach I T P s'"
  by (induction rule: reach.induct) (auto intro: reach.intros)

locale step_invariant =
  fixes I :: "'s \<Rightarrow> bool" and T :: "'s \<Rightarrow> 'e \<Rightarrow> 's \<Rightarrow> bool" and P :: "'e \<Rightarrow> bool" and Inv :: "'s \<Rightarrow> bool"
  assumes inv_init: "I s \<Longrightarrow> Inv s"
    and inv_step: "Inv s \<Longrightarrow> T s e s' \<Longrightarrow> P e \<Longrightarrow> Inv s'"
begin

lemma inv_reach: "reach I T P s \<Longrightarrow> Inv s"
  by (induction rule: reach.induct) (auto intro: inv_init inv_step)

end

end
