(* ===== verification/Labgob.thy ===== *)
theory Labgob
  imports Raft_Prelude
begin

text \<open>
  \<open>labgob/labgob.go\<close>, the wrapper around Go's \<open>encoding/gob\<close> through which persisted state and RPCs
  pass. A byte stream is modelled by the sequence of gob values written to it; what the program
  relies on of the standard library's package is written out: values come back in the order they
  were written, a value of another kind or the end of the stream is an error, a struct is sent
  without its zero-valued fields and the receiver leaves a field that was not sent as it was, and
  an interface value travels with the name of its concrete type, which has to be one of the basic
  types (registered by the package itself).
\<close>

section \<open>Types and values\<close>

datatype gotype = TBool | TInt | TString | TIface | TBytes | TSlice gotype
  | TStruct "(string \<times> gotype) list"

text \<open>One value on the wire, and the stream of values a \<open>[]byte\<close> holds.\<close>

datatype gobmsg = GBool bool | GInt int | GString string | GNil | GBytes "gobmsg list" | GIface string gobmsg
  | GSlice "gobmsg list" | GStruct "(string \<times> gobmsg) list"

type_synonym bytes = "gobmsg list"

datatype goval = VBool bool | VInt int | VString string | VIface "goval option" | VBytes bytes
  | VSlice "goval list" | VStruct "(string \<times> goval) list"

text \<open>Go's zero value of a type, \<open>var x T\<close>.\<close>

fun gozero :: "gotype \<Rightarrow> goval" where
  "gozero TBool = VBool False"
| "gozero TInt = VInt 0"
| "gozero TString = VString []"
| "gozero TIface = VIface None"
| "gozero TBytes = VBytes []"
| "gozero (TSlice t) = VSlice []"
| "gozero (TStruct fs) = VStruct (map (\<lambda>(n, t). (n, gozero t)) fs)"

text \<open>The values of a type. The basic types are those an interface can carry unregistered.\<close>

fun basic :: "goval \<Rightarrow> bool" where
  "basic (VBool _) = True"
| "basic (VInt _) = True"
| "basic (VString _) = True"
| "basic _ = False"

fun has_type :: "gotype \<Rightarrow> goval \<Rightarrow> bool" and have_types :: "(string \<times> gotype) list \<Rightarrow> (string \<times> goval) list \<Rightarrow> bool" where
  "has_type TBool (VBool _) = True"
| "has_type TInt (VInt _) = True"
| "has_type TString (VString _) = True"
| "has_type TIface (VIface None) = True"
| "has_type TIface (VIface (Some v)) = basic v"
| "has_type (TSlice t) (VSlice vs) = (\<forall>v \<in> set vs. has_type t v)"
| "has_type (TStruct ts) (VStruct vs) = (distinct (map fst ts) \<and> have_types ts vs)"
| "has_type TBytes (VBytes _) = True"
| "has_type _ _ = False"
| "have_types [] [] = True"
| "have_types ((n, t) # ts) ((n', v) # vs) = (n = n' \<and> has_type t v \<and> have_types ts vs)"
| "have_types _ _ = False"

section \<open>Encoding\<close>

text \<open>A struct field with this value is not sent.\<close>

fun unsent :: "goval \<Rightarrow> bool" where
  "unsent (VBool b) = (\<not> b)"
| "unsent (VInt i) = (i = 0)"
| "unsent (VString s) = (s = [])"
| "unsent (VIface v) = (v = None)"
| "unsent (VBytes b) = (b = [])"
| "unsent (VSlice vs) = (vs = [])"
| "unsent (VStruct _) = False"

fun gob_encode :: "goval \<Rightarrow> gobmsg option" and gob_encode_list :: "goval list \<Rightarrow> gobmsg list option"
  and gob_encode_fields :: "(string \<times> goval) list \<Rightarrow> (string \<times> gobmsg) list option" where
  "gob_encode (VBool b) = Some (GBool b)"
| "gob_encode (VInt i) = Some (GInt i)"
| "gob_encode (VString s) = Some (GString s)"
| "gob_encode (VIface None) = Some GNil"
| "gob_encode (VIface (Some (VBool b))) = Some (GIface ''bool'' (GBool b))"
| "gob_encode (VIface (Some (VInt i))) = Some (GIface ''int'' (GInt i))"
| "gob_encode (VIface (Some (VString s))) = Some (GIface ''string'' (GString s))"
| "gob_encode (VIface (Some _)) = None"
| "gob_encode (VSlice vs) = do { ms \<leftarrow> gob_encode_list vs; Some (GSlice ms) }"
| "gob_encode (VStruct fs) = do { ms \<leftarrow> gob_encode_fields fs; Some (GStruct ms) }"
| "gob_encode (VBytes b) = Some (GBytes b)"
| "gob_encode_list [] = Some []"
| "gob_encode_list (v # vs) = do { m \<leftarrow> gob_encode v; ms \<leftarrow> gob_encode_list vs; Some (m # ms) }"
| "gob_encode_fields [] = Some []"
| "gob_encode_fields ((n, v) # fs) =
     (if unsent v then gob_encode_fields fs
      else do { m \<leftarrow> gob_encode v; ms \<leftarrow> gob_encode_fields fs; Some ((n, m) # ms) })"

text \<open>\<open>(enc *LabEncoder) Encode\<close>: the stream grows by the value, or stays as it is when the
  encoder reports an error (the second component; the callers in \<open>raft.go\<close> ignore it).\<close>

definition Encode :: "bytes \<Rightarrow> goval \<Rightarrow> bytes \<times> bool" where
  "Encode w e = (case gob_encode e of Some m \<Rightarrow> (w @ [m], True) | None \<Rightarrow> (w, False))"

section \<open>Decoding\<close>

fun decode_iface :: "string \<Rightarrow> gobmsg \<Rightarrow> goval option" where
  "decode_iface n (GBool b) = (if n = ''bool'' then Some (VIface (Some (VBool b))) else None)"
| "decode_iface n (GInt i) = (if n = ''int'' then Some (VIface (Some (VInt i))) else None)"
| "decode_iface n (GString s) = (if n = ''string'' then Some (VIface (Some (VString s))) else None)"
| "decode_iface n _ = None"

text \<open>\<open>gob_decode t d m\<close>: the value of type \<open>t\<close> that holds \<open>d\<close> is overwritten by the message. A
  slice longer than the receiver's is a fresh one; otherwise its elements are decoded in place.\<close>

lemma map_of_size: "map_of ms n = Some m \<Longrightarrow> size m < Suc (size_list (size_prod (\<lambda>_. 0) size) ms)"
  by (induction ms) (auto split: if_splits)

function (sequential) gob_decode :: "gotype \<Rightarrow> goval \<Rightarrow> gobmsg \<Rightarrow> goval option"
  and gob_decode_list :: "gotype \<Rightarrow> goval list \<Rightarrow> gobmsg list \<Rightarrow> goval list option"
  and gob_decode_fields :: "(string \<times> gotype) list \<Rightarrow> (string \<times> goval) list \<Rightarrow> (string \<times> gobmsg) list \<Rightarrow> (string \<times> goval) list option" where
  "gob_decode t d (GBool b) = (if t = TBool then Some (VBool b) else None)"
| "gob_decode t d (GInt i) = (if t = TInt then Some (VInt i) else None)"
| "gob_decode t d (GString s) = (if t = TString then Some (VString s) else None)"
| "gob_decode t d GNil = (if t = TIface then Some (VIface None) else None)"
| "gob_decode t d (GBytes b) = (if t = TBytes then Some (VBytes b) else None)"
| "gob_decode t d (GIface n m) = (if t = TIface then decode_iface n m else None)"
| "gob_decode t d (GSlice ms) =
     (case (t, d) of
        (TSlice t', VSlice ds) \<Rightarrow>
          do { vs \<leftarrow> gob_decode_list t' (if length ms \<le> length ds then ds else replicate (length ms) (gozero t')) ms;
               Some (VSlice vs) }
      | _ \<Rightarrow> None)"
| "gob_decode t d (GStruct ms) =
     (case (t, d) of
        (TStruct ts, VStruct ds) \<Rightarrow> do { vs \<leftarrow> gob_decode_fields ts ds ms; Some (VStruct vs) }
      | _ \<Rightarrow> None)"
| "gob_decode_list t (d # ds) (m # ms) = do { v \<leftarrow> gob_decode t d m; vs \<leftarrow> gob_decode_list t ds ms; Some (v # vs) }"
| "gob_decode_list t ds [] = Some []"
| "gob_decode_list t [] (m # ms) = None"
| "gob_decode_fields ((n, t) # ts) ((n', d) # ds) ms =
     do { v \<leftarrow> (case map_of ms n of None \<Rightarrow> Some d | Some m \<Rightarrow> gob_decode t d m);
          vs \<leftarrow> gob_decode_fields ts ds ms;
          Some ((n, v) # vs) }"
| "gob_decode_fields _ _ ms = Some []"
  by pat_completeness auto
termination
  by (relation "measures [\<lambda>x. case x of Inl (t, d, m) \<Rightarrow> size m
                        | Inr (Inl (t, ds, ms)) \<Rightarrow> size_list size ms
                        | Inr (Inr (ts, ds, ms)) \<Rightarrow> size_list (size_prod (\<lambda>_. 0) size) ms,
                   \<lambda>x. case x of Inl (t, d, m) \<Rightarrow> 1 | Inr (Inl _) \<Rightarrow> 0 | Inr (Inr (ts, ds, ms)) \<Rightarrow> 2 + length ts]")
    (auto dest: map_of_size)

text \<open>\<open>(dec *LabDecoder) Decode\<close> into a variable of type \<open>t\<close> that holds \<open>d\<close>: the next value of the
  stream, None for the error (end of stream or a value of another kind).\<close>

definition Decode :: "bytes \<Rightarrow> gotype \<Rightarrow> goval \<Rightarrow> (goval \<times> bytes) option" where
  "Decode r t d = (case r of [] \<Rightarrow> None | m # r' \<Rightarrow> do { v \<leftarrow> gob_decode t d m; Some (v, r') })"

section \<open>Round trip\<close>

lemma unsent_zero: "has_type t v \<Longrightarrow> unsent v \<Longrightarrow> v = gozero t"
  by (cases t; cases v) auto

lemma basic_roundtrip:
  "basic v \<Longrightarrow> \<exists>m. gob_encode (VIface (Some v)) = Some m \<and> gob_decode TIface d m = Some (VIface (Some v))"
  by (cases v) auto

lemma encode_fields_names:
  "gob_encode_fields fs = Some ms \<Longrightarrow> n \<notin> fst ` set fs \<Longrightarrow> map_of ms n = None"
  by (induction fs arbitrary: ms) (auto split: if_splits bind_splits)

lemma gob_roundtrip_list:
  assumes "\<And>v. v \<in> set vs \<Longrightarrow> \<exists>m. gob_encode v = Some m \<and> gob_decode t (gozero t) m = Some v"
  shows "\<exists>ms. gob_encode_list vs = Some ms \<and> length ms = length vs \<and>
    gob_decode_list t (replicate (length ms) (gozero t)) ms = Some vs"
  using assms
proof (induction vs)
  case Nil
  then show ?case by simp
next
  case (Cons v vs)
  from Cons.prems [of v] obtain m where "gob_encode v = Some m" "gob_decode t (gozero t) m = Some v"
    by auto
  moreover from Cons obtain ms where "gob_encode_list vs = Some ms" "length ms = length vs"
    "gob_decode_list t (replicate (length ms) (gozero t)) ms = Some vs"
    by auto
  ultimately show ?case by simp
qed

text \<open>A field that was not sent is zero, a field that was sent decodes to what was encoded; the
  fields of the rest of the struct do not disturb it because their names differ.\<close>

lemma gob_roundtrip_both:
  shows "has_type t v \<Longrightarrow> \<exists>m. gob_encode v = Some m \<and> gob_decode t (gozero t) m = Some v"
    and "have_types ts vs \<Longrightarrow> distinct (map fst ts) \<Longrightarrow>
      \<exists>ms. gob_encode_fields vs = Some ms \<and> fst ` set ms \<subseteq> fst ` set ts \<and>
        (\<forall>ms'. (\<forall>n \<in> fst ` set ts. map_of ms' n = map_of ms n) \<longrightarrow>
          gob_decode_fields ts (map (\<lambda>(n, t). (n, gozero t)) ts) ms' = Some vs)"
proof (induction t v and ts vs rule: has_type_have_types.induct)
  case (5 v)
  then show ?case using basic_roundtrip [of v] by simp
next
  case (6 t vs)
  then obtain ms where ms: "gob_encode_list vs = Some ms" "length ms = length vs"
    "gob_decode_list t (replicate (length ms) (gozero t)) ms = Some vs"
    using gob_roundtrip_list [of vs t] by auto
  then show ?case by (cases ms) auto
next
  case (7 ts vs)
  then show ?case by fastforce
next
  case (11 n t ts n' v vs)
  then obtain ms where ms: "gob_encode_fields vs = Some ms" "fst ` set ms \<subseteq> fst ` set ts"
    "\<And>ms'. (\<forall>n \<in> fst ` set ts. map_of ms' n = map_of ms n) \<Longrightarrow>
          gob_decode_fields ts (map (\<lambda>(n, t). (n, gozero t)) ts) ms' = Some vs"
    by auto
  have n: "n \<notin> fst ` set ts" "n' = n" "has_type t v" using 11 by auto
  then have new: "map_of ms n = None" using ms(2) by (auto simp: map_of_eq_None_iff)
  show ?case
  proof (cases "unsent v")
    case True
    then have "v = gozero t" using n by (simp add: unsent_zero)
    then show ?thesis using True ms n new by (auto intro!: exI [of _ ms])
  next
    case False
    obtain m where "gob_encode v = Some m" "gob_decode t (gozero t) m = Some v" using 11 by auto
    moreover have "\<forall>x \<in> fst ` set ts. map_of ((n, m) # ms) x = map_of ms x" using n by auto
    ultimately show ?thesis using False ms n by auto
  qed
qed auto

lemma gob_roundtrip: "has_type t v \<Longrightarrow> \<exists>m. gob_encode v = Some m \<and> gob_decode t (gozero t) m = Some v"
  by (rule gob_roundtrip_both)

end
