(* ===== verification/Persister.thy ===== *)
theory Persister
  imports Labgob
begin

text \<open>
  \<open>raft/persister.go\<close>: the object that outlives a crash. A byte slice is a \<open>bytes\<close> value; a nil
  slice and an empty one are both the empty sequence (\<open>clone\<close> turns the first into the second, and
  the readers test the length). Every method runs under the mutex, so each is one state change.
\<close>

record Persister =
  raftstate :: bytes
  snapshot :: bytes

definition MakePersister :: Persister where
  "MakePersister = \<lparr>raftstate = [], snapshot = []\<rparr>"

definition go_copy :: "'a list \<Rightarrow> 'a list \<Rightarrow> 'a list" where
  \<comment> \<open>the built-in \<open>copy(dst, src)\<close>: the destination afterwards\<close>
  "go_copy dst src = take (min (length dst) (length src)) src @ drop (min (length dst) (length src)) dst"

definition clone :: "bytes \<Rightarrow> bytes" where
  "clone orig = (let x = replicate (length orig) GNil in go_copy x orig)"

definition Copy :: "Persister \<Rightarrow> Persister" where
  "Copy ps = (let np = MakePersister in np\<lparr>raftstate := raftstate ps, snapshot := snapshot ps\<rparr>)"

definition SaveRaftState :: "bytes \<Rightarrow> Persister \<Rightarrow> Persister" where
  "SaveRaftState st ps = ps\<lparr>raftstate := clone st\<rparr>"

definition ReadRaftState :: "Persister \<Rightarrow> bytes" where
  "ReadRaftState ps = clone (raftstate ps)"

definition RaftStateSize :: "Persister \<Rightarrow> nat" where
  "RaftStateSize ps = length (raftstate ps)"

definition SaveStateAndSnapshot :: "bytes \<Rightarrow> bytes \<Rightarrow> Persister \<Rightarrow> Persister" where
  "SaveStateAndSnapshot st snap ps = ps\<lparr>raftstate := clone st, snapshot := clone snap\<rparr>"

definition ReadSnapshot :: "Persister \<Rightarrow> bytes" where
  "ReadSnapshot ps = clone (snapshot ps)"

definition SnapshotSize :: "Persister \<Rightarrow> nat" where
  "SnapshotSize ps = length (snapshot ps)"

lemma clone_id [simp]: "clone xs = xs"
  by (simp add: clone_def go_copy_def)

lemma Copy_id [simp]: "Copy ps = ps"
  by (simp add: Copy_def MakePersister_def)

section \<open>The contract of stable storage\<close>

text \<open>What the Raft node relies on: a read returns the last write, the two slots are independent,
  and a copy made at a crash reads as the original.\<close>

locale stable_storage =
  fixes save :: "'d \<Rightarrow> 'p \<Rightarrow> 'p" and save_both :: "'d \<Rightarrow> 'd \<Rightarrow> 'p \<Rightarrow> 'p"
    and load :: "'p \<Rightarrow> 'd" and load_snap :: "'p \<Rightarrow> 'd" and copy :: "'p \<Rightarrow> 'p"
  assumes load_save: "load (save d p) = d"
    and snap_save: "load_snap (save d p) = load_snap p"
    and load_both: "load (save_both d s p) = d"
    and snap_both: "load_snap (save_both d s p) = s"
    and load_copy: "load (copy p) = load p"
    and snap_copy: "load_snap (copy p) = load_snap p"
begin

lemma load_last_save: "load (fold save (ds @ [d]) p) = d"
  by (simp add: load_save)

lemma snap_saves: "load_snap (fold save ds p) = load_snap p"
  by (induction ds arbitrary: p) (simp_all add: snap_save)

text \<open>A crash after a snapshot and any number of later saves keeps the snapshot and the last save.\<close>

lemma recover_after_saves:
  "load (copy (fold save (ds @ [d]) (save_both d' s p))) = d \<and>
   load_snap (copy (fold save (ds @ [d]) (save_both d' s p))) = s"
  by (simp add: load_copy snap_copy load_save snap_save snap_saves snap_both)

lemmas storage_simps = load_save snap_save load_both snap_both load_copy snap_copy

end

interpretation ps: stable_storage SaveRaftState SaveStateAndSnapshot ReadRaftState ReadSnapshot Copy
  by unfold_locales (simp_all add: SaveRaftState_def SaveStateAndSnapshot_def ReadRaftState_def ReadSnapshot_def)

declare ps.storage_simps [simp]

end
