(* ===== verification/Raft_Log.thy ===== *)
theory Raft_Log
  imports Labgob
begin

text \<open>
  \<open>raft/log.go\<close> and \<open>min\<close>, \<open>max\<close> of \<open>raft/util.go\<close>. A command is a Go interface value; the clients
  in the repository submit integers and strings, the code itself stores the integer \<open>-1\<close> and nil.
  Indexing and slicing outside the bounds is None (the run-time panic).
\<close>

datatype iface = INil | IInt int | IString string

record Entry =
  Command :: iface
  e_Term :: int
  e_Index :: int

record Log =
  Entries :: "Entry list"
  Index0 :: int

definition go_min :: "int \<Rightarrow> int \<Rightarrow> int" where
  "go_min a b = (if a > b then b else a)"

definition go_max :: "int \<Rightarrow> int \<Rightarrow> int" where
  "go_max a b = (if a > b then a else b)"

lemma go_min_min [simp]: "go_min a b = min a b"
  by (simp add: go_min_def)

lemma go_max_max [simp]: "go_max a b = max a b"
  by (simp add: go_max_def)

definition log_append :: "Entry list \<Rightarrow> Log \<Rightarrow> Log" where
  "log_append es l = l\<lparr>Entries := Entries l @ es\<rparr>"

definition makeEmptyLog :: Log where
  "makeEmptyLog = \<lparr>Entries = [], Index0 = 0\<rparr>"

definition log_at :: "Log \<Rightarrow> int \<Rightarrow> Entry option" where
  "log_at l idx = go_nth (Entries l) idx"

definition log_truncate :: "int \<Rightarrow> Log \<Rightarrow> Log option" where
  "log_truncate idx l = do { es \<leftarrow> go_upto (Entries l) idx; Some (l\<lparr>Entries := es\<rparr>) }"

definition log_slice :: "Log \<Rightarrow> int \<Rightarrow> Entry list option" where
  "log_slice l idx = go_from (Entries l) idx"

definition log_len :: "Log \<Rightarrow> int" where
  "log_len l = int (length (Entries l))"

definition lastLog :: "Log \<Rightarrow> Entry option" where
  "lastLog l = log_at l (log_len l - 1)"

text \<open>Go's zero value \<open>Entry{}\<close>, which pads position 0 of a log cut by a snapshot.\<close>

definition zeroEntry :: Entry where
  "zeroEntry = \<lparr>Command = INil, e_Term = 0, e_Index = 0\<rparr>"

section \<open>The contract of a log\<close>

text \<open>The Raft code reads a log through its length and its positions; it grows at the end, and is
  cut at the end or at the front.\<close>

locale entry_log =
  fixes len :: "'l \<Rightarrow> int" and at :: "'l \<Rightarrow> int \<Rightarrow> 'e option"
    and add :: "'e list \<Rightarrow> 'l \<Rightarrow> 'l" and cut :: "int \<Rightarrow> 'l \<Rightarrow> 'l option"
  assumes len_nonneg: "0 \<le> len l"
    and at_in: "0 \<le> i \<Longrightarrow> i < len l \<Longrightarrow> at l i \<noteq> None"
    and at_out: "i < 0 \<or> len l \<le> i \<Longrightarrow> at l i = None"
    and len_add: "len (add es l) = len l + int (length es)"
    and at_add_old: "i < len l \<Longrightarrow> at (add es l) i = at l i"
    and at_add_new: "j < length es \<Longrightarrow> at (add es l) (len l + int j) = Some (es ! j)"
    and cut_in: "0 \<le> i \<Longrightarrow> i \<le> len l \<Longrightarrow> cut i l \<noteq> None"
    and len_cut: "cut i l = Some l' \<Longrightarrow> len l' = i"
    and at_cut: "cut i l = Some l' \<Longrightarrow> k < i \<Longrightarrow> at l' k = at l k"
begin

lemma at_iff: "(\<exists>e. at l i = Some e) \<longleftrightarrow> 0 \<le> i \<and> i < len l"
  using at_in [of i l] at_out [of i l] by (cases "0 \<le> i \<and> i < len l") auto

lemma at_add_last: "at (add [e] l) (len (add [e] l) - 1) = Some e"
  using at_add_new [of 0 "[e]" l] by (simp add: len_add)

text \<open>Cutting the tail and adding entries replaces the tail: the positions before the cut keep their
  entries, those from the cut on hold the new ones, and nothing comes after.\<close>

lemma replace_tail:
  assumes "cut i l = Some l'"
  shows "k < i \<Longrightarrow> at (add es l') k = at l k"
    and "j < length es \<Longrightarrow> at (add es l') (i + int j) = Some (es ! j)"
    and "len (add es l') = i + int (length es)"
  using assms at_add_new [of j es l'] by (simp_all add: at_add_old at_cut len_cut len_add)

end

lemma log_at_append_old: "i < log_len l \<Longrightarrow> log_at (log_append es l) i = log_at l i"
  by (auto simp: log_at_def log_len_def log_append_def go_nth_def nth_append)

lemma log_at_append_new: "j < length es \<Longrightarrow> log_at (log_append es l) (log_len l + int j) = Some (es ! j)"
  by (simp add: log_at_def log_len_def log_append_def go_nth_def nth_append nat_add_distrib)

interpretation lg: entry_log log_len log_at log_append log_truncate
proof (unfold_locales, goal_cases)
  case (5 i l es)
  then show ?case by (rule log_at_append_old)
next
  case (6 j es l)
  then show ?case by (rule log_at_append_new)
qed (auto simp: log_len_def log_at_def log_append_def log_truncate_def go_nth_def go_upto_def
        split: if_splits)

lemma lastLog_append: "lastLog (log_append [e] l) = Some e"
  unfolding lastLog_def by (rule lg.at_add_last)

section \<open>The log as a gob value\<close>

fun iface_val :: "iface \<Rightarrow> goval" where
  "iface_val INil = VIface None"
| "iface_val (IInt i) = VIface (Some (VInt i))"
| "iface_val (IString s) = VIface (Some (VString s))"

fun val_iface :: "goval \<Rightarrow> iface option" where
  "val_iface (VIface None) = Some INil"
| "val_iface (VIface (Some (VInt i))) = Some (IInt i)"
| "val_iface (VIface (Some (VString s))) = Some (IString s)"
| "val_iface _ = None"

definition Entry_type :: gotype where
  "Entry_type = TStruct [(''Command'', TIface), (''Term'', TInt), (''Index'', TInt)]"

definition Entry_val :: "Entry \<Rightarrow> goval" where
  "Entry_val e = VStruct [(''Command'', iface_val (Command e)), (''Term'', VInt (e_Term e)), (''Index'', VInt (e_Index e))]"

fun val_Entry :: "goval \<Rightarrow> Entry option" where
  "val_Entry (VStruct [(_, c), (_, VInt t), (_, VInt i)]) =
     do { cmd \<leftarrow> val_iface c; Some \<lparr>Command = cmd, e_Term = t, e_Index = i\<rparr> }"
| "val_Entry _ = None"

definition Log_type :: gotype where
  "Log_type = TStruct [(''Entries'', TSlice Entry_type), (''Index0'', TInt)]"

definition Log_val :: "Log \<Rightarrow> goval" where
  "Log_val l = VStruct [(''Entries'', VSlice (map Entry_val (Entries l))), (''Index0'', VInt (Index0 l))]"

fun val_Log :: "goval \<Rightarrow> Log option" where
  "val_Log (VStruct [(_, VSlice es), (_, VInt i)]) =
     do { entries \<leftarrow> those (map val_Entry es); Some \<lparr>Entries = entries, Index0 = i\<rparr> }"
| "val_Log _ = None"

lemma iface_val_typed: "has_type TIface (iface_val c)"
  by (cases c) simp_all

lemma val_iface_val: "val_iface (iface_val c) = Some c"
  by (cases c) simp_all

lemma Entry_val_typed: "has_type Entry_type (Entry_val e)"
  by (simp add: Entry_type_def Entry_val_def iface_val_typed)

lemma val_Entry_val: "val_Entry (Entry_val e) = Some e"
  by (simp add: Entry_val_def val_iface_val)

lemma Log_val_typed: "has_type Log_type (Log_val l)"
  by (simp add: Log_type_def Log_val_def Entry_val_typed)

lemma val_Log_val: "val_Log (Log_val l) = Some l"
proof -
  have "those (map val_Entry (map Entry_val es)) = Some es" for es
    by (induction es) (simp_all add: val_Entry_val)
  then show ?thesis by (simp add: Log_val_def)
qed

end
