(* ===== verification/Raft_Node.thy ===== *)
theory Raft_Node
  imports Persister Raft_Log
begin

text \<open>
  The state of one Raft server, \<open>type Raft struct\<close> of \<open>raft/raft.go\<close>, the helpers that translate
  between log indices and positions after a snapshot, persistence and recovery, \<open>Make\<close>, \<open>Kill\<close>,
  \<open>GetState\<close>, and the two helpers of \<open>raft/leader_election.go\<close> every handler uses. A method that
  runs under \<open>rf.mu\<close> is one function from the node before to the node after. Clock readings and
  random numbers come in as an argument.
\<close>

section \<open>Types\<close>

datatype RaftState = Follower | Candidate | Leader

record ApplyMsg =
  CommandValid :: bool
  am_Command :: iface
  CommandIndex :: int
  SnapshotValid :: bool
  am_Snapshot :: bytes
  SnapshotTerm :: int
  SnapshotIndex :: int

text \<open>The fields of the struct, but for the mutex, the unused \<open>appendEntryCh\<close>, and the channel and
  condition variable of the applier (see \<open>Raft_Server\<close>). A peer is known by its endpoint's name.
  Times are in nanoseconds, as \<open>time.Duration\<close> is.\<close>

record Raft =
  peers :: "string list"
  persister :: Persister
  me :: nat
  dead :: "32 word"
  state :: RaftState
  heartBeat :: int
  electionTime :: int
  currentTerm :: int
  votedFor :: int
  log :: Log
  commitIndex :: int
  lastApplied :: int
  nextIndex :: "int list"
  matchIndex :: "int list"
  lastIncludeIndex :: int
  lastIncludeTerm :: int
  voteNum :: int
  votedTimer :: int

text \<open>What a critical section reads from outside: \<open>time.Now()\<close> and the value of \<open>rand.Intn\<close>.\<close>

record env =
  now :: int
  rnd :: int

definition millisecond :: int where
  "millisecond = 1000000"

section \<open>Snapshot offsets\<close>

definition restoreLog :: "Raft \<Rightarrow> int \<Rightarrow> Entry option" where
  "restoreLog rf curIndex = log_at (log rf) (curIndex - lastIncludeIndex rf)"

definition restoreLogIndex :: "Raft \<Rightarrow> int \<Rightarrow> int" where
  "restoreLogIndex rf curIndex = curIndex - lastIncludeIndex rf"

definition restoreLogTerm :: "Raft \<Rightarrow> int \<Rightarrow> int option" where
  "restoreLogTerm rf curIndex =
     (if curIndex - lastIncludeIndex rf = 0 then Some (lastIncludeTerm rf)
      else do { e \<leftarrow> log_at (log rf) (curIndex - lastIncludeIndex rf); Some (e_Term e) })"

definition getLastIndex :: "Raft \<Rightarrow> int" where
  "getLastIndex rf = log_len (log rf) - 1 + lastIncludeIndex rf"

definition getLastTerm :: "Raft \<Rightarrow> int option" where
  "getLastTerm rf =
     (if log_len (log rf) - 1 = 0 then Some (lastIncludeTerm rf)
      else do { e \<leftarrow> log_at (log rf) (log_len (log rf) - 1); Some (e_Term e) })"

definition getPrevLogInfo :: "Raft \<Rightarrow> nat \<Rightarrow> (int \<times> int) option" where
  "getPrevLogInfo rf server = do {
     n \<leftarrow> go_nth (nextIndex rf) (int server);
     let preIndex = n - 1;
     let lastIndex = getLastIndex rf;
     let preIndex = (if preIndex > lastIndex then lastIndex else preIndex);
     t \<leftarrow> restoreLogTerm rf preIndex;
     Some (preIndex, t) }"

section \<open>Persistence\<close>

definition persistData :: "Raft \<Rightarrow> bytes" where
  "persistData rf =
     (let w = [];
          (w, _) = Encode w (VInt (currentTerm rf));
          (w, _) = Encode w (VInt (votedFor rf));
          (w, _) = Encode w (Log_val (log rf));
          (w, _) = Encode w (VInt (lastIncludeIndex rf));
          (w, _) = Encode w (VInt (lastIncludeTerm rf))
      in w)"

definition persist :: "Raft \<Rightarrow> Raft" where
  "persist rf =
     (let w = [];
          (w, _) = Encode w (VInt (currentTerm rf));
          (w, _) = Encode w (VInt (votedFor rf));
          (w, _) = Encode w (Log_val (log rf));
          (w, _) = Encode w (VInt (lastIncludeIndex rf));
          (w, _) = Encode w (VInt (lastIncludeTerm rf));
          data = w
      in rf\<lparr>persister := SaveRaftState data (persister rf)\<rparr>)"

fun val_int :: "goval \<Rightarrow> int option" where
  "val_int (VInt i) = Some i"
| "val_int _ = None"

text \<open>A decoding error is \<open>log.Fatal\<close>, which ends the process: None.\<close>

definition readPersist :: "bytes \<Rightarrow> Raft \<Rightarrow> Raft option" where
  "readPersist data rf =
     (if length data < 1 then Some rf
      else do {
        let r = data;
        (v, r) \<leftarrow> Decode r TInt (gozero TInt); term \<leftarrow> val_int v;
        (v, r) \<leftarrow> Decode r TInt (gozero TInt); voted \<leftarrow> val_int v;
        (v, r) \<leftarrow> Decode r Log_type (gozero Log_type); logs \<leftarrow> val_Log v;
        (v, r) \<leftarrow> Decode r TInt (gozero TInt); lii \<leftarrow> val_int v;
        (v, r) \<leftarrow> Decode r TInt (gozero TInt); lit \<leftarrow> val_int v;
        Some (rf\<lparr>currentTerm := term, votedFor := voted, log := logs,
                 lastIncludeIndex := lii, lastIncludeTerm := lit\<rparr>) })"

section \<open>Timer, term, start and stop\<close>

definition resetElectionTimer :: "env \<Rightarrow> Raft \<Rightarrow> Raft" where
  "resetElectionTimer ev rf =
     (let t = now ev; electionTimeout = (75 + rnd ev mod 100) * millisecond
      in rf\<lparr>electionTime := t + electionTimeout\<rparr>)"

definition setNewTerm :: "int \<Rightarrow> Raft \<Rightarrow> Raft" where
  "setNewTerm term rf =
     (if term > currentTerm rf \<or> currentTerm rf = 0
      then persist (rf\<lparr>state := Follower, currentTerm := term, votedFor := -1\<rparr>)
      else rf)"

definition GetState :: "Raft \<Rightarrow> int \<times> bool" where
  "GetState rf = (currentTerm rf, state rf = Leader)"

definition Kill :: "Raft \<Rightarrow> Raft" where
  "Kill rf = rf\<lparr>dead := 1\<rparr>"

definition killed :: "Raft \<Rightarrow> bool" where
  "killed rf \<longleftrightarrow> dead rf = 1"

text \<open>The struct as \<open>&Raft{}\<close> leaves it: every field zero.\<close>

definition zeroRaft :: Raft where
  "zeroRaft = \<lparr>peers = [], persister = MakePersister, me = 0, dead = 0, state = Follower,
     heartBeat = 0, electionTime = 0, currentTerm = 0, votedFor = 0,
     log = \<lparr>Entries = [], Index0 = 0\<rparr>, commitIndex = 0, lastApplied = 0, nextIndex = [],
     matchIndex = [], lastIncludeIndex = 0, lastIncludeTerm = 0, voteNum = 0, votedTimer = 0\<rparr>"

definition Make :: "string list \<Rightarrow> nat \<Rightarrow> Persister \<Rightarrow> env \<Rightarrow> Raft option" where
  "Make ps i pst ev = do {
     let rf = zeroRaft\<lparr>peers := ps, persister := pst, me := i\<rparr>;
     let rf = rf\<lparr>state := Follower, currentTerm := 0, votedFor := -1, heartBeat := 20 * millisecond\<rparr>;
     let rf = resetElectionTimer ev rf;
     let rf = rf\<lparr>log := makeEmptyLog\<rparr>;
     let rf = rf\<lparr>log := log_append [\<lparr>Command = IInt (-1), e_Term = 0, e_Index = 0\<rparr>] (log rf)\<rparr>;
     let rf = rf\<lparr>commitIndex := 0, lastApplied := 0, lastIncludeIndex := 0, lastIncludeTerm := 0\<rparr>;
     let rf = rf\<lparr>nextIndex := replicate (length (peers rf)) 0, matchIndex := replicate (length (peers rf)) 0\<rparr>;
     rf \<leftarrow> readPersist (ReadRaftState pst) rf;
     Some (if lastIncludeIndex rf > 0 then rf\<lparr>lastApplied := lastIncludeIndex rf\<rparr> else rf) }"

section \<open>Crash and recovery\<close>

text \<open>The bytes \<open>persist\<close> writes, in closed form.\<close>

definition log_msg :: "Log \<Rightarrow> gobmsg" where
  "log_msg l = the (gob_encode (Log_val l))"

lemma log_msg: "gob_encode (Log_val l) = Some (log_msg l)" "gob_decode Log_type (gozero Log_type) (log_msg l) = Some (Log_val l)"
proof -
  obtain m where "gob_encode (Log_val l) = Some m" "gob_decode Log_type (gozero Log_type) m = Some (Log_val l)"
    using gob_roundtrip [OF Log_val_typed] by blast
  then show "gob_encode (Log_val l) = Some (log_msg l)" "gob_decode Log_type (gozero Log_type) (log_msg l) = Some (Log_val l)"
    by (simp_all add: log_msg_def)
qed

lemma persistData_eq:
  "persistData rf = [GInt (currentTerm rf), GInt (votedFor rf), log_msg (log rf),
                     GInt (lastIncludeIndex rf), GInt (lastIncludeTerm rf)]"
  by (simp add: persistData_def Encode_def log_msg)

lemma persist_eq: "persist rf = rf\<lparr>persister := SaveRaftState (persistData rf) (persister rf)\<rparr>"
  by (simp add: persist_def persistData_eq Encode_def log_msg)

lemma readPersist_nil [simp]: "readPersist [] rf = Some rf"
  by (simp add: readPersist_def)

lemma readPersist_persistData:
  "readPersist (persistData rf) rf0 =
     Some (rf0\<lparr>currentTerm := currentTerm rf, votedFor := votedFor rf, log := log rf,
               lastIncludeIndex := lastIncludeIndex rf, lastIncludeTerm := lastIncludeTerm rf\<rparr>)"
  by (simp add: readPersist_def persistData_eq Decode_def log_msg val_Log_val)

text \<open>\<open>saved rf\<close>: what the persister holds is the persistent part of the node; before the first
  write it holds nothing, and the node is as \<open>Make\<close> builds it.\<close>

definition bootLog :: Log where
  "bootLog = \<lparr>Entries = [\<lparr>Command = IInt (-1), e_Term = 0, e_Index = 0\<rparr>], Index0 = 0\<rparr>"

definition saved :: "Raft \<Rightarrow> bool" where
  "saved rf \<longleftrightarrow> ReadRaftState (persister rf) = persistData rf \<or>
     ReadRaftState (persister rf) = [] \<and> currentTerm rf = 0 \<and> votedFor rf = -1 \<and> log rf = bootLog \<and>
     lastIncludeIndex rf = 0 \<and> lastIncludeTerm rf = 0"

lemma persistData_cong:
  "currentTerm rf = currentTerm rf' \<Longrightarrow> votedFor rf = votedFor rf' \<Longrightarrow> log rf = log rf' \<Longrightarrow>
   lastIncludeIndex rf = lastIncludeIndex rf' \<Longrightarrow> lastIncludeTerm rf = lastIncludeTerm rf' \<Longrightarrow>
   persistData rf = persistData rf'"
  by (simp add: persistData_eq)

lemma saved_persist [simp]: "saved (persist rf)"
  by (simp add: saved_def persist_eq persistData_eq)

lemma saved_cong:
  "saved rf' \<Longrightarrow> persister rf = persister rf' \<Longrightarrow> currentTerm rf = currentTerm rf' \<Longrightarrow> votedFor rf = votedFor rf' \<Longrightarrow>
   log rf = log rf' \<Longrightarrow> lastIncludeIndex rf = lastIncludeIndex rf' \<Longrightarrow> lastIncludeTerm rf = lastIncludeTerm rf' \<Longrightarrow> saved rf"
  unfolding saved_def by (simp add: persistData_eq)

lemma Make_fresh:
  "raftstate pst = [] \<Longrightarrow>
   Make ps i pst ev = Some \<lparr>peers = ps, persister = pst, me = i, dead = 0, state = Follower,
     heartBeat = 20 * millisecond, electionTime = now ev + (75 + rnd ev mod 100) * millisecond,
     currentTerm = 0, votedFor = -1, log = bootLog, commitIndex = 0, lastApplied = 0,
     nextIndex = replicate (length ps) 0, matchIndex = replicate (length ps) 0,
     lastIncludeIndex = 0, lastIncludeTerm = 0, voteNum = 0, votedTimer = 0\<rparr>"
  by (simp add: Make_def ReadRaftState_def zeroRaft_def resetElectionTimer_def log_append_def
      makeEmptyLog_def bootLog_def Let_def)

lemma Make_restart:
  "ReadRaftState pst = persistData rf \<Longrightarrow>
   Make ps i pst ev = Some \<lparr>peers = ps, persister = pst, me = i, dead = 0, state = Follower,
     heartBeat = 20 * millisecond, electionTime = now ev + (75 + rnd ev mod 100) * millisecond,
     currentTerm = currentTerm rf, votedFor = votedFor rf, log = log rf, commitIndex = 0,
     lastApplied = max 0 (lastIncludeIndex rf),
     nextIndex = replicate (length ps) 0, matchIndex = replicate (length ps) 0,
     lastIncludeIndex = lastIncludeIndex rf, lastIncludeTerm = lastIncludeTerm rf, voteNum = 0, votedTimer = 0\<rparr>"
  by (simp add: Make_def readPersist_persistData zeroRaft_def resetElectionTimer_def Let_def)

lemma saved_Make:
  assumes "saved rf"
  obtains rf' where "Make ps i (persister rf) ev = Some rf'" "saved rf'"
    "persister rf' = persister rf" "peers rf' = ps" "me rf' = i" "state rf' = Follower"
    "currentTerm rf' = currentTerm rf" "votedFor rf' = votedFor rf" "log rf' = log rf"
    "lastIncludeIndex rf' = lastIncludeIndex rf" "lastIncludeTerm rf' = lastIncludeTerm rf"
    "commitIndex rf' = 0" "lastApplied rf' = max 0 (lastIncludeIndex rf)"
    "nextIndex rf' = replicate (length ps) 0" "matchIndex rf' = replicate (length ps) 0" "dead rf' = 0"
proof (cases "ReadRaftState (persister rf) = persistData rf")
  case True
  show ?thesis
    by (rule that, rule Make_restart [OF True]) (use True in \<open>simp_all add: saved_def persistData_eq\<close>)
next
  case False
  then have boot: "raftstate (persister rf) = []" "currentTerm rf = 0" "votedFor rf = -1" "log rf = bootLog"
    "lastIncludeIndex rf = 0" "lastIncludeTerm rf = 0"
    using assms by (auto simp: saved_def ReadRaftState_def)
  show ?thesis
    by (rule that, rule Make_fresh [OF boot(1)]) (use boot in \<open>simp_all add: saved_def ReadRaftState_def\<close>)
qed

section \<open>The index structure of a node\<close>

text \<open>Position \<open>k > 0\<close> of the log holds index \<open>lastIncludeIndex + k\<close>; position 0 is a pad with index
  and term 0 (the entry \<open>Make\<close> adds, or \<open>Entry{}\<close> after a snapshot).\<close>

definition well_indexed :: "Raft \<Rightarrow> bool" where
  "well_indexed rf \<longleftrightarrow> 0 \<le> lastIncludeIndex rf \<and> Entries (log rf) \<noteq> [] \<and>
     e_Index (Entries (log rf) ! 0) = 0 \<and> e_Term (Entries (log rf) ! 0) = 0 \<and>
     (\<forall>k \<in> {1..<length (Entries (log rf))}. e_Index (Entries (log rf) ! k) = lastIncludeIndex rf + int k)"

definition sized :: "Raft \<Rightarrow> bool" where
  "sized rf \<longleftrightarrow> length (nextIndex rf) = length (peers rf) \<and> length (matchIndex rf) = length (peers rf) \<and>
     me rf < length (peers rf)"

lemma well_indexed_cong:
  "well_indexed rf' \<Longrightarrow> log rf = log rf' \<Longrightarrow> lastIncludeIndex rf = lastIncludeIndex rf' \<Longrightarrow> well_indexed rf"
  by (simp add: well_indexed_def)

lemma well_indexed_last:
  assumes "well_indexed rf"
  obtains e where "lastLog (log rf) = Some e" "e = last (Entries (log rf))"
    "e_Index e = (if length (Entries (log rf)) = 1 then 0 else getLastIndex rf)"
proof -
  let ?n = "length (Entries (log rf))"
  have ne: "Entries (log rf) \<noteq> []" using assms by (simp add: well_indexed_def)
  then have n: "0 < ?n" by simp
  have at: "lastLog (log rf) = Some (Entries (log rf) ! (?n - 1))"
    using n by (simp add: lastLog_def log_at_def log_len_def go_nth_def nat_diff_distrib')
  have "e_Index (Entries (log rf) ! (?n - 1)) = (if ?n = 1 then 0 else getLastIndex rf)"
  proof (cases "?n = 1")
    case True
    then show ?thesis using assms by (simp add: well_indexed_def)
  next
    case False
    then have "?n - 1 \<in> {1..<?n}" using n by (metis One_nat_def Suc_leI atLeastLessThan_iff diff_less less_one nat_neq_iff zero_less_diff)
    then have "e_Index (Entries (log rf) ! (?n - 1)) = lastIncludeIndex rf + int (?n - 1)"
      using assms unfolding well_indexed_def by blast
    then show ?thesis using False n by (simp add: getLastIndex_def log_len_def of_nat_diff)
  qed
  then show ?thesis using that at ne by (simp add: last_conv_nth)
qed

lemma lastIncludeIndex_le_getLastIndex: "well_indexed rf \<Longrightarrow> lastIncludeIndex rf \<le> getLastIndex rf"
  by (cases "Entries (log rf)") (auto simp: well_indexed_def getLastIndex_def log_len_def)

lemma restoreLogTerm_eq_None:
  assumes "well_indexed rf"
  shows "restoreLogTerm rf i = None \<longleftrightarrow> i < lastIncludeIndex rf \<or> getLastIndex rf < i"
  using lastIncludeIndex_le_getLastIndex [OF assms]
  by (auto simp: restoreLogTerm_def log_at_def go_nth_eq_None getLastIndex_def log_len_def bind_eq_None_conv)

lemma restoreLogTerm_in:
  assumes "well_indexed rf" "lastIncludeIndex rf \<le> i" "i \<le> getLastIndex rf"
  obtains t where "restoreLogTerm rf i = Some t"
  using restoreLogTerm_eq_None [OF assms(1), of i] assms(2,3) by (cases "restoreLogTerm rf i") auto

lemma restoreLog_in:
  "well_indexed rf \<Longrightarrow> lastIncludeIndex rf \<le> i \<Longrightarrow> i \<le> getLastIndex rf \<Longrightarrow>
   restoreLog rf i = Some (Entries (log rf) ! nat (i - lastIncludeIndex rf))"
  by (simp add: restoreLog_def log_at_def go_nth_def getLastIndex_def log_len_def)

end
