(* ===== verification/Raft_Rpc.thy ===== *)
theory Raft_Rpc
  imports Raft_Node
begin

text \<open>
  The arguments and replies of the three RPCs (\<open>raft/request_vote.go\<close>, \<open>raft/append_entry.go\<close>,
  \<open>raft/raft.go\<close>) and what a critical section leaves behind besides the new node: the goroutines
  it starts and the wake-ups it sends. The RPC values reach the other side as they were sent:
  \<open>labrpc\<close> encodes them with \<open>labgob\<close> and decodes them into a fresh zero value, which is the round
  trip of \<open>Labgob\<close>.
\<close>

record RequestVoteArgs =
  rv_Term :: int
  CandidateId :: int
  LastLogIndex :: int
  LastLogTerm :: int

record RequestVoteReply =
  rvr_Term :: int
  VoteGranted :: bool

record AppendEntriesArgs =
  ae_Term :: int
  LeaderId :: int
  PrevLogIndex :: int
  PrevLogTerm :: int
  ae_Entries :: "Entry list"
  LeaderCommit :: int

record AppendEntriesReply =
  aer_Term :: int
  Success :: bool
  Conflict :: bool
  XTerm :: int
  XIndex :: int
  XLen :: int

record InstallSnapshotArgs =
  is_Term :: int
  is_LeaderId :: int
  LastIncludeIndex :: int
  LastIncludeTerm :: int
  Data :: bytes

record InstallSnapshotReply =
  isr_Term :: int

text \<open>The reply a handler is called with: \<open>reflect.New\<close> in \<open>labrpc\<close>, all fields zero.\<close>

definition zeroAppendEntriesReply :: AppendEntriesReply where
  "zeroAppendEntriesReply = \<lparr>aer_Term = 0, Success = False, Conflict = False, XTerm = 0, XIndex = 0, XLen = 0\<rparr>"

datatype action =
    GoRequestVote nat RequestVoteArgs \<comment> \<open>\<open>go rf.candidateRequestVote(serverId, &args, ...)\<close>\<close>
  | GoSendEntries nat AppendEntriesArgs \<comment> \<open>\<open>go rf.leaderSendEntries(peer, &args)\<close>\<close>
  | GoSendSnapShot nat \<comment> \<open>\<open>go rf.leaderSendSnapShot(peer)\<close>\<close>
  | ApplyBroadcast \<comment> \<open>\<open>rf.apply()\<close>, that is \<open>rf.applyCond.Broadcast()\<close>\<close>

section \<open>RPC values on the wire\<close>

definition RequestVoteArgs_type :: gotype where
  "RequestVoteArgs_type = TStruct [(''Term'', TInt), (''CandidateId'', TInt), (''LastLogIndex'', TInt), (''LastLogTerm'', TInt)]"

definition RequestVoteArgs_val :: "RequestVoteArgs \<Rightarrow> goval" where
  "RequestVoteArgs_val a = VStruct [(''Term'', VInt (rv_Term a)), (''CandidateId'', VInt (CandidateId a)),
     (''LastLogIndex'', VInt (LastLogIndex a)), (''LastLogTerm'', VInt (LastLogTerm a))]"

definition AppendEntriesArgs_type :: gotype where
  "AppendEntriesArgs_type = TStruct [(''Term'', TInt), (''LeaderId'', TInt), (''PrevLogIndex'', TInt),
     (''PrevLogTerm'', TInt), (''Entries'', TSlice Entry_type), (''LeaderCommit'', TInt)]"

definition AppendEntriesArgs_val :: "AppendEntriesArgs \<Rightarrow> goval" where
  "AppendEntriesArgs_val a = VStruct [(''Term'', VInt (ae_Term a)), (''LeaderId'', VInt (LeaderId a)),
     (''PrevLogIndex'', VInt (PrevLogIndex a)), (''PrevLogTerm'', VInt (PrevLogTerm a)),
     (''Entries'', VSlice (map Entry_val (ae_Entries a))), (''LeaderCommit'', VInt (LeaderCommit a))]"

definition AppendEntriesReply_type :: gotype where
  "AppendEntriesReply_type = TStruct [(''Term'', TInt), (''Success'', TBool), (''Conflict'', TBool),
     (''XTerm'', TInt), (''XIndex'', TInt), (''XLen'', TInt)]"

definition AppendEntriesReply_val :: "AppendEntriesReply \<Rightarrow> goval" where
  "AppendEntriesReply_val r = VStruct [(''Term'', VInt (aer_Term r)), (''Success'', VBool (Success r)),
     (''Conflict'', VBool (Conflict r)), (''XTerm'', VInt (XTerm r)), (''XIndex'', VInt (XIndex r)), (''XLen'', VInt (XLen r))]"

lemma rpc_vals_typed:
  "has_type RequestVoteArgs_type (RequestVoteArgs_val a)"
  "has_type AppendEntriesArgs_type (AppendEntriesArgs_val b)"
  "has_type AppendEntriesReply_type (AppendEntriesReply_val c)"
  by (simp_all add: RequestVoteArgs_type_def RequestVoteArgs_val_def AppendEntriesArgs_type_def
      AppendEntriesArgs_val_def AppendEntriesReply_type_def AppendEntriesReply_val_def Entry_val_typed)

end
