(* ===== verification/Raft_Replication.thy ===== *)
theory Raft_Replication
  imports Raft_Rpc
begin

text \<open>
  \<open>raft/append_entry.go\<close>: the leader's side (\<open>appendEntries\<close>, the reply part of
  \<open>leaderSendEntries\<close>, \<open>findLastLogInTerm\<close>, \<open>leaderCommitRule\<close>) and the follower's handler
  \<open>AppendEntries\<close>. The lemmas show that none of them reads outside the log, what window of the log
  a request carries, what each branch of the handler does, and that the loop of \<open>leaderCommitRule\<close>
  computes the greatest index a majority has acknowledged.
\<close>

section \<open>The leader sends\<close>

text \<open>The request for a peer whose next index is \<open>next\<close>.\<close>

definition appendEntries_args :: "Entry \<Rightarrow> nat \<Rightarrow> int \<Rightarrow> Raft \<Rightarrow> AppendEntriesArgs option" where
  "appendEntries_args lastL peer next rf = do {
     let nextI = next;
     let nextI = (if nextI \<le> 0 then 1 else nextI);
     let nextI = (if e_Index lastL < nextI then e_Index lastL else nextI);
     (prevLogIndex, prevLogTerm) \<leftarrow> getPrevLogInfo rf peer;
     entries \<leftarrow> (if getLastIndex rf \<ge> next
                 then go_from (Entries (log rf)) (nextI - lastIncludeIndex rf) else Some []);
     Some \<lparr>ae_Term = currentTerm rf, LeaderId = int (me rf), PrevLogIndex = prevLogIndex,
           PrevLogTerm = prevLogTerm, ae_Entries = entries, LeaderCommit = commitIndex rf\<rparr> }"

text \<open>The loop over the peers: a peer that needs a snapshot ends it (the source's \<open>return\<close>).\<close>

fun appendEntries_peers :: "bool \<Rightarrow> env \<Rightarrow> Entry \<Rightarrow> nat list \<Rightarrow> Raft \<Rightarrow> (Raft \<times> action list) option" where
  "appendEntries_peers heartbeat ev lastL [] rf = Some (rf, [])"
| "appendEntries_peers heartbeat ev lastL (peer # ps) rf =
     (if peer = me rf then appendEntries_peers heartbeat ev lastL ps (resetElectionTimer ev rf)
      else do {
        next \<leftarrow> go_nth (nextIndex rf) (int peer);
        if next - 1 < lastIncludeIndex rf then Some (rf, [GoSendSnapShot peer])
        else if e_Index lastL \<ge> next \<or> heartbeat then do {
          args \<leftarrow> appendEntries_args lastL peer next rf;
          (rf', acts) \<leftarrow> appendEntries_peers heartbeat ev lastL ps rf;
          Some (rf', GoSendEntries peer args # acts) }
        else appendEntries_peers heartbeat ev lastL ps rf })"

definition appendEntries :: "bool \<Rightarrow> env \<Rightarrow> Raft \<Rightarrow> (Raft \<times> action list) option" where
  "appendEntries heartbeat ev rf = do {
     lastL \<leftarrow> lastLog (log rf);
     appendEntries_peers heartbeat ev lastL [0..<length (peers rf)] rf }"

section \<open>The leader counts\<close>

function findLastLogInTerm_loop :: "Raft \<Rightarrow> int \<Rightarrow> int \<Rightarrow> int option" where
  "findLastLogInTerm_loop rf x i =
     (if i > lastIncludeIndex rf then do {
        term \<leftarrow> restoreLogTerm rf i;
        if term = x then Some i
        else if term < x then Some (-1)
        else findLastLogInTerm_loop rf x (i - 1) }
      else Some (-1))"
  by pat_completeness auto
termination
  by (relation "measure (\<lambda>(rf, x, i). nat (i - lastIncludeIndex rf))") auto

declare findLastLogInTerm_loop.simps [simp del]

definition findLastLogInTerm :: "Raft \<Rightarrow> int \<Rightarrow> int option" where
  "findLastLogInTerm rf x = findLastLogInTerm_loop rf x (getLastIndex rf)"

text \<open>The inner loop of \<open>leaderCommitRule\<close>: True when it breaks with the counter above half.\<close>

fun leaderCommitRule_count :: "Raft \<Rightarrow> int \<Rightarrow> nat list \<Rightarrow> int \<Rightarrow> bool option" where
  "leaderCommitRule_count rf n [] counter = Some False"
| "leaderCommitRule_count rf n (serverId # ss) counter = do {
     counter \<leftarrow> (if serverId \<noteq> me rf then do {
                   m \<leftarrow> go_nth (matchIndex rf) (int serverId);
                   Some (if m \<ge> n then counter + 1 else counter) }
                 else Some counter);
     if counter > int (length (peers rf)) div 2 then Some True
     else leaderCommitRule_count rf n ss counter }"

function leaderCommitRule_loop :: "Raft \<Rightarrow> int \<Rightarrow> (Raft \<times> action list) option" where
  "leaderCommitRule_loop rf n =
     (if n \<le> getLastIndex rf then do {
        reached \<leftarrow> leaderCommitRule_count rf n [0..<length (peers rf)] 1;
        let rf1 = (if reached then rf\<lparr>commitIndex := n\<rparr> else rf);
        (rf2, acts) \<leftarrow> leaderCommitRule_loop rf1 (n + 1);
        Some (rf2, (if reached then [ApplyBroadcast] else []) @ acts) }
      else Some (rf, []))"
  by pat_completeness auto
termination
  by (relation "measure (\<lambda>(rf, n). nat (getLastIndex rf + 1 - n))") (auto simp: getLastIndex_def)

declare leaderCommitRule_loop.simps [simp del]

definition leaderCommitRule :: "Raft \<Rightarrow> (Raft \<times> action list) option" where
  "leaderCommitRule rf =
     (if state rf \<noteq> Leader then Some (rf, []) else leaderCommitRule_loop rf (commitIndex rf + 1))"

text \<open>\<open>leaderSendEntries\<close> after the RPC returned.\<close>

definition leaderSendEntries :: "nat \<Rightarrow> AppendEntriesArgs \<Rightarrow> AppendEntriesReply \<Rightarrow> Raft \<Rightarrow> (Raft \<times> action list) option" where
  "leaderSendEntries serverId args reply rf =
     (if aer_Term reply > currentTerm rf then Some (setNewTerm (aer_Term reply) rf, [])
      else if ae_Term args = currentTerm rf then do {
        rf \<leftarrow> (if Success reply then do {
                let match = PrevLogIndex args + int (length (ae_Entries args));
                let next = match + 1;
                n \<leftarrow> go_nth (nextIndex rf) (int serverId);
                ns \<leftarrow> go_set (nextIndex rf) (int serverId) (go_max n next);
                m \<leftarrow> go_nth (matchIndex rf) (int serverId);
                ms \<leftarrow> go_set (matchIndex rf) (int serverId) (go_max m match);
                Some (rf\<lparr>nextIndex := ns, matchIndex := ms\<rparr>) }
              else if Conflict reply then
                (if XTerm reply = -1 then do {
                   ns \<leftarrow> go_set (nextIndex rf) (int serverId) (XLen reply);
                   Some (rf\<lparr>nextIndex := ns\<rparr>) }
                 else do {
                   lastLogInXTerm \<leftarrow> findLastLogInTerm rf (XTerm reply);
                   ns \<leftarrow> go_set (nextIndex rf) (int serverId)
                           (if lastLogInXTerm > 0 then lastLogInXTerm else XIndex reply);
                   Some (rf\<lparr>nextIndex := ns\<rparr>) })
              else do {
                n \<leftarrow> go_nth (nextIndex rf) (int serverId);
                if n > 1 then do {
                  ns \<leftarrow> go_set (nextIndex rf) (int serverId) (n - 1);
                  Some (rf\<lparr>nextIndex := ns\<rparr>) }
                else Some rf });
        leaderCommitRule rf }
      else Some (rf, []))"

section \<open>The follower's handler\<close>

text \<open>The loop that looks for the first entry of the conflicting term; 0 when it runs off.\<close>

function AppendEntries_xIndex :: "Raft \<Rightarrow> int \<Rightarrow> int \<Rightarrow> int option" where
  "AppendEntries_xIndex rf xTerm xIndex =
     (if xIndex > lastIncludeIndex rf then do {
        t \<leftarrow> restoreLogTerm rf (xIndex - 1);
        if t \<noteq> xTerm then Some xIndex
        else AppendEntries_xIndex rf xTerm (xIndex - 1) }
      else Some 0)"
  by pat_completeness auto
termination
  by (relation "measure (\<lambda>(rf, t, x). nat (x - lastIncludeIndex rf))") auto

declare AppendEntries_xIndex.simps [simp del]

text \<open>A request of the current term resets the timer, and a candidate steps down.\<close>

definition heard :: "env \<Rightarrow> Raft \<Rightarrow> Raft" where
  "heard ev rf =
     (let rf = resetElectionTimer ev rf
      in if state rf = Candidate then rf\<lparr>state := Follower\<rparr> else rf)"

definition AppendEntries :: "AppendEntriesArgs \<Rightarrow> env \<Rightarrow> Raft \<Rightarrow> (AppendEntriesReply \<times> Raft \<times> action list) option" where
  "AppendEntries args ev rf = do {
     let reply = zeroAppendEntriesReply\<lparr>Success := False, aer_Term := currentTerm rf\<rparr>;
     if ae_Term args > currentTerm rf then Some (reply, setNewTerm (ae_Term args) rf, [])
     else if ae_Term args < currentTerm rf then Some (reply, rf, [])
     else do {
       let rf = heard ev rf;
       if lastIncludeIndex rf > PrevLogIndex args
       then Some (reply\<lparr>Success := False, XIndex := lastIncludeIndex rf + 1\<rparr>, rf, [])
       else if getLastIndex rf < PrevLogIndex args
       then Some (reply\<lparr>Conflict := True, XTerm := -1, XIndex := -1, XLen := getLastIndex rf\<rparr>, rf, [])
       else do {
         t \<leftarrow> restoreLogTerm rf (PrevLogIndex args);
         if t \<noteq> PrevLogTerm args then do {
           xTerm \<leftarrow> restoreLogTerm rf (PrevLogIndex args);
           xIndex \<leftarrow> AppendEntries_xIndex rf xTerm (PrevLogIndex args);
           Some (reply\<lparr>Conflict := True, XIndex := xIndex, XTerm := xTerm, XLen := getLastIndex rf\<rparr>, rf, []) }
         else do {
           kept \<leftarrow> go_upto (Entries (log rf)) (PrevLogIndex args + 1 - lastIncludeIndex rf);
           let rf = rf\<lparr>log := (log rf)\<lparr>Entries := kept @ ae_Entries args\<rparr>\<rparr>;
           let rf = persist rf;
           if LeaderCommit args > commitIndex rf
           then Some (reply\<lparr>Success := True\<rparr>,
                      rf\<lparr>commitIndex := go_min (LeaderCommit args) (getLastIndex rf)\<rparr>, [ApplyBroadcast])
           else Some (reply\<lparr>Success := True\<rparr>, rf, []) } } } }"

section \<open>What the leader sends\<close>

text \<open>A request carries the leader's term and commit index, a previous entry the leader's log has
  (or its snapshot point), and everything after it; a snapshot goes to a peer that needs an entry
  the log no longer has.\<close>

fun sent_ok :: "Raft \<Rightarrow> action \<Rightarrow> bool" where
  "sent_ok rf (GoSendEntries p args) \<longleftrightarrow>
     p < length (peers rf) \<and> p \<noteq> me rf \<and> ae_Term args = currentTerm rf \<and> LeaderId args = int (me rf) \<and>
     LeaderCommit args = commitIndex rf \<and>
     lastIncludeIndex rf \<le> PrevLogIndex args \<and> PrevLogIndex args \<le> getLastIndex rf \<and>
     restoreLogTerm rf (PrevLogIndex args) = Some (PrevLogTerm args) \<and>
     ae_Entries args = drop (nat (PrevLogIndex args + 1 - lastIncludeIndex rf)) (Entries (log rf))"
| "sent_ok rf (GoSendSnapShot p) \<longleftrightarrow>
     p < length (peers rf) \<and> p \<noteq> me rf \<and> nextIndex rf ! p \<le> lastIncludeIndex rf"
| "sent_ok rf _ \<longleftrightarrow> False"

lemma sent_ok_cong:
  "peers rf' = peers rf \<Longrightarrow> me rf' = me rf \<Longrightarrow> currentTerm rf' = currentTerm rf \<Longrightarrow>
   commitIndex rf' = commitIndex rf \<Longrightarrow> lastIncludeIndex rf' = lastIncludeIndex rf \<Longrightarrow>
   lastIncludeTerm rf' = lastIncludeTerm rf \<Longrightarrow> log rf' = log rf \<Longrightarrow> nextIndex rf' = nextIndex rf \<Longrightarrow>
   sent_ok rf' a = sent_ok rf a"
  by (cases a) (simp_all add: restoreLogTerm_def getLastIndex_def)

lemma resetElectionTimer_eq:
  "resetElectionTimer ev rf = rf\<lparr>electionTime := now ev + (75 + rnd ev mod 100) * millisecond\<rparr>"
  by (simp add: resetElectionTimer_def)

lemma prev_window:
  assumes "well_indexed rf" and "go_nth (nextIndex rf) (int p) = Some next"
    and "\<not> next - 1 < lastIncludeIndex rf"
  obtains pt where "getPrevLogInfo rf p = Some (min (next - 1) (getLastIndex rf), pt)"
    "restoreLogTerm rf (min (next - 1) (getLastIndex rf)) = Some pt"
    "lastIncludeIndex rf \<le> min (next - 1) (getLastIndex rf)"
proof -
  have le: "lastIncludeIndex rf \<le> min (next - 1) (getLastIndex rf)"
    using assms lastIncludeIndex_le_getLastIndex [of rf] by simp
  then obtain pt where pt: "restoreLogTerm rf (min (next - 1) (getLastIndex rf)) = Some pt"
    by (rule restoreLogTerm_in [OF assms(1)]) simp
  have "getPrevLogInfo rf p = Some (min (next - 1) (getLastIndex rf), pt)"
    using pt by (auto simp: getPrevLogInfo_def assms(2) Let_def min_def split: if_splits)
  then show ?thesis using that pt le by blast
qed

lemma args_window:
  assumes wi: "well_indexed rf" and l: "lastLog (log rf) = Some l"
    and n: "go_nth (nextIndex rf) (int p) = Some n" and le: "\<not> n - 1 < lastIncludeIndex rf"
    and p: "p < length (peers rf)" "p \<noteq> me rf"
  obtains args where "appendEntries_args l p n rf = Some args" "sent_ok rf (GoSendEntries p args)"
proof -
  obtain pt where pt: "getPrevLogInfo rf p = Some (min (n - 1) (getLastIndex rf), pt)"
    "restoreLogTerm rf (min (n - 1) (getLastIndex rf)) = Some pt"
    "lastIncludeIndex rf \<le> min (n - 1) (getLastIndex rf)"
    using prev_window [OF wi n le] by blast
  define i where "i = (if n \<le> 0 then 1 else n)"
  have w: "(if getLastIndex rf \<ge> n
          then go_from (Entries (log rf)) ((if e_Index l < i then e_Index l else i) - lastIncludeIndex rf)
          else Some []) =
         Some (drop (nat (min (n - 1) (getLastIndex rf) + 1 - lastIncludeIndex rf)) (Entries (log rf)))"
  proof (cases "getLastIndex rf \<ge> n")
    case True
    have nn: "0 \<le> lastIncludeIndex rf" using wi by (simp add: well_indexed_def)
    then have i: "i = n" using le by (auto simp: i_def)
    have "length (Entries (log rf)) \<noteq> 1" using True le by (auto simp: getLastIndex_def log_len_def)
    then have "e_Index l = getLastIndex rf" using well_indexed_last [OF wi] l by force
    then show ?thesis using True le i nn by (simp add: go_from_def getLastIndex_def log_len_def min_def)
  next
    case False
    then show ?thesis by (simp add: getLastIndex_def log_len_def)
  qed
  show ?thesis
  proof (rule that)
    show "appendEntries_args l p n rf = Some \<lparr>ae_Term = currentTerm rf, LeaderId = int (me rf),
        PrevLogIndex = min (n - 1) (getLastIndex rf), PrevLogTerm = pt,
        ae_Entries = drop (nat (min (n - 1) (getLastIndex rf) + 1 - lastIncludeIndex rf)) (Entries (log rf)),
        LeaderCommit = commitIndex rf\<rparr>"
      by (simp only: appendEntries_args_def Let_def i_def [symmetric] pt(1) Option.bind.simps prod.case w)
  qed (use p pt in simp)
qed

text \<open>One turn of the loop for a peer other than the node itself.\<close>

lemma appendEntries_peers_turn:
  assumes "well_indexed rf" and "sized rf" and "lastLog (log rf) = Some l" and "p < length (peers rf)" and "p \<noteq> me rf"
  obtains (snap) "nextIndex rf ! p \<le> lastIncludeIndex rf"
      "appendEntries_peers hb ev l (p # ps) rf = Some (rf, [GoSendSnapShot p])"
      "sent_ok rf (GoSendSnapShot p)"
  | (send) args where "lastIncludeIndex rf < nextIndex rf ! p" "nextIndex rf ! p \<le> e_Index l \<or> hb"
      "appendEntries_peers hb ev l (p # ps) rf =
         map_option (\<lambda>(rf', acts). (rf', GoSendEntries p args # acts)) (appendEntries_peers hb ev l ps rf)"
      "sent_ok rf (GoSendEntries p args)"
  | (skip) "lastIncludeIndex rf < nextIndex rf ! p" "e_Index l < nextIndex rf ! p" "\<not> hb"
      "appendEntries_peers hb ev l (p # ps) rf = appendEntries_peers hb ev l ps rf"
proof -
  have n: "go_nth (nextIndex rf) (int p) = Some (nextIndex rf ! p)"
    using assms by (simp add: go_simps sized_def)
  consider "nextIndex rf ! p - 1 < lastIncludeIndex rf"
    | "\<not> nextIndex rf ! p - 1 < lastIncludeIndex rf" "nextIndex rf ! p \<le> e_Index l \<or> hb"
    | "\<not> nextIndex rf ! p - 1 < lastIncludeIndex rf" "\<not> (nextIndex rf ! p \<le> e_Index l \<or> hb)"
    by blast
  then show ?thesis
  proof cases
    case 1
    then show ?thesis using n assms by (intro snap) simp_all
  next
    case 2
    obtain args where a: "appendEntries_args l p (nextIndex rf ! p) rf = Some args" "sent_ok rf (GoSendEntries p args)"
      using args_window [OF assms(1,3) n 2(1) assms(4,5)] by blast
    have "appendEntries_peers hb ev l (p # ps) rf =
         map_option (\<lambda>(rf', acts). (rf', GoSendEntries p args # acts)) (appendEntries_peers hb ev l ps rf)"
      using n 2 a assms(5) by (cases "appendEntries_peers hb ev l ps rf") auto
    then show ?thesis using send 2 a by simp
  next
    case 3
    then show ?thesis using n assms by (intro skip) simp_all
  qed
qed

lemma appendEntries_peers_self:
  "p = me rf \<Longrightarrow> appendEntries_peers hb ev l (p # ps) rf = appendEntries_peers hb ev l ps (resetElectionTimer ev rf)"
  by simp

declare appendEntries_peers.simps(2) [simp del]

lemma reset_frame:
  "well_indexed (resetElectionTimer ev rf) = well_indexed rf" "sized (resetElectionTimer ev rf) = sized rf"
  "log (resetElectionTimer ev rf) = log rf" "peers (resetElectionTimer ev rf) = peers rf"
  "me (resetElectionTimer ev rf) = me rf" "nextIndex (resetElectionTimer ev rf) = nextIndex rf"
  "lastIncludeIndex (resetElectionTimer ev rf) = lastIncludeIndex rf"
  by (simp_all add: resetElectionTimer_eq well_indexed_def sized_def)

lemma reset_sent_ok: "sent_ok (resetElectionTimer ev rf) a = sent_ok rf a"
  by (rule sent_ok_cong) (simp_all add: resetElectionTimer_eq)

lemma appendEntries_peers_spec:
  assumes "well_indexed rf" and "sized rf" and "lastLog (log rf) = Some l" and "set ps \<subseteq> {..<length (peers rf)}"
  shows "\<exists>t acts. appendEntries_peers hb ev l ps rf = Some (rf\<lparr>electionTime := t\<rparr>, acts) \<and>
           (\<forall>a \<in> set acts. sent_ok rf a)"
  using assms
proof (induction ps arbitrary: rf)
  case Nil
  then show ?case by (auto intro!: exI [of _ "electionTime rf"])
next
  case (Cons p ps)
  have set: "set ps \<subseteq> {..<length (peers rf)}" and p: "p < length (peers rf)" using Cons.prems by auto
  show ?case
  proof (cases "p = me rf")
    case True
    let ?rf = "resetElectionTimer ev rf"
    have "\<exists>t acts. appendEntries_peers hb ev l ps ?rf = Some (?rf\<lparr>electionTime := t\<rparr>, acts) \<and> (\<forall>a \<in> set acts. sent_ok ?rf a)"
      by (rule Cons.IH) (use Cons.prems set in \<open>simp_all add: reset_frame\<close>)
    moreover have "?rf\<lparr>electionTime := t\<rparr> = rf\<lparr>electionTime := t\<rparr>" for t by (simp add: resetElectionTimer_eq)
    ultimately show ?thesis using True by (simp add: appendEntries_peers_self reset_frame reset_sent_ok)
  next
    case False
    obtain t acts where IH: "appendEntries_peers hb ev l ps rf = Some (rf\<lparr>electionTime := t\<rparr>, acts)"
      "\<forall>a \<in> set acts. sent_ok rf a"
      using Cons.IH [OF Cons.prems(1-3) set] by blast
    show ?thesis
    proof (rule appendEntries_peers_turn [OF Cons.prems(1-3) p False, of hb ev ps], goal_cases)
      case 1
      then show ?case by (auto intro!: exI [of _ "electionTime rf"])
    next
      case (2 args)
      then show ?case using IH by auto
    next
      case 3
      then show ?case using IH by auto
    qed
  qed
qed

lemma appendEntries_spec:
  assumes "well_indexed rf" and "sized rf"
  obtains t acts where "appendEntries hb ev rf = Some (rf\<lparr>electionTime := t\<rparr>, acts)" "\<forall>a \<in> set acts. sent_ok rf a"
proof -
  obtain l where l: "lastLog (log rf) = Some l" using well_indexed_last [OF assms(1)] by blast
  have "set [0..<length (peers rf)] \<subseteq> {..<length (peers rf)}" by auto
  then obtain t acts where "appendEntries_peers hb ev l [0..<length (peers rf)] rf = Some (rf\<lparr>electionTime := t\<rparr>, acts)"
    "\<forall>a \<in> set acts. sent_ok rf a"
    using appendEntries_peers_spec [OF assms l] by blast
  then show ?thesis using that by (simp add: appendEntries_def l)
qed

subsection \<open>Who is served\<close>

fun target :: "action \<Rightarrow> nat option" where
  "target (GoRequestVote p _) = Some p"
| "target (GoSendEntries p _) = Some p"
| "target (GoSendSnapShot p) = Some p"
| "target ApplyBroadcast = None"

text \<open>A heartbeat reaches everyone, unless a peer needs a snapshot.\<close>

lemma appendEntries_peers_heartbeat:
  assumes "well_indexed rf" and "sized rf" and "lastLog (log rf) = Some l" and "set ps \<subseteq> {..<length (peers rf)}"
    and "\<forall>p \<in> set ps. p \<noteq> me rf \<longrightarrow> lastIncludeIndex rf < nextIndex rf ! p"
  shows "\<exists>acts. appendEntries_peers True ev l ps rf =
           Some (if me rf \<in> set ps then resetElectionTimer ev rf else rf, acts) \<and>
           map target acts = map Some (filter (\<lambda>p. p \<noteq> me rf) ps)"
  using assms
proof (induction ps arbitrary: rf)
  case Nil
  then show ?case by simp
next
  case (Cons p ps)
  have set: "set ps \<subseteq> {..<length (peers rf)}" and p: "p < length (peers rf)" using Cons.prems by auto
  show ?case
  proof (cases "p = me rf")
    case True
    let ?rf = "resetElectionTimer ev rf"
    have "\<exists>acts. appendEntries_peers True ev l ps ?rf =
           Some (if me ?rf \<in> set ps then resetElectionTimer ev ?rf else ?rf, acts) \<and>
           map target acts = map Some (filter (\<lambda>p. p \<noteq> me ?rf) ps)"
      by (rule Cons.IH) (use Cons.prems set in \<open>simp_all add: reset_frame\<close>)
    moreover have "resetElectionTimer ev ?rf = ?rf" by (simp add: resetElectionTimer_eq)
    ultimately show ?thesis using True by (simp add: appendEntries_peers_self reset_frame split: if_splits)
  next
    case False
    obtain acts where IH: "appendEntries_peers True ev l ps rf =
        Some (if me rf \<in> set ps then resetElectionTimer ev rf else rf, acts)"
      "map target acts = map Some (filter (\<lambda>p. p \<noteq> me rf) ps)"
      using Cons.IH [OF Cons.prems(1-3) set] Cons.prems(5) by auto
    have nosnap: "\<not> nextIndex rf ! p \<le> lastIncludeIndex rf" using Cons.prems(5) False by simp
    show ?thesis
      by (rule appendEntries_peers_turn [OF Cons.prems(1-3) p False, of True ev ps])
        (use IH False nosnap in auto)
  qed
qed

text \<open>A peer at or below the snapshot point ends the loop: the peers after it are not served, and
  the node's own election timer is reset only when its own number came before.\<close>

lemma appendEntries_peers_stops:
  assumes "well_indexed rf" and "sized rf" and "lastLog (log rf) = Some l"
    and "set ps \<subseteq> {..<length (peers rf)}" and "q < length (peers rf)"
    and "q \<noteq> me rf" and "nextIndex rf ! q \<le> lastIncludeIndex rf"
  shows "\<exists>rf' acts. appendEntries_peers hb ev l (ps @ q # qs) rf = Some (rf', acts) \<and>
         target ` set acts \<subseteq> Some ` insert q (set ps) \<and> (me rf \<notin> set ps \<longrightarrow> rf' = rf)"
  using assms
proof (induction ps arbitrary: rf)
  case Nil
  show ?case
    by (rule appendEntries_peers_turn [OF Nil(1-3) Nil(5,6), of hb ev qs]) (use Nil in auto)
next
  case (Cons p ps)
  have set: "set ps \<subseteq> {..<length (peers rf)}" and p: "p < length (peers rf)" using Cons.prems by auto
  show ?case
  proof (cases "p = me rf")
    case True
    let ?rf = "resetElectionTimer ev rf"
    have "\<exists>rf' acts. appendEntries_peers hb ev l (ps @ q # qs) ?rf = Some (rf', acts) \<and>
         target ` set acts \<subseteq> Some ` insert q (set ps) \<and> (me ?rf \<notin> set ps \<longrightarrow> rf' = ?rf)"
      by (rule Cons.IH) (use Cons.prems set in \<open>simp_all add: reset_frame\<close>)
    then obtain rf' acts where "appendEntries_peers hb ev l (ps @ q # qs) ?rf = Some (rf', acts)"
         "target ` set acts \<subseteq> Some ` insert q (set ps)" by blast
    then show ?thesis using True by (simp add: appendEntries_peers_self) blast
  next
    case False
    have "\<exists>rf' acts. appendEntries_peers hb ev l (ps @ q # qs) rf = Some (rf', acts) \<and>
         target ` set acts \<subseteq> Some ` insert q (set ps) \<and> (me rf \<notin> set ps \<longrightarrow> rf' = rf)"
      by (rule Cons.IH) (use Cons.prems set in simp_all)
    then obtain rf' acts where IH: "appendEntries_peers hb ev l (ps @ q # qs) rf = Some (rf', acts)"
         "target ` set acts \<subseteq> Some ` insert q (set ps)" "me rf \<notin> set ps \<longrightarrow> rf' = rf"
      by blast
    show ?thesis
      by (rule appendEntries_peers_turn [OF Cons.prems(1-3) p False, of hb ev "ps @ q # qs"])
        (use IH False in auto)
  qed
qed

lemma appendEntries_stops:
  assumes "well_indexed rf" and "sized rf" and "q < length (peers rf)" and "q \<noteq> me rf"
    and "nextIndex rf ! q \<le> lastIncludeIndex rf"
  shows "\<exists>rf' acts. appendEntries hb ev rf = Some (rf', acts) \<and>
         target ` set acts \<subseteq> Some ` {..q} \<and> (q < me rf \<longrightarrow> rf' = rf)"
proof -
  obtain l where l: "lastLog (log rf) = Some l" using well_indexed_last [OF assms(1)] by blast
  have "[0..<length (peers rf)] = [0..<q] @ [q..<length (peers rf)]"
    using assms(3) upt_add_eq_append [of 0 q "length (peers rf) - q"] by simp
  then have sp: "[0..<length (peers rf)] = [0..<q] @ q # [Suc q..<length (peers rf)]"
    using assms(3) by (simp add: upt_conv_Cons)
  have "set [0..<q] \<subseteq> {..<length (peers rf)}" using assms(3) by auto
  note stop = appendEntries_peers_stops [OF assms(1,2) l this assms(3,4,5), of hb ev "[Suc q..<length (peers rf)]"]
  have "insert q (set [0..<q]) = {..q}" by auto
  then show ?thesis using stop by (auto simp: appendEntries_def l sp)
qed

section \<open>Searching for a conflicting term\<close>

text \<open>\<open>term_is rf i t\<close>: the log (or the snapshot point) has term \<open>t\<close> at index \<open>i\<close>.\<close>

abbreviation term_is :: "Raft \<Rightarrow> int \<Rightarrow> int \<Rightarrow> bool" where
  "term_is rf i t \<equiv> restoreLogTerm rf i = Some t"

lemma findLastLogInTerm_loop_spec:
  assumes "well_indexed rf" and "lastIncludeIndex rf \<le> i" and "i \<le> getLastIndex rf"
  shows "\<exists>r. findLastLogInTerm_loop rf x i = Some r \<and>
     (if r = -1 then \<exists>j \<ge> lastIncludeIndex rf. j \<le> i \<and> (\<forall>k. j < k \<longrightarrow> k \<le> i \<longrightarrow> (\<exists>t > x. term_is rf k t)) \<and>
         (j = lastIncludeIndex rf \<or> (\<exists>t < x. term_is rf j t))
      else lastIncludeIndex rf < r \<and> r \<le> i \<and> term_is rf r x \<and> (\<forall>k. r < k \<longrightarrow> k \<le> i \<longrightarrow> (\<exists>t > x. term_is rf k t)))"
  using assms
proof (induction rf x i rule: findLastLogInTerm_loop.induct)
  case (1 rf x i)
  show ?case
  proof (cases "i > lastIncludeIndex rf")
    case False
    then show ?thesis using "1.prems"
      by (subst findLastLogInTerm_loop.simps) auto
  next
    case True
    obtain t where t: "restoreLogTerm rf i = Some t"
      using restoreLogTerm_in [OF "1.prems"] by blast
    have i: "i \<noteq> -1" using True "1.prems"(1) by (simp add: well_indexed_def)
    consider "t = x" | "t < x" | "t > x" by linarith
    then show ?thesis
    proof cases
      case 1
      then show ?thesis using t True i by (subst findLastLogInTerm_loop.simps) auto
    next
      case 2
      then show ?thesis using t True i by (subst findLastLogInTerm_loop.simps) (force intro: exI [of _ i])
    next
      case 3
      then have ne: "t \<noteq> x" "\<not> t < x" by auto
      obtain r where r: "findLastLogInTerm_loop rf x (i - 1) = Some r"
        "if r = -1 then \<exists>j \<ge> lastIncludeIndex rf. j \<le> i - 1 \<and> (\<forall>k. j < k \<longrightarrow> k \<le> i - 1 \<longrightarrow> (\<exists>t > x. term_is rf k t)) \<and>
         (j = lastIncludeIndex rf \<or> (\<exists>t < x. term_is rf j t))
      else lastIncludeIndex rf < r \<and> r \<le> i - 1 \<and> term_is rf r x \<and> (\<forall>k. r < k \<longrightarrow> k \<le> i - 1 \<longrightarrow> (\<exists>t > x. term_is rf k t))"
        using "1.IH" [OF True t ne] "1.prems" True by auto
      have ext: "(\<forall>k. j < k \<longrightarrow> k \<le> i - 1 \<longrightarrow> (\<exists>t > x. term_is rf k t)) \<Longrightarrow>
          (\<forall>k. j < k \<longrightarrow> k \<le> i \<longrightarrow> (\<exists>t > x. term_is rf k t))" for j
        using t 3 by (metis zle_diff1_eq order_le_less)
      have step: "findLastLogInTerm_loop rf x i = Some r"
        using t True ne r(1) by (subst findLastLogInTerm_loop.simps) simp
      show ?thesis
      proof (cases "r = -1")
        case minus: True
        then obtain j where j: "j \<ge> lastIncludeIndex rf" "j \<le> i - 1" "\<forall>k. j < k \<longrightarrow> k \<le> i - 1 \<longrightarrow> (\<exists>t > x. term_is rf k t)"
          "j = lastIncludeIndex rf \<or> (\<exists>t < x. term_is rf j t)"
          using r(2) by auto
        have "\<exists>j \<ge> lastIncludeIndex rf. j \<le> i \<and> (\<forall>k. j < k \<longrightarrow> k \<le> i \<longrightarrow> (\<exists>t > x. term_is rf k t)) \<and>
            (j = lastIncludeIndex rf \<or> (\<exists>t < x. term_is rf j t))"
          using j(1,2,4) ext [OF j(3)] by (intro exI [of _ j]) simp
        then show ?thesis using step minus by simp
      next
        case False
        then show ?thesis using step r(2) ext [of r] by simp
      qed
    qed
  qed
qed

lemma AppendEntries_xIndex_spec:
  assumes "well_indexed rf" and "lastIncludeIndex rf \<le> i" and "i \<le> getLastIndex rf" and "term_is rf i x"
  shows "\<exists>r. AppendEntries_xIndex rf x i = Some r \<and>
     (if r = 0 then \<forall>k. lastIncludeIndex rf \<le> k \<longrightarrow> k \<le> i \<longrightarrow> term_is rf k x
      else lastIncludeIndex rf < r \<and> r \<le> i \<and> (\<forall>k. r \<le> k \<longrightarrow> k \<le> i \<longrightarrow> term_is rf k x) \<and>
           (\<exists>t. t \<noteq> x \<and> term_is rf (r - 1) t))"
  using assms
proof (induction rf x i rule: AppendEntries_xIndex.induct)
  case (1 rf x i)
  show ?case
  proof (cases "i > lastIncludeIndex rf")
    case False
    then have "i = lastIncludeIndex rf" using "1.prems" by simp
    then show ?thesis using "1.prems" by (subst AppendEntries_xIndex.simps) auto
  next
    case True
    obtain t where t: "restoreLogTerm rf (i - 1) = Some t"
      using restoreLogTerm_in [OF "1.prems"(1), of "i - 1"] True "1.prems" by auto
    have i: "i \<noteq> 0" using True "1.prems"(1) by (simp add: well_indexed_def)
    show ?thesis
    proof (cases "t = x")
      case False
      then show ?thesis using t True i "1.prems"(4)
        by (subst AppendEntries_xIndex.simps) auto
    next
      case eq: True
      obtain r where r: "AppendEntries_xIndex rf x (i - 1) = Some r"
        "if r = 0 then \<forall>k. lastIncludeIndex rf \<le> k \<longrightarrow> k \<le> i - 1 \<longrightarrow> term_is rf k x
         else lastIncludeIndex rf < r \<and> r \<le> i - 1 \<and> (\<forall>k. r \<le> k \<longrightarrow> k \<le> i - 1 \<longrightarrow> term_is rf k x) \<and>
           (\<exists>t. t \<noteq> x \<and> term_is rf (r - 1) t)"
        using "1.IH" [OF True t] eq t "1.prems" True by auto
      have ext: "(\<forall>k. j \<le> k \<longrightarrow> k \<le> i - 1 \<longrightarrow> term_is rf k x) \<Longrightarrow> (\<forall>k. j \<le> k \<longrightarrow> k \<le> i \<longrightarrow> term_is rf k x)" for j
        using "1.prems"(4) by (metis zle_diff1_eq order_le_less)
      have step: "AppendEntries_xIndex rf x i = Some r"
        using t True eq r(1) by (subst AppendEntries_xIndex.simps) simp
      show ?thesis using r(2) ext [of "lastIncludeIndex rf"] ext [of r] step by (simp split: if_splits)
    qed
  qed
qed

section \<open>The commit rule\<close>

text \<open>The servers whose copy of index \<open>n\<close> the leader knows of: itself and the peers that have
  acknowledged it.\<close>

definition backed :: "Raft \<Rightarrow> int \<Rightarrow> nat set" where
  "backed rf n = insert (me rf) {p \<in> {..<length (peers rf)}. p \<noteq> me rf \<and> n \<le> matchIndex rf ! p}"

definition committable :: "Raft \<Rightarrow> int \<Rightarrow> bool" where
  "committable rf n \<longleftrightarrow> majority (length (peers rf)) (backed rf n)"

lemma leaderCommitRule_count_filter:
  assumes "set ss \<subseteq> {..<length (peers rf)}" and "length (matchIndex rf) = length (peers rf)"
    and "ss \<noteq> [] \<or> c \<le> int (length (peers rf)) div 2"
  shows "leaderCommitRule_count rf n ss c =
    Some (int (length (peers rf)) div 2 < c + int (length (filter (\<lambda>s. s \<noteq> me rf \<and> n \<le> matchIndex rf ! s) ss)))"
  using assms
proof (induction ss arbitrary: c)
  case Nil
  then show ?case by simp
next
  case (Cons s ss)
  let ?c = "if s \<noteq> me rf \<and> n \<le> matchIndex rf ! s then c + 1 else c"
  have s: "s < length (matchIndex rf)" using Cons.prems by auto
  have step: "leaderCommitRule_count rf n (s # ss) c =
      (if ?c > int (length (peers rf)) div 2 then Some True else leaderCommitRule_count rf n ss ?c)"
    using s by (simp add: go_simps)
  show ?case
  proof (cases "?c > int (length (peers rf)) div 2")
    case True
    then show ?thesis unfolding step by (auto split: if_splits)
  next
    case False
    then have "leaderCommitRule_count rf n ss ?c = Some (int (length (peers rf)) div 2 <
        ?c + int (length (filter (\<lambda>s. s \<noteq> me rf \<and> n \<le> matchIndex rf ! s) ss)))"
      using Cons.prems by (intro Cons.IH) auto
    then show ?thesis unfolding step using False by (auto split: if_splits)
  qed
qed

text \<open>The early exit of the inner loop does not change its answer: it is the majority test.\<close>

lemma leaderCommitRule_count_majority:
  assumes "sized rf"
  shows "leaderCommitRule_count rf n [0..<length (peers rf)] 1 = Some (committable rf n)"
proof -
  let ?A = "{p \<in> {..<length (peers rf)}. p \<noteq> me rf \<and> n \<le> matchIndex rf ! p}"
  have len: "length (filter (\<lambda>s. s \<noteq> me rf \<and> n \<le> matchIndex rf ! s) [0..<length (peers rf)]) = card ?A"
    by (subst distinct_card [symmetric]) (auto intro: arg_cong [where f = card])
  have "card (backed rf n) = card ?A + 1" unfolding backed_def by simp
  moreover have "backed rf n \<subseteq> {..<length (peers rf)}" using assms by (auto simp: backed_def sized_def)
  moreover have "leaderCommitRule_count rf n [0..<length (peers rf)] 1 =
      Some (int (length (peers rf)) div 2 < 1 + int (card ?A))"
  proof -
    have "set [0..<length (peers rf)] \<subseteq> {..<length (peers rf)}" by auto
    moreover have "length (matchIndex rf) = length (peers rf)" "[0..<length (peers rf)] \<noteq> []"
      using assms by (auto simp: sized_def)
    ultimately have "leaderCommitRule_count rf n [0..<length (peers rf)] 1 =
      Some (int (length (peers rf)) div 2 < 1 + int (length (filter (\<lambda>s. s \<noteq> me rf \<and> n \<le> matchIndex rf ! s) [0..<length (peers rf)])))"
      by (intro leaderCommitRule_count_filter) simp_all
    then show ?thesis unfolding len .
  qed
  moreover have "int (length (peers rf)) div 2 = int (length (peers rf) div 2)" by (simp add: zdiv_int)
  ultimately show ?thesis by (auto simp: committable_def majority_def)
qed

lemma committable_commit [simp]: "committable (rf\<lparr>commitIndex := c\<rparr>) n = committable rf n"
  by (simp add: committable_def backed_def)

lemma leaderCommitRule_loop_spec:
  assumes "sized rf"
  shows "leaderCommitRule_loop rf n =
    (let ks = filter (committable rf) [n..getLastIndex rf]
     in Some (rf\<lparr>commitIndex := last (commitIndex rf # ks)\<rparr>, replicate (length ks) ApplyBroadcast))"
  using assms
proof (induction rf n rule: leaderCommitRule_loop.induct)
  case (1 rf n)
  show ?case
  proof (cases "n \<le> getLastIndex rf")
    case False
    then show ?thesis by (subst leaderCommitRule_loop.simps) simp
  next
    case True
    let ?rf = "if committable rf n then rf\<lparr>commitIndex := n\<rparr> else rf"
    let ?ks = "filter (committable rf) [n + 1..getLastIndex rf]"
    have sz: "sized ?rf" using 1(2) by (simp add: sized_def)
    have last: "getLastIndex ?rf = getLastIndex rf" by (simp add: getLastIndex_def)
    have comm: "committable ?rf = committable rf" by (auto simp: fun_eq_iff)
    have IH: "leaderCommitRule_loop ?rf (n + 1) =
        Some (?rf\<lparr>commitIndex := last (commitIndex ?rf # ?ks)\<rparr>, replicate (length ?ks) ApplyBroadcast)"
      using 1(1) [OF True leaderCommitRule_count_majority [OF 1(2)] refl sz] unfolding last comm Let_def by simp
    have up: "[n..getLastIndex rf] = n # [n + 1..getLastIndex rf]" using True by (rule upto_rec1)
    show ?thesis
      using True IH leaderCommitRule_count_majority [OF 1(2), of n]
      by (subst leaderCommitRule_loop.simps) (simp add: up Let_def split: if_splits)
  qed
qed

section \<open>What the operations keep\<close>

text \<open>\<open>node_ok\<close>: the invariant of a single node. \<open>election_frame\<close>: the only ways a step that is not
  part of an election touches term, vote and role: not at all, a step down in the same term, or a
  newer term with no vote and the role of a follower.\<close>

definition node_ok :: "Raft \<Rightarrow> bool" where
  "node_ok rf \<longleftrightarrow> well_indexed rf \<and> sized rf \<and> saved rf"

definition election_frame :: "Raft \<Rightarrow> Raft \<Rightarrow> bool" where
  "election_frame rf rf' \<longleftrightarrow> me rf' = me rf \<and> peers rf' = peers rf \<and>
     (currentTerm rf' = currentTerm rf \<and> votedFor rf' = votedFor rf \<and> (state rf' = state rf \<or> state rf' = Follower)
      \<or> currentTerm rf < currentTerm rf' \<and> votedFor rf' = -1 \<and> state rf' = Follower)"

lemma election_frame_refl [simp]: "election_frame rf rf"
  by (simp add: election_frame_def)

lemma setNewTerm_eq:
  "currentTerm rf < t \<Longrightarrow> setNewTerm t rf = persist (rf\<lparr>state := Follower, currentTerm := t, votedFor := -1\<rparr>)"
  by (simp add: setNewTerm_def)

lemma persist_fields [simp]:
  "me (persist rf) = me rf" "peers (persist rf) = peers rf" "state (persist rf) = state rf"
  "currentTerm (persist rf) = currentTerm rf" "votedFor (persist rf) = votedFor rf" "log (persist rf) = log rf"
  "commitIndex (persist rf) = commitIndex rf" "lastApplied (persist rf) = lastApplied rf"
  "nextIndex (persist rf) = nextIndex rf" "matchIndex (persist rf) = matchIndex rf"
  "lastIncludeIndex (persist rf) = lastIncludeIndex rf" "lastIncludeTerm (persist rf) = lastIncludeTerm rf"
  "dead (persist rf) = dead rf" "electionTime (persist rf) = electionTime rf"
  by (simp_all add: persist_eq)

lemma setNewTerm_fields:
  assumes "currentTerm rf < t"
  shows "me (setNewTerm t rf) = me rf" "peers (setNewTerm t rf) = peers rf" "state (setNewTerm t rf) = Follower"
    "currentTerm (setNewTerm t rf) = t" "votedFor (setNewTerm t rf) = -1" "log (setNewTerm t rf) = log rf"
    "commitIndex (setNewTerm t rf) = commitIndex rf" "lastApplied (setNewTerm t rf) = lastApplied rf"
    "nextIndex (setNewTerm t rf) = nextIndex rf" "matchIndex (setNewTerm t rf) = matchIndex rf"
    "lastIncludeIndex (setNewTerm t rf) = lastIncludeIndex rf" "lastIncludeTerm (setNewTerm t rf) = lastIncludeTerm rf"
  by (simp_all add: setNewTerm_eq [OF assms])

lemma setNewTerm_frame: "currentTerm rf < t \<Longrightarrow> election_frame rf (setNewTerm t rf)"
  by (simp add: election_frame_def setNewTerm_fields)

lemma node_okI_persist:
  "well_indexed rf \<Longrightarrow> sized rf \<Longrightarrow> node_ok (persist rf)"
  by (simp add: node_ok_def well_indexed_def sized_def)

lemma node_ok_persisted_cong:
  assumes "node_ok rf'" and "persister rf = persister rf'" and "currentTerm rf = currentTerm rf'" and "votedFor rf = votedFor rf'"
    and "log rf = log rf'" and "lastIncludeIndex rf = lastIncludeIndex rf'" and "lastIncludeTerm rf = lastIncludeTerm rf'"
    and "length (nextIndex rf) = length (nextIndex rf')" and "length (matchIndex rf) = length (matchIndex rf')"
    and "peers rf = peers rf'" and "me rf = me rf'"
  shows "node_ok rf"
  using assms saved_cong [of rf' rf] by (simp add: node_ok_def well_indexed_def sized_def)

lemma setNewTerm_node_ok: "node_ok rf \<Longrightarrow> currentTerm rf < t \<Longrightarrow> node_ok (setNewTerm t rf)"
  using node_okI_persist [of "rf\<lparr>state := Follower, currentTerm := t, votedFor := -1\<rparr>"]
  by (simp add: setNewTerm_eq node_ok_def well_indexed_def sized_def)

text \<open>Entries numbered from the index after \<open>p\<close>: what a request to a follower has to carry.\<close>

definition numbered :: "int \<Rightarrow> Entry list \<Rightarrow> bool" where
  "numbered p es \<longleftrightarrow> map e_Index es = [p + 1..p + int (length es)]"

lemma numbered_nth: "numbered p es \<longleftrightarrow> (\<forall>k < length es. e_Index (es ! k) = p + 1 + int k)"
proof -
  have "[p + 1..p + int (length es)] ! k = p + 1 + int k" if "k < length es" for k
    using that by (simp add: nth_upto)
  then show ?thesis unfolding numbered_def list_eq_iff_nth_eq by simp
qed

lemma well_indexed_numbered:
  assumes "well_indexed rf" and "lastIncludeIndex rf \<le> p"
  shows "numbered p (drop (nat (p + 1 - lastIncludeIndex rf)) (Entries (log rf)))"
  unfolding numbered_nth
proof (intro allI impI)
  fix k assume k: "k < length (drop (nat (p + 1 - lastIncludeIndex rf)) (Entries (log rf)))"
  let ?i = "nat (p + 1 - lastIncludeIndex rf) + k"
  have "?i \<in> {1..<length (Entries (log rf))}" using k assms(2) by auto
  then have "e_Index (Entries (log rf) ! ?i) = lastIncludeIndex rf + int ?i"
    using assms(1) unfolding well_indexed_def by blast
  then show "e_Index (drop (nat (p + 1 - lastIncludeIndex rf)) (Entries (log rf)) ! k) = p + 1 + int k"
    using k assms(2) by simp
qed

lemma well_indexed_replace_tail:
  assumes wi: "well_indexed rf" and p: "lastIncludeIndex rf \<le> p" "p \<le> getLastIndex rf" and num: "numbered p es"
    and log: "Entries (log rf') = take (nat (p + 1 - lastIncludeIndex rf)) (Entries (log rf)) @ es"
    and lii: "lastIncludeIndex rf' = lastIncludeIndex rf"
  shows "well_indexed rf'"
proof -
  let ?c = "nat (p + 1 - lastIncludeIndex rf)" and ?es = "Entries (log rf)"
  have c: "0 < ?c" "?c \<le> length ?es" using p by (auto simp: getLastIndex_def log_len_def)
  have zero: "Entries (log rf') ! 0 = ?es ! 0" "Entries (log rf') \<noteq> []"
    using c by (auto simp: log nth_append)
  have "e_Index (Entries (log rf') ! k) = lastIncludeIndex rf + int k" if k: "k \<in> {1..<length (Entries (log rf'))}" for k
  proof (cases "k < ?c")
    case True
    then have "k \<in> {1..<length ?es}" using k c by auto
    then show ?thesis using wi True c unfolding log well_indexed_def by (simp add: nth_append)
  next
    case False
    then have "k - ?c < length es" using k c by (auto simp: log)
    then have "e_Index (es ! (k - ?c)) = p + 1 + int (k - ?c)" using num by (simp add: numbered_nth)
    then show ?thesis using False c p by (simp add: log nth_append of_nat_diff)
  qed
  then show ?thesis using wi zero by (simp add: well_indexed_def lii)
qed

section \<open>The follower's handler, branch by branch\<close>

lemma AppendEntries_newer:
  "currentTerm rf < ae_Term args \<Longrightarrow>
   AppendEntries args ev rf = Some (zeroAppendEntriesReply\<lparr>aer_Term := currentTerm rf\<rparr>, setNewTerm (ae_Term args) rf, [])"
  by (simp add: AppendEntries_def zeroAppendEntriesReply_def Let_def)

lemma AppendEntries_stale:
  "ae_Term args < currentTerm rf \<Longrightarrow>
   AppendEntries args ev rf = Some (zeroAppendEntriesReply\<lparr>aer_Term := currentTerm rf\<rparr>, rf, [])"
  by (simp add: AppendEntries_def zeroAppendEntriesReply_def Let_def)

lemma heard_eq:
  "heard ev rf = rf\<lparr>electionTime := now ev + (75 + rnd ev mod 100) * millisecond,
                     state := (if state rf = Candidate then Follower else state rf)\<rparr>"
  by (simp add: heard_def resetElectionTimer_eq Let_def)

lemma heard_log [simp]:
  "log (heard ev rf) = log rf" "lastIncludeIndex (heard ev rf) = lastIncludeIndex rf"
  "getLastIndex (heard ev rf) = getLastIndex rf" "restoreLogTerm (heard ev rf) = restoreLogTerm rf"
  "well_indexed (heard ev rf) = well_indexed rf" "commitIndex (heard ev rf) = commitIndex rf"
  "sized (heard ev rf) = sized rf"
  by (auto simp: heard_eq getLastIndex_def restoreLogTerm_def well_indexed_def sized_def fun_eq_iff)

text \<open>A request of the current term: rejected with one of three replies, or stored.\<close>

definition rejection :: "AppendEntriesArgs \<Rightarrow> Raft \<Rightarrow> AppendEntriesReply \<Rightarrow> bool" where
  "rejection args rf reply \<longleftrightarrow> aer_Term reply = currentTerm rf \<and> \<not> Success reply \<and>
     (if PrevLogIndex args < lastIncludeIndex rf then \<not> Conflict reply
      else if getLastIndex rf < PrevLogIndex args
      then Conflict reply \<and> XTerm reply = -1 \<and> XLen reply = getLastIndex rf
      else Conflict reply \<and> restoreLogTerm rf (PrevLogIndex args) = Some (XTerm reply) \<and>
           XTerm reply \<noteq> PrevLogTerm args \<and> XLen reply = getLastIndex rf \<and>
           AppendEntries_xIndex rf (XTerm reply) (PrevLogIndex args) = Some (XIndex reply))"

definition stored :: "AppendEntriesArgs \<Rightarrow> env \<Rightarrow> Raft \<Rightarrow> Raft" where
  "stored args ev rf =
     (let rf1 = persist ((heard ev rf)\<lparr>log := (log rf)\<lparr>Entries :=
            take (nat (PrevLogIndex args + 1 - lastIncludeIndex rf)) (Entries (log rf)) @ ae_Entries args\<rparr>\<rparr>)
      in if commitIndex rf < LeaderCommit args
         then rf1\<lparr>commitIndex := min (LeaderCommit args) (getLastIndex rf1)\<rparr> else rf1)"

lemma xIndex_heard: "AppendEntries_xIndex (heard ev rf) t i = AppendEntries_xIndex rf t i"
proof (induction rf t i rule: AppendEntries_xIndex.induct)
  case (1 rf t i)
  show ?case
    by (subst (1 2) AppendEntries_xIndex.simps) (cases "restoreLogTerm rf (i - 1)"; use 1 in auto)
qed

lemma AppendEntries_current:
  assumes wi: "well_indexed rf" and "ae_Term args = currentTerm rf"
  obtains (reject) reply where "AppendEntries args ev rf = Some (reply, heard ev rf, [])" "rejection args rf reply"
      "\<not> (lastIncludeIndex rf \<le> PrevLogIndex args \<and> restoreLogTerm rf (PrevLogIndex args) = Some (PrevLogTerm args))"
  | (store) reply where "lastIncludeIndex rf \<le> PrevLogIndex args" "PrevLogIndex args \<le> getLastIndex rf"
      "restoreLogTerm rf (PrevLogIndex args) = Some (PrevLogTerm args)"
      "reply = zeroAppendEntriesReply\<lparr>aer_Term := currentTerm rf, Success := True\<rparr>"
      "AppendEntries args ev rf = Some (reply, stored args ev rf,
         if commitIndex rf < LeaderCommit args then [ApplyBroadcast] else [])"
proof -
  have tm: "\<not> currentTerm rf < ae_Term args" "\<not> ae_Term args < currentTerm rf" using assms by auto
  consider "PrevLogIndex args < lastIncludeIndex rf"
    | "\<not> PrevLogIndex args < lastIncludeIndex rf" "getLastIndex rf < PrevLogIndex args"
    | "lastIncludeIndex rf \<le> PrevLogIndex args" "PrevLogIndex args \<le> getLastIndex rf" by linarith
  then show ?thesis
  proof cases
    case 1
    show ?thesis
      by (rule reject [of "zeroAppendEntriesReply\<lparr>aer_Term := currentTerm rf, XIndex := lastIncludeIndex rf + 1\<rparr>"])
        (use 1 tm in \<open>simp_all add: AppendEntries_def zeroAppendEntriesReply_def rejection_def Let_def\<close>)
  next
    case 2
    have "restoreLogTerm rf (PrevLogIndex args) = None" using 2 restoreLogTerm_eq_None [OF wi] by simp
    then show ?thesis
      by (intro reject [of "zeroAppendEntriesReply\<lparr>aer_Term := currentTerm rf, Conflict := True, XTerm := -1, XIndex := -1,
             XLen := getLastIndex rf\<rparr>"])
        (use 2 tm in \<open>simp_all add: AppendEntries_def zeroAppendEntriesReply_def rejection_def Let_def\<close>)
  next
    case 3
    then obtain t where t: "restoreLogTerm rf (PrevLogIndex args) = Some t" using restoreLogTerm_in [OF wi] by blast
    have c: "\<not> PrevLogIndex args < lastIncludeIndex rf" "\<not> getLastIndex rf < PrevLogIndex args" using 3 by auto
    show ?thesis
    proof (cases "t = PrevLogTerm args")
      case False
      obtain x where x: "AppendEntries_xIndex rf t (PrevLogIndex args) = Some x"
        using AppendEntries_xIndex_spec [OF wi 3 t] by blast
      show ?thesis
        by (rule reject [of "zeroAppendEntriesReply\<lparr>aer_Term := currentTerm rf, Conflict := True, XTerm := t, XIndex := x,
             XLen := getLastIndex rf\<rparr>"])
          (use c t x tm False in \<open>simp_all add: AppendEntries_def zeroAppendEntriesReply_def rejection_def xIndex_heard Let_def\<close>)
    next
      case True
      have "go_upto (Entries (log rf)) (PrevLogIndex args + 1 - lastIncludeIndex rf) =
          Some (take (nat (PrevLogIndex args + 1 - lastIncludeIndex rf)) (Entries (log rf)))"
        using 3 by (simp add: go_upto_def getLastIndex_def log_len_def)
      then show ?thesis
        by (intro store [OF 3 _ refl])
          (use c t tm True in \<open>simp_all add: AppendEntries_def zeroAppendEntriesReply_def stored_def Let_def\<close>)
    qed
  qed
qed

definition same_log :: "Raft \<Rightarrow> Raft \<Rightarrow> bool" where
  "same_log rf rf' \<longleftrightarrow> log rf' = log rf \<and> lastIncludeIndex rf' = lastIncludeIndex rf \<and> lastIncludeTerm rf' = lastIncludeTerm rf"

lemma heard_node_ok: "node_ok rf \<Longrightarrow> node_ok (heard ev rf)"
  by (erule node_ok_persisted_cong) (simp_all add: heard_eq)

lemma heard_frame: "election_frame rf (heard ev rf)"
  by (simp add: election_frame_def heard_eq)

lemma stored_fields:
  "log (stored args ev rf) = (log rf)\<lparr>Entries :=
      take (nat (PrevLogIndex args + 1 - lastIncludeIndex rf)) (Entries (log rf)) @ ae_Entries args\<rparr>"
  "lastIncludeIndex (stored args ev rf) = lastIncludeIndex rf" "lastIncludeTerm (stored args ev rf) = lastIncludeTerm rf"
  "currentTerm (stored args ev rf) = currentTerm rf" "votedFor (stored args ev rf) = votedFor rf"
  "state (stored args ev rf) = (if state rf = Candidate then Follower else state rf)"
  "me (stored args ev rf) = me rf" "peers (stored args ev rf) = peers rf"
  "nextIndex (stored args ev rf) = nextIndex rf" "matchIndex (stored args ev rf) = matchIndex rf"
  "lastApplied (stored args ev rf) = lastApplied rf"
  by (simp_all add: stored_def heard_eq Let_def)

lemma stored_frame: "election_frame rf (stored args ev rf)"
  by (simp add: election_frame_def stored_fields)

lemma stored_lastIndex:
  assumes "lastIncludeIndex rf \<le> PrevLogIndex args" and "PrevLogIndex args \<le> getLastIndex rf"
  shows "getLastIndex (stored args ev rf) = PrevLogIndex args + int (length (ae_Entries args))"
proof -
  have "min (length (Entries (log rf))) (nat (PrevLogIndex args + 1 - lastIncludeIndex rf)) =
      nat (PrevLogIndex args + 1 - lastIncludeIndex rf)"
    using assms by (auto simp: getLastIndex_def log_len_def)
  then show ?thesis using assms(1) by (simp add: getLastIndex_def log_len_def stored_fields)
qed

lemma stored_commitIndex:
  assumes "lastIncludeIndex rf \<le> PrevLogIndex args" and "PrevLogIndex args \<le> getLastIndex rf"
  shows "commitIndex (stored args ev rf) =
    (if commitIndex rf < LeaderCommit args
     then min (LeaderCommit args) (PrevLogIndex args + int (length (ae_Entries args))) else commitIndex rf)"
proof -
  have "commitIndex (stored args ev rf) =
      (if commitIndex rf < LeaderCommit args then min (LeaderCommit args) (getLastIndex (stored args ev rf)) else commitIndex rf)"
    by (simp add: stored_def heard_eq Let_def getLastIndex_def)
  then show ?thesis using stored_lastIndex [OF assms] by simp
qed

lemma stored_node_ok:
  assumes ok: "node_ok rf" and p: "lastIncludeIndex rf \<le> PrevLogIndex args" "PrevLogIndex args \<le> getLastIndex rf"
    and num: "numbered (PrevLogIndex args) (ae_Entries args)"
  shows "node_ok (stored args ev rf)"
proof -
  let ?rf = "(heard ev rf)\<lparr>log := (log rf)\<lparr>Entries :=
            take (nat (PrevLogIndex args + 1 - lastIncludeIndex rf)) (Entries (log rf)) @ ae_Entries args\<rparr>\<rparr>"
  have "well_indexed ?rf"
    by (rule well_indexed_replace_tail [OF _ p num]) (use ok in \<open>simp_all add: node_ok_def heard_eq\<close>)
  moreover have "sized ?rf" using ok by (simp add: node_ok_def sized_def heard_eq)
  ultimately have *: "node_ok (persist ?rf)" by (rule node_okI_persist)
  show ?thesis unfolding stored_def Let_def by (rule node_ok_persisted_cong [OF *]) simp_all
qed

text \<open>The handler never panics on a well-formed node, and leaves one; \<open>AppendEntries_elim\<close> names the
  four outcomes.\<close>

lemma AppendEntries_elim:
  assumes ok: "node_ok rf"
  obtains (newer) reply where "currentTerm rf < ae_Term args" "\<not> Success reply" "aer_Term reply = currentTerm rf"
      "AppendEntries args ev rf = Some (reply, setNewTerm (ae_Term args) rf, [])"
  | (stale) reply where "ae_Term args < currentTerm rf" "\<not> Success reply" "aer_Term reply = currentTerm rf"
      "AppendEntries args ev rf = Some (reply, rf, [])"
  | (reject) reply where "ae_Term args = currentTerm rf" "\<not> Success reply" "aer_Term reply = currentTerm rf"
      "AppendEntries args ev rf = Some (reply, heard ev rf, [])" "rejection args rf reply"
  | (store) reply acts where "ae_Term args = currentTerm rf" "Success reply" "aer_Term reply = currentTerm rf"
      "lastIncludeIndex rf \<le> PrevLogIndex args" "PrevLogIndex args \<le> getLastIndex rf"
      "restoreLogTerm rf (PrevLogIndex args) = Some (PrevLogTerm args)"
      "AppendEntries args ev rf = Some (reply, stored args ev rf, acts)" "set acts \<subseteq> {ApplyBroadcast}"
proof -
  have wi: "well_indexed rf" using ok by (simp add: node_ok_def)
  consider "currentTerm rf < ae_Term args" | "ae_Term args < currentTerm rf" | "ae_Term args = currentTerm rf" by linarith
  then show ?thesis
  proof cases
    case 1
    then show ?thesis by (intro newer [OF 1 _ _ AppendEntries_newer]) (simp_all add: zeroAppendEntriesReply_def)
  next
    case 2
    then show ?thesis by (intro stale [OF 2 _ _ AppendEntries_stale]) (simp_all add: zeroAppendEntriesReply_def)
  next
    case 3
    show ?thesis
    proof (rule AppendEntries_current [OF wi 3, of ev], goal_cases)
      case (1 reply)
      then show ?case by (intro reject [of reply]) (use 3 in \<open>simp_all add: rejection_def\<close>)
    next
      case (2 reply)
      then show ?case
        by (intro store [of reply "if commitIndex rf < LeaderCommit args then [ApplyBroadcast] else []"])
          (use 3 in \<open>auto simp: zeroAppendEntriesReply_def\<close>)
    qed
  qed
qed

lemma AppendEntries_frame:
  assumes "node_ok rf" and "AppendEntries args ev rf = Some (reply, rf', acts)"
  shows "election_frame rf rf'"
  using assms
  by (cases rule: AppendEntries_elim [OF assms(1), of args ev])
    (auto intro: setNewTerm_frame heard_frame stored_frame)

lemma AppendEntries_node_ok:
  assumes "node_ok rf" and "AppendEntries args ev rf = Some (reply, rf', acts)"
    and "numbered (PrevLogIndex args) (ae_Entries args)"
  shows "node_ok rf'"
  using assms
  by (cases rule: AppendEntries_elim [OF assms(1), of args ev])
    (auto intro: setNewTerm_node_ok heard_node_ok stored_node_ok)

lemma AppendEntries_total: "node_ok rf \<Longrightarrow> AppendEntries args ev rf \<noteq> None"
  by (cases rule: AppendEntries_elim [of rf args ev]) auto

section \<open>The leader's operations keep the node\<close>

lemma appendEntries_keeps:
  assumes "node_ok rf" and "appendEntries hb ev rf = Some (rf', acts)"
  shows "node_ok rf'" "election_frame rf rf'" "state rf' = state rf" "currentTerm rf' = currentTerm rf"
    "votedFor rf' = votedFor rf" "same_log rf rf'" "\<forall>a \<in> set acts. sent_ok rf a"
    "nextIndex rf' = nextIndex rf" "matchIndex rf' = matchIndex rf" "commitIndex rf' = commitIndex rf" "lastApplied rf' = lastApplied rf"
proof -
  have "well_indexed rf" "sized rf" using assms(1) by (simp_all add: node_ok_def)
  then obtain t acts' where "appendEntries hb ev rf = Some (rf\<lparr>electionTime := t\<rparr>, acts')" "\<forall>a \<in> set acts'. sent_ok rf a"
    by (rule appendEntries_spec)
  then have rf': "rf' = rf\<lparr>electionTime := t\<rparr>" and a: "\<forall>a \<in> set acts. sent_ok rf a"
    using assms(2) by simp_all
  show "node_ok rf'" by (rule node_ok_persisted_cong [OF assms(1)]) (simp_all add: rf')
  show "\<forall>a \<in> set acts. sent_ok rf a" by (rule a)
  show "election_frame rf rf'" "state rf' = state rf" "currentTerm rf' = currentTerm rf"
    "votedFor rf' = votedFor rf" "same_log rf rf'" "nextIndex rf' = nextIndex rf" "matchIndex rf' = matchIndex rf"
    "commitIndex rf' = commitIndex rf" "lastApplied rf' = lastApplied rf"
    by (simp_all add: rf' election_frame_def same_log_def)
qed

lemma leaderCommitRule_eq:
  assumes "sized rf"
  shows "leaderCommitRule rf =
    (if state rf = Leader
     then let ks = filter (committable rf) [commitIndex rf + 1..getLastIndex rf]
          in Some (rf\<lparr>commitIndex := last (commitIndex rf # ks)\<rparr>, replicate (length ks) ApplyBroadcast)
     else Some (rf, []))"
  using leaderCommitRule_loop_spec [OF assms] by (simp add: leaderCommitRule_def)

lemma leaderCommitRule_shape:
  assumes "sized rf"
  obtains c acts where "leaderCommitRule rf = Some (rf\<lparr>commitIndex := c\<rparr>, acts)" "set acts \<subseteq> {ApplyBroadcast}"
    "state rf \<noteq> Leader \<Longrightarrow> c = commitIndex rf"
proof (cases "state rf = Leader")
  case True
  let ?ks = "filter (committable rf) [commitIndex rf + 1..getLastIndex rf]"
  show ?thesis
    by (rule that [of "last (commitIndex rf # ?ks)" "replicate (length ?ks) ApplyBroadcast"])
      (use True leaderCommitRule_eq [OF assms] in \<open>auto simp: Let_def\<close>)
next
  case False
  then show ?thesis using that [of "commitIndex rf" "[]"] leaderCommitRule_eq [OF assms] by simp
qed

lemma findLastLogInTerm_total:
  assumes "well_indexed rf"
  obtains r where "findLastLogInTerm rf x = Some r"
  using findLastLogInTerm_loop_spec [OF assms lastIncludeIndex_le_getLastIndex [OF assms], of x]
  by (auto simp: findLastLogInTerm_def)

lemma leaderSendEntries_shape:
  assumes "node_ok rf" and "s < length (peers rf)"
  obtains (newer) "currentTerm rf < aer_Term reply" "leaderSendEntries s args reply rf = Some (setNewTerm (aer_Term reply) rf, [])"
  | (old) "aer_Term reply \<le> currentTerm rf" "ae_Term args \<noteq> currentTerm rf" "leaderSendEntries s args reply rf = Some (rf, [])"
  | (current) n m c acts where "aer_Term reply \<le> currentTerm rf" "ae_Term args = currentTerm rf"
      "leaderSendEntries s args reply rf =
         Some (rf\<lparr>nextIndex := (nextIndex rf)[s := n], matchIndex := (matchIndex rf)[s := m], commitIndex := c\<rparr>, acts)"
      "set acts \<subseteq> {ApplyBroadcast}"
      "m = (if Success reply then max (matchIndex rf ! s) (PrevLogIndex args + int (length (ae_Entries args))) else matchIndex rf ! s)"
      "state rf \<noteq> Leader \<Longrightarrow> c = commitIndex rf"
      "leaderCommitRule (rf\<lparr>nextIndex := (nextIndex rf)[s := n], matchIndex := (matchIndex rf)[s := m]\<rparr>) =
         Some (rf\<lparr>nextIndex := (nextIndex rf)[s := n], matchIndex := (matchIndex rf)[s := m], commitIndex := c\<rparr>, acts)"
proof -
  have wi: "well_indexed rf" and sz: "sized rf" using assms by (simp_all add: node_ok_def)
  have len: "s < length (nextIndex rf)" "s < length (matchIndex rf)" using sz assms(2) by (simp_all add: sized_def)
  obtain f where f: "findLastLogInTerm rf (XTerm reply) = Some f" by (rule findLastLogInTerm_total [OF wi])
  define m where "m = (if Success reply then max (matchIndex rf ! s) (PrevLogIndex args + int (length (ae_Entries args))) else matchIndex rf ! s)"
  define n where "n = (if Success reply then max (nextIndex rf ! s) (PrevLogIndex args + int (length (ae_Entries args)) + 1)
     else if Conflict reply then if XTerm reply = -1 then XLen reply else if f > 0 then f else XIndex reply
     else if nextIndex rf ! s > 1 then nextIndex rf ! s - 1 else nextIndex rf ! s)"
  let ?rf = "rf\<lparr>nextIndex := (nextIndex rf)[s := n], matchIndex := (matchIndex rf)[s := m]\<rparr>"
  have szr: "sized ?rf" using sz by (simp add: sized_def)
  obtain c acts where c: "leaderCommitRule ?rf = Some (?rf\<lparr>commitIndex := c\<rparr>, acts)" "set acts \<subseteq> {ApplyBroadcast}"
    "state ?rf \<noteq> Leader \<Longrightarrow> c = commitIndex ?rf"
    using leaderCommitRule_shape [OF szr] by metis
  have eta: "rf\<lparr>nextIndex := ns\<rparr> = rf\<lparr>nextIndex := ns, matchIndex := matchIndex rf\<rparr>"
    "rf = rf\<lparr>nextIndex := nextIndex rf, matchIndex := matchIndex rf\<rparr>" for ns by simp_all
  consider "currentTerm rf < aer_Term reply" | "aer_Term reply \<le> currentTerm rf" "ae_Term args \<noteq> currentTerm rf"
    | "aer_Term reply \<le> currentTerm rf" "ae_Term args = currentTerm rf" by linarith
  then show ?thesis
  proof cases
    case 1
    then show ?thesis by (intro newer) (simp_all add: leaderSendEntries_def)
  next
    case 2
    then show ?thesis by (intro old) (simp_all add: leaderSendEntries_def)
  next
    case 3
    then have "leaderSendEntries s args reply rf = leaderCommitRule ?rf"
      unfolding leaderSendEntries_def n_def m_def
      by (auto simp: go_simps len f Let_def list_update_id eta [symmetric])
    then show ?thesis using c by (intro current [OF 3 _ c(2) m_def]) simp_all
  qed
qed

lemma leaderSendEntries_keeps:
  assumes "node_ok rf" and "s < length (peers rf)" and "leaderSendEntries s args reply rf = Some (rf', acts)"
  shows "node_ok rf'" "election_frame rf rf'" "same_log rf rf'" "set acts \<subseteq> {ApplyBroadcast}"
proof -
  show "node_ok rf'"
    by (rule leaderSendEntries_shape [OF assms(1,2), of reply args])
      (use assms in \<open>auto intro: setNewTerm_node_ok node_ok_persisted_cong [OF assms(1)]\<close>)
  show "election_frame rf rf'" "same_log rf rf'" "set acts \<subseteq> {ApplyBroadcast}"
    by (rule leaderSendEntries_shape [OF assms(1,2), of reply args];
        use assms in \<open>auto simp: election_frame_def same_log_def setNewTerm_fields\<close>)+
qed

lemma leaderSendEntries_total:
  assumes "node_ok rf" and "s < length (peers rf)"
  shows "leaderSendEntries s args reply rf \<noteq> None"
  by (rule leaderSendEntries_shape [OF assms, of reply args]) simp_all

end
