(* ===== verification/Raft_Election.thy ===== *)
theory Raft_Election
  imports Raft_Replication
begin

text \<open>
  \<open>raft/leader_election.go\<close> and \<open>raft/request_vote.go\<close>: \<open>leaderElection\<close> starts an election,
  \<open>RequestVote\<close> is the voter's handler, \<open>candidateRequestVote\<close> counts a reply. The counter and
  the \<open>sync.Once\<close> of an election are shared by its goroutines; the record \<open>Ballot\<close> is that shared
  memory. How recent a log is, is a linear order on the position of its last entry.
\<close>

section \<open>The voter\<close>

definition RequestVote :: "RequestVoteArgs \<Rightarrow> env \<Rightarrow> Raft \<Rightarrow> (RequestVoteReply \<times> Raft) option" where
  "RequestVote args ev rf = do {
     let rf = (if rv_Term args > currentTerm rf then setNewTerm (rv_Term args) rf else rf);
     if rv_Term args < currentTerm rf
     then Some (\<lparr>rvr_Term = currentTerm rf, VoteGranted = False\<rparr>, rf)
     else do {
       myLastLog \<leftarrow> lastLog (log rf);
       let upToDate = (LastLogTerm args > e_Term myLastLog \<or>
             (LastLogTerm args = e_Term myLastLog \<and> LastLogIndex args \<ge> e_Index myLastLog));
       if (votedFor rf = -1 \<or> votedFor rf = CandidateId args) \<and> upToDate
       then do {
         let rf = rf\<lparr>votedFor := CandidateId args\<rparr>;
         let rf = persist rf;
         let rf = resetElectionTimer ev rf;
         Some (\<lparr>rvr_Term = currentTerm rf, VoteGranted = True\<rparr>, rf) }
       else Some (\<lparr>rvr_Term = currentTerm rf, VoteGranted = False\<rparr>, rf) } }"

section \<open>The candidate\<close>

definition leaderElection :: "env \<Rightarrow> Raft \<Rightarrow> (Raft \<times> action list) option" where
  "leaderElection ev rf = do {
     let rf = rf\<lparr>currentTerm := currentTerm rf + 1\<rparr>;
     let rf = rf\<lparr>state := Candidate\<rparr>;
     let rf = rf\<lparr>votedFor := int (me rf)\<rparr>;
     let rf = persist rf;
     let rf = resetElectionTimer ev rf;
     let term = currentTerm rf;
     lastL \<leftarrow> lastLog (log rf);
     let args = \<lparr>rv_Term = term, CandidateId = int (me rf), LastLogIndex = e_Index lastL, LastLogTerm = e_Term lastL\<rparr>;
     Some (rf, map (\<lambda>serverId. GoRequestVote serverId args)
                   (filter (\<lambda>serverId. serverId \<noteq> me rf) [0..<length (peers rf)])) }"

text \<open>\<open>voteCounter\<close>, which \<open>leaderElection\<close> sets to 1, and whether \<open>becomeLeader\<close> has run.\<close>

record Ballot =
  voteCounter :: int
  onceDone :: bool

definition newBallot :: Ballot where
  "newBallot = \<lparr>voteCounter = 1, onceDone = False\<rparr>"

fun initLeader :: "int \<Rightarrow> nat list \<Rightarrow> Raft \<Rightarrow> Raft option" where
  "initLeader lastLogIndex [] rf = Some rf"
| "initLeader lastLogIndex (i # is) rf = do {
     ns \<leftarrow> go_set (nextIndex rf) (int i) (lastLogIndex + 1);
     ms \<leftarrow> go_set (matchIndex rf) (int i) 0;
     initLeader lastLogIndex is (rf\<lparr>nextIndex := ns, matchIndex := ms\<rparr>) }"

definition becomeLeader :: "env \<Rightarrow> Raft \<Rightarrow> (Raft \<times> action list) option" where
  "becomeLeader ev rf = do {
     let rf = rf\<lparr>state := Leader\<rparr>;
     lastL \<leftarrow> lastLog (log rf);
     let lastLogIndex = e_Index lastL;
     rf \<leftarrow> initLeader lastLogIndex [0..<length (peers rf)] rf;
     ms \<leftarrow> go_set (matchIndex rf) (int (me rf)) lastLogIndex;
     let rf = rf\<lparr>matchIndex := ms\<rparr>;
     appendEntries True ev rf }"

text \<open>\<open>candidateRequestVote\<close> after the RPC returned.\<close>

definition candidateRequestVote ::
  "RequestVoteArgs \<Rightarrow> RequestVoteReply \<Rightarrow> Ballot \<Rightarrow> env \<Rightarrow> Raft \<Rightarrow> (Ballot \<times> Raft \<times> action list) option" where
  "candidateRequestVote args reply b ev rf =
     (if rvr_Term reply > rv_Term args then Some (b, setNewTerm (rvr_Term reply) rf, [])
      else if rvr_Term reply < rv_Term args then Some (b, rf, [])
      else if \<not> VoteGranted reply then Some (b, rf, [])
      else do {
        let b = b\<lparr>voteCounter := voteCounter b + 1\<rparr>;
        if voteCounter b > int (length (peers rf)) div 2 \<and> currentTerm rf = rv_Term args \<and> state rf = Candidate
        then (if onceDone b then Some (b, rf, [])
              else do {
                (rf, acts) \<leftarrow> becomeLeader ev rf;
                Some (b\<lparr>onceDone := True\<rparr>, rf, acts) })
        else Some (b, rf, []) })"

section \<open>How recent a log is\<close>

datatype LogPos = LogPos (lp_term: int) (lp_index: int)

instantiation LogPos :: linorder
begin

definition less_eq_LogPos :: "LogPos \<Rightarrow> LogPos \<Rightarrow> bool" where
  "less_eq_LogPos a b \<longleftrightarrow> lp_term a < lp_term b \<or> lp_term a = lp_term b \<and> lp_index a \<le> lp_index b"

definition less_LogPos :: "LogPos \<Rightarrow> LogPos \<Rightarrow> bool" where
  "less_LogPos a b \<longleftrightarrow> lp_term a < lp_term b \<or> lp_term a = lp_term b \<and> lp_index a < lp_index b"

instance
proof
  fix x y z :: LogPos
  show "(x < y) = (x \<le> y \<and> \<not> y \<le> x)" by (auto simp: less_eq_LogPos_def less_LogPos_def)
  show "x \<le> x" by (simp add: less_eq_LogPos_def)
  show "x \<le> y \<Longrightarrow> y \<le> z \<Longrightarrow> x \<le> z" by (auto simp: less_eq_LogPos_def)
  show "x \<le> y \<Longrightarrow> y \<le> x \<Longrightarrow> x = y" by (cases x; cases y) (auto simp: less_eq_LogPos_def)
  show "x \<le> y \<or> y \<le> x" by (auto simp: less_eq_LogPos_def)
qed

end

text \<open>The position of the last entry as the code reads it: \<open>rf.log.lastLog()\<close>.\<close>

definition lastPos :: "Raft \<Rightarrow> LogPos" where
  "lastPos rf = (case lastLog (log rf) of Some e \<Rightarrow> LogPos (e_Term e) (e_Index e) | None \<Rightarrow> LogPos 0 0)"

definition askedPos :: "RequestVoteArgs \<Rightarrow> LogPos" where
  "askedPos args = LogPos (LastLogTerm args) (LastLogIndex args)"

section \<open>The outcome of a vote request\<close>

definition grants :: "RequestVoteArgs \<Rightarrow> Raft \<Rightarrow> bool" where
  "grants args rf \<longleftrightarrow> currentTerm rf \<le> rv_Term args \<and> lastPos rf \<le> askedPos args \<and>
     (currentTerm rf < rv_Term args \<or> votedFor rf = -1 \<or> votedFor rf = CandidateId args)"

lemma lastLog_Some: "well_indexed rf \<Longrightarrow> \<exists>e. lastLog (log rf) = Some e"
  by (rule well_indexed_last [of rf]) auto

text \<open>The voter after a request: in a newer term it first moves to that term; a granted vote is
  recorded and persisted before the reply, and resets the timer.\<close>

definition joined :: "RequestVoteArgs \<Rightarrow> Raft \<Rightarrow> Raft" where
  "joined args rf = (if rv_Term args > currentTerm rf then setNewTerm (rv_Term args) rf else rf)"

lemma RequestVote_eq:
  assumes "well_indexed rf"
  shows "RequestVote args ev rf =
    (if grants args rf
     then Some (\<lparr>rvr_Term = rv_Term args, VoteGranted = True\<rparr>,
                resetElectionTimer ev (persist ((joined args rf)\<lparr>votedFor := CandidateId args\<rparr>)))
     else Some (\<lparr>rvr_Term = currentTerm (joined args rf), VoteGranted = False\<rparr>, joined args rf))"
proof -
  obtain e where e: "lastLog (log rf) = Some e" using lastLog_Some [OF assms] by blast
  consider "currentTerm rf < rv_Term args" | "rv_Term args < currentTerm rf" | "currentTerm rf = rv_Term args" by linarith
  then show ?thesis
  proof cases
    case 1
    then show ?thesis
      by (auto simp: RequestVote_def joined_def grants_def lastPos_def askedPos_def less_eq_LogPos_def
          setNewTerm_fields e resetElectionTimer_eq Let_def)
  next
    case 2
    then show ?thesis by (simp add: RequestVote_def joined_def grants_def)
  next
    case 3
    then show ?thesis
      by (auto simp: RequestVote_def joined_def grants_def lastPos_def askedPos_def less_eq_LogPos_def
          e resetElectionTimer_eq Let_def)
  qed
qed

lemma joined_node_ok: "node_ok rf \<Longrightarrow> node_ok (joined args rf)"
  by (simp add: joined_def setNewTerm_node_ok)

lemma joined_fields:
  "me (joined args rf) = me rf" "peers (joined args rf) = peers rf" "log (joined args rf) = log rf"
  "lastIncludeIndex (joined args rf) = lastIncludeIndex rf" "lastIncludeTerm (joined args rf) = lastIncludeTerm rf"
  "currentTerm (joined args rf) = max (currentTerm rf) (rv_Term args)"
  "nextIndex (joined args rf) = nextIndex rf" "matchIndex (joined args rf) = matchIndex rf"
  "commitIndex (joined args rf) = commitIndex rf" "lastApplied (joined args rf) = lastApplied rf"
  by (auto simp: joined_def setNewTerm_fields)

lemma joined_frame: "election_frame rf (joined args rf)"
  by (simp add: joined_def setNewTerm_frame)

lemma RequestVote_keeps:
  assumes "node_ok rf" and "RequestVote args ev rf = Some (reply, rf')"
  shows "node_ok rf'" "same_log rf rf'" "me rf' = me rf" "peers rf' = peers rf"
proof -
  have wi: "well_indexed rf" using assms(1) by (simp add: node_ok_def)
  let ?v = "(joined args rf)\<lparr>votedFor := CandidateId args\<rparr>"
  have "node_ok (persist ?v)"
    by (rule node_okI_persist) (use joined_node_ok [OF assms(1), of args] in \<open>simp_all add: node_ok_def well_indexed_def sized_def\<close>)
  then have "node_ok (resetElectionTimer ev (persist ?v))"
    by (rule node_ok_persisted_cong) (simp_all add: resetElectionTimer_eq)
  then show "node_ok rf'" using assms(2) joined_node_ok [OF assms(1)] by (auto simp: RequestVote_eq [OF wi] split: if_splits)
  show "same_log rf rf'" "me rf' = me rf" "peers rf' = peers rf"
    using assms(2) by (auto simp: RequestVote_eq [OF wi] same_log_def joined_fields resetElectionTimer_eq split: if_splits)
qed

lemma RequestVote_total: "node_ok rf \<Longrightarrow> RequestVote args ev rf \<noteq> None"
  by (simp add: RequestVote_eq node_ok_def)

section \<open>The outcome of starting an election\<close>

lemma leaderElection_eq:
  assumes "well_indexed rf"
  obtains e t where "lastLog (log rf) = Some e"
    "leaderElection ev rf = Some ((persist (rf\<lparr>currentTerm := currentTerm rf + 1, state := Candidate, votedFor := int (me rf)\<rparr>))\<lparr>electionTime := t\<rparr>,
       map (\<lambda>s. GoRequestVote s \<lparr>rv_Term = currentTerm rf + 1, CandidateId = int (me rf), LastLogIndex = e_Index e, LastLogTerm = e_Term e\<rparr>)
           (filter (\<lambda>s. s \<noteq> me rf) [0..<length (peers rf)]))"
proof -
  obtain e where e: "lastLog (log rf) = Some e" using lastLog_Some [OF assms] by blast
  then show ?thesis by (intro that [OF e]) (simp add: leaderElection_def resetElectionTimer_eq Let_def)
qed

lemma leaderElection_keeps:
  assumes "node_ok rf" and "leaderElection ev rf = Some (rf', acts)"
  shows "node_ok rf'" "same_log rf rf'" "me rf' = me rf" "peers rf' = peers rf" "state rf' = Candidate"
    "currentTerm rf' = currentTerm rf + 1" "votedFor rf' = int (me rf)" "commitIndex rf' = commitIndex rf"
    "lastApplied rf' = lastApplied rf"
proof -
  have wi: "well_indexed rf" using assms(1) by (simp add: node_ok_def)
  obtain e t acts' where "leaderElection ev rf = Some ((persist (rf\<lparr>currentTerm := currentTerm rf + 1, state := Candidate, votedFor := int (me rf)\<rparr>))\<lparr>electionTime := t\<rparr>, acts')"
    by (rule leaderElection_eq [OF wi, of ev]) blast
  then have rf': "rf' = (persist (rf\<lparr>currentTerm := currentTerm rf + 1, state := Candidate, votedFor := int (me rf)\<rparr>))\<lparr>electionTime := t\<rparr>"
    using assms(2) by simp
  have "node_ok (persist (rf\<lparr>currentTerm := currentTerm rf + 1, state := Candidate, votedFor := int (me rf)\<rparr>))"
    by (rule node_okI_persist) (use assms(1) in \<open>simp_all add: node_ok_def well_indexed_def sized_def\<close>)
  then show "node_ok rf'" unfolding rf' by (rule node_ok_persisted_cong) simp_all
  show "same_log rf rf'" "me rf' = me rf" "peers rf' = peers rf" "state rf' = Candidate"
    "currentTerm rf' = currentTerm rf + 1" "votedFor rf' = int (me rf)" "commitIndex rf' = commitIndex rf"
    "lastApplied rf' = lastApplied rf"
    by (simp_all add: rf' same_log_def)
qed

section \<open>The outcome of counting a vote\<close>

lemma initLeader_eq:
  assumes "set is \<subseteq> {..<length (nextIndex rf)}" and "length (matchIndex rf) = length (nextIndex rf)"
  shows "initLeader l is rf = Some (rf\<lparr>nextIndex := fold (\<lambda>i ns. ns[i := l + 1]) is (nextIndex rf),
                                       matchIndex := fold (\<lambda>i ms. ms[i := 0]) is (matchIndex rf)\<rparr>)"
  using assms by (induction "is" arbitrary: rf) (auto simp: go_simps)

lemma fold_update_all: "length xs = n \<Longrightarrow> fold (\<lambda>i ns. ns[i := v]) [0..<n] xs = replicate n v"
proof -
  have "fold (\<lambda>i ns. ns[i := v]) [0..<k] xs = replicate k v @ drop k xs" if "k \<le> length xs" for k
    using that
  proof (induction k)
    case (Suc k)
    then show ?case
      by (simp add: list_update_append Cons_nth_drop_Suc [symmetric] replicate_append_same)
  qed simp
  then show "length xs = n \<Longrightarrow> fold (\<lambda>i ns. ns[i := v]) [0..<n] xs = replicate n v" by simp
qed

text \<open>The node as a fresh leader, before its first heartbeat.\<close>

definition freshLeader :: "int \<Rightarrow> Raft \<Rightarrow> Raft" where
  "freshLeader l rf = rf\<lparr>state := Leader, nextIndex := replicate (length (peers rf)) (l + 1),
     matchIndex := (replicate (length (peers rf)) 0)[me rf := l]\<rparr>"

lemma becomeLeader_eq:
  assumes "sized rf" and "lastLog (log rf) = Some e"
  shows "becomeLeader ev rf = appendEntries True ev (freshLeader (e_Index e) rf)"
proof -
  have "initLeader (e_Index e) [0..<length (peers rf)] (rf\<lparr>state := Leader\<rparr>) =
      Some (rf\<lparr>state := Leader, nextIndex := replicate (length (peers rf)) (e_Index e + 1),
               matchIndex := replicate (length (peers rf)) 0\<rparr>)"
    using assms(1) by (subst initLeader_eq) (auto simp: sized_def fold_update_all)
  then show ?thesis using assms by (simp add: becomeLeader_def go_simps sized_def freshLeader_def Let_def)
qed

lemma freshLeader_node_ok: "node_ok rf \<Longrightarrow> node_ok (freshLeader l rf)"
  by (rule node_ok_persisted_cong) (simp_all add: freshLeader_def node_ok_def sized_def)

lemma becomeLeader_keeps:
  assumes "node_ok rf" and "becomeLeader ev rf = Some (rf', acts)"
  shows "node_ok rf'" "same_log rf rf'" "me rf' = me rf" "peers rf' = peers rf" "state rf' = Leader"
    "currentTerm rf' = currentTerm rf" "votedFor rf' = votedFor rf" "commitIndex rf' = commitIndex rf"
    "lastApplied rf' = lastApplied rf"
    "\<exists>l. \<forall>a \<in> set acts. sent_ok (freshLeader l rf) a"
proof -
  have wi: "well_indexed rf" "sized rf" using assms(1) by (simp_all add: node_ok_def)
  obtain e where "lastLog (log rf) = Some e" using lastLog_Some [OF wi(1)] by blast
  then have ae: "appendEntries True ev (freshLeader (e_Index e) rf) = Some (rf', acts)"
    using assms(2) becomeLeader_eq [OF wi(2)] by simp
  note k = appendEntries_keeps [OF freshLeader_node_ok [OF assms(1)] ae]
  show "node_ok rf'" by (rule k)
  show "\<exists>l. \<forall>a \<in> set acts. sent_ok (freshLeader l rf) a" using k(7) by blast
  show "same_log rf rf'" "me rf' = me rf" "peers rf' = peers rf" "state rf' = Leader"
    "currentTerm rf' = currentTerm rf" "votedFor rf' = votedFor rf" "commitIndex rf' = commitIndex rf"
    "lastApplied rf' = lastApplied rf"
    using k by (simp_all add: freshLeader_def same_log_def election_frame_def)
qed

lemma becomeLeader_total:
  assumes "node_ok rf"
  shows "becomeLeader ev rf \<noteq> None"
proof -
  have wi: "well_indexed rf" "sized rf" using assms(1) by (simp_all add: node_ok_def)
  obtain e where e: "lastLog (log rf) = Some e" using lastLog_Some [OF wi(1)] by blast
  have "node_ok (freshLeader (e_Index e) rf)" using assms by (rule freshLeader_node_ok)
  then have "well_indexed (freshLeader (e_Index e) rf)" "sized (freshLeader (e_Index e) rf)" by (simp_all add: node_ok_def)
  then obtain t acts where "appendEntries True ev (freshLeader (e_Index e) rf) = Some ((freshLeader (e_Index e) rf)\<lparr>electionTime := t\<rparr>, acts)"
    by (rule appendEntries_spec)
  then show ?thesis using becomeLeader_eq [OF wi(2) e] by simp
qed

text \<open>A vote wins when it lifts the counter above half while the candidacy is still current.\<close>

definition wins :: "RequestVoteArgs \<Rightarrow> RequestVoteReply \<Rightarrow> Ballot \<Rightarrow> Raft \<Rightarrow> bool" where
  "wins args reply b rf \<longleftrightarrow> rvr_Term reply = rv_Term args \<and> VoteGranted reply \<and> \<not> onceDone b \<and>
     int (length (peers rf)) div 2 < voteCounter b + 1 \<and> currentTerm rf = rv_Term args \<and> state rf = Candidate"

lemma candidateRequestVote_elim:
  assumes "candidateRequestVote args reply b ev rf = Some (b', rf', acts)"
  obtains (newer) "rv_Term args < rvr_Term reply" "b' = b" "rf' = setNewTerm (rvr_Term reply) rf" "acts = []"
  | (refused) "rvr_Term reply < rv_Term args \<or> rvr_Term reply = rv_Term args \<and> \<not> VoteGranted reply" "b' = b" "rf' = rf" "acts = []"
  | (counted) "rvr_Term reply = rv_Term args" "VoteGranted reply" "\<not> wins args reply b rf"
      "b' = b\<lparr>voteCounter := voteCounter b + 1\<rparr>" "rf' = rf" "acts = []"
  | (elected) "wins args reply b rf" "b' = b\<lparr>voteCounter := voteCounter b + 1, onceDone := True\<rparr>"
      "becomeLeader ev rf = Some (rf', acts)"
proof -
  note crv = assms [unfolded candidateRequestVote_def Let_def]
  consider "rv_Term args < rvr_Term reply"
    | "rvr_Term reply < rv_Term args \<or> rvr_Term reply = rv_Term args \<and> \<not> VoteGranted reply"
    | "rvr_Term reply = rv_Term args" "VoteGranted reply" "wins args reply b rf"
    | "rvr_Term reply = rv_Term args" "VoteGranted reply" "\<not> wins args reply b rf"
    by linarith
  then show ?thesis
  proof cases
    case 1
    then show ?thesis using crv by (intro newer) simp_all
  next
    case 2
    then show ?thesis using crv by (intro refused) auto
  next
    case 3
    then obtain rf1 a1 where "becomeLeader ev rf = Some (rf1, a1)"
      using crv by (cases "becomeLeader ev rf") (auto simp: wins_def)
    then show ?thesis using 3 crv by (intro elected) (simp_all add: wins_def)
  next
    case 4
    then show ?thesis using crv by (intro counted) (auto simp: wins_def split: if_splits)
  qed
qed

lemma candidateRequestVote_total: "node_ok rf \<Longrightarrow> candidateRequestVote args reply b ev rf \<noteq> None"
  using becomeLeader_total [of rf ev] by (auto simp: candidateRequestVote_def Let_def)

lemma setNewTerm_cases:
  assumes "0 < t"
  obtains "currentTerm rf < t" "setNewTerm t rf = persist (rf\<lparr>state := Follower, currentTerm := t, votedFor := -1\<rparr>)"
  | "t \<le> currentTerm rf" "setNewTerm t rf = rf"
  using assms by (cases "currentTerm rf < t") (auto simp: setNewTerm_def)

end
