(* ===== verification/Raft_Snapshot.thy ===== *)
theory Raft_Snapshot
  imports Raft_Election
begin

text \<open>
  Log compaction in \<open>raft/raft.go\<close>: \<open>Snapshot\<close> (the service has a snapshot up to an index),
  \<open>leaderSendSnapShot\<close> (the two critical sections around the RPC), \<open>InstallSnapShot\<close> (the
  follower's handler) and \<open>CondInstallSnapshot\<close>. The abstract view of a log is the partial map from
  indices to entries; compaction restricts it, storing a request replaces its tail.
\<close>

section \<open>The operations\<close>

text \<open>\<open>tempLog\<close>: a pad, then the entries after \<open>index\<close>. Both operations build it with this loop.\<close>

definition tempLog :: "Raft \<Rightarrow> int \<Rightarrow> Log option" where
  "tempLog rf index = do {
     es \<leftarrow> go_collect (restoreLog rf) (index + 1) (getLastIndex rf);
     Some \<lparr>Entries = zeroEntry # es, Index0 = 0\<rparr> }"

definition CondInstallSnapshot :: "int \<Rightarrow> int \<Rightarrow> bytes \<Rightarrow> bool" where
  "CondInstallSnapshot lastIncludedTerm lastIncludedIndex snap = True"

definition Snapshot :: "int \<Rightarrow> bytes \<Rightarrow> Raft \<Rightarrow> Raft option" where
  "Snapshot index snap rf =
     (if killed rf then Some rf
      else if lastIncludeIndex rf \<ge> index \<or> index > commitIndex rf then Some rf
      else do {
        temp \<leftarrow> tempLog rf index;
        t \<leftarrow> (if index = getLastIndex rf + 1 then getLastTerm rf else restoreLogTerm rf index);
        let rf = rf\<lparr>lastIncludeTerm := t\<rparr>;
        let rf = rf\<lparr>lastIncludeIndex := index, log := temp\<rparr>;
        let rf = (if index > commitIndex rf then rf\<lparr>commitIndex := index\<rparr> else rf);
        let rf = (if index > lastApplied rf then rf\<lparr>lastApplied := index\<rparr> else rf);
        Some (rf\<lparr>persister := SaveStateAndSnapshot (persistData rf) snap (persister rf)\<rparr>) })"

definition leaderSendSnapShot_args :: "Raft \<Rightarrow> InstallSnapshotArgs" where
  "leaderSendSnapShot_args rf =
     \<lparr>is_Term = currentTerm rf, is_LeaderId = int (me rf), LastIncludeIndex = lastIncludeIndex rf,
      LastIncludeTerm = lastIncludeTerm rf, Data = ReadSnapshot (persister rf)\<rparr>"

text \<open>After a successful RPC.\<close>

definition leaderSendSnapShot_reply :: "nat \<Rightarrow> InstallSnapshotArgs \<Rightarrow> InstallSnapshotReply \<Rightarrow> env \<Rightarrow> Raft \<Rightarrow> Raft option" where
  "leaderSendSnapShot_reply server args reply ev rf =
     (if state rf \<noteq> Leader \<or> currentTerm rf \<noteq> is_Term args then Some rf
      else if isr_Term reply > currentTerm rf
      then (let rf = rf\<lparr>state := Follower, votedFor := -1, voteNum := 0\<rparr>;
                rf = persist rf
            in Some (rf\<lparr>votedTimer := now ev\<rparr>))
      else do {
        ms \<leftarrow> go_set (matchIndex rf) (int server) (LastIncludeIndex args);
        ns \<leftarrow> go_set (nextIndex rf) (int server) (LastIncludeIndex args + 1);
        Some (rf\<lparr>matchIndex := ms, nextIndex := ns\<rparr>) })"

text \<open>The third component is the message the handler sends on \<open>applyCh\<close> after it has unlocked.\<close>

definition InstallSnapShot ::
  "InstallSnapshotArgs \<Rightarrow> env \<Rightarrow> Raft \<Rightarrow> (InstallSnapshotReply \<times> Raft \<times> ApplyMsg option) option" where
  "InstallSnapShot args ev rf =
     (if currentTerm rf > is_Term args then Some (\<lparr>isr_Term = currentTerm rf\<rparr>, rf, None)
      else do {
        let rf = rf\<lparr>currentTerm := is_Term args\<rparr>;
        let reply = \<lparr>isr_Term = is_Term args\<rparr>;
        let rf = rf\<lparr>state := Follower, votedFor := -1, voteNum := 0\<rparr>;
        let rf = persist rf;
        let rf = rf\<lparr>votedTimer := now ev\<rparr>;
        if lastIncludeIndex rf \<ge> LastIncludeIndex args then Some (reply, rf, None)
        else do {
          let index = LastIncludeIndex args;
          temp \<leftarrow> tempLog rf index;
          let rf = rf\<lparr>lastIncludeTerm := LastIncludeTerm args, lastIncludeIndex := LastIncludeIndex args\<rparr>;
          let rf = rf\<lparr>log := temp\<rparr>;
          let rf = (if index > commitIndex rf then rf\<lparr>commitIndex := index\<rparr> else rf);
          let rf = (if index > lastApplied rf then rf\<lparr>lastApplied := index\<rparr> else rf);
          let rf = rf\<lparr>persister := SaveStateAndSnapshot (persistData rf) (Data args) (persister rf)\<rparr>;
          let msg = \<lparr>CommandValid = False, am_Command = INil, CommandIndex = 0, SnapshotValid = True,
                     am_Snapshot = Data args, SnapshotTerm = lastIncludeTerm rf, SnapshotIndex = lastIncludeIndex rf\<rparr>;
          Some (reply, rf, Some msg) } })"

section \<open>The log as a map from indices to entries\<close>

definition logmap :: "Raft \<Rightarrow> int \<Rightarrow> Entry option" where
  "logmap rf i = (if lastIncludeIndex rf < i then restoreLog rf i else None)"

lemma logmap_dom: "well_indexed rf \<Longrightarrow> dom (logmap rf) = {lastIncludeIndex rf<..getLastIndex rf}"
  by (auto simp: logmap_def restoreLog_def log_at_def go_nth_def getLastIndex_def log_len_def split: if_splits)

lemma logmap_index:
  assumes "well_indexed rf" and "logmap rf i = Some e"
  shows "e_Index e = i"
proof -
  have i: "lastIncludeIndex rf < i" "i \<le> getLastIndex rf" using logmap_dom [OF assms(1)] assms(2) by auto
  then have "nat (i - lastIncludeIndex rf) \<in> {1..<length (Entries (log rf))}"
    by (auto simp: getLastIndex_def log_len_def)
  then have "e_Index (Entries (log rf) ! nat (i - lastIncludeIndex rf)) = i"
    using assms(1) i unfolding well_indexed_def by simp
  then show ?thesis using assms i by (simp add: logmap_def restoreLog_in)
qed

lemma tempLog_eq:
  assumes "well_indexed rf" and "lastIncludeIndex rf \<le> index"
  shows "tempLog rf index = Some \<lparr>Entries = zeroEntry # drop (nat (index + 1 - lastIncludeIndex rf)) (Entries (log rf)), Index0 = 0\<rparr>"
proof -
  let ?c = "lastIncludeIndex rf" and ?es = "Entries (log rf)"
  have "go_collect (restoreLog rf) (index + 1) (getLastIndex rf) = Some (map (\<lambda>i. ?es ! nat (i - ?c)) [index + 1..getLastIndex rf])"
    by (rule go_collect_Some) (use assms in \<open>simp add: restoreLog_in\<close>)
  also have "map (\<lambda>i. ?es ! nat (i - ?c)) [index + 1..getLastIndex rf] = drop (nat (index + 1 - ?c)) ?es"
    using map_nth_upto_drop [of "index + 1 - ?c" ?es ?c] assms(2)
    by (simp add: getLastIndex_def log_len_def algebra_simps)
  finally show ?thesis by (simp add: tempLog_def)
qed

text \<open>A node whose log starts after \<open>index\<close>, where \<open>index\<close> is at least the old snapshot point.\<close>

lemma cut_well_indexed:
  assumes wi: "well_indexed rf" and i: "lastIncludeIndex rf \<le> index"
    and log: "Entries (log rf') = zeroEntry # drop (nat (index + 1 - lastIncludeIndex rf)) (Entries (log rf))"
    and lii: "lastIncludeIndex rf' = index"
  shows "well_indexed rf'" "logmap rf' = logmap rf |` {index<..}" "getLastIndex rf' = max index (getLastIndex rf)"
proof -
  let ?d = "nat (index + 1 - lastIncludeIndex rf)" and ?es = "Entries (log rf)"
  have nn: "0 \<le> lastIncludeIndex rf" using wi by (simp add: well_indexed_def)
  have "e_Index (Entries (log rf') ! k) = index + int k" if k: "k \<in> {1..<length (Entries (log rf'))}" for k
  proof -
    have "k - 1 + ?d \<in> {1..<length ?es}" using k i by (auto simp: log)
    then have "e_Index (?es ! (k - 1 + ?d)) = lastIncludeIndex rf + int (k - 1 + ?d)"
      using wi unfolding well_indexed_def by blast
    moreover have "Entries (log rf') ! k = ?es ! (k - 1 + ?d)"
    proof -
      obtain m where "k = Suc m" using k by (cases k) auto
      moreover have "?d \<le> length ?es" using k by (auto simp: log)
      ultimately show ?thesis by (simp add: log add.commute)
    qed
    ultimately show ?thesis using k i by (simp add: of_nat_diff)
  qed
  then show "well_indexed rf'" using i nn by (simp add: well_indexed_def lii log zeroEntry_def)
  show "getLastIndex rf' = max index (getLastIndex rf)"
    using i by (auto simp: getLastIndex_def log_len_def log lii max_def)
  show "logmap rf' = logmap rf |` {index<..}"
  proof
    fix j
    have *: "nat (j - index) = Suc (nat (j - index - 1))" "?d + nat (j - index - 1) = nat (j - lastIncludeIndex rf)" if "index < j"
      using that i by simp_all
    show "logmap rf' j = (logmap rf |` {index<..}) j"
    proof (cases "index < j")
      case True
      have "Entries (log rf') ! nat (j - index) = ?es ! nat (j - lastIncludeIndex rf)" if "nat (j - lastIncludeIndex rf) < length ?es"
        using that * [OF True] by (simp add: log)
      moreover have "(j - index < int (length (Entries (log rf')))) = (j - lastIncludeIndex rf < int (length ?es))"
        using True i by (auto simp: log)
      ultimately show ?thesis using True i
        by (auto simp: logmap_def restoreLog_def log_at_def go_nth_def lii restrict_map_def)
    next
      case False
      then show ?thesis by (simp add: logmap_def lii restrict_map_def)
    qed
  qed
qed

text \<open>Storing a request replaces the tail of the map.\<close>

lemma stored_logmap:
  assumes wi: "well_indexed rf" and p: "lastIncludeIndex rf \<le> PrevLogIndex args" "PrevLogIndex args \<le> getLastIndex rf"
  shows "logmap (stored args ev rf) i =
    (if i \<le> PrevLogIndex args then logmap rf i
     else if i \<le> PrevLogIndex args + int (length (ae_Entries args)) then Some (ae_Entries args ! nat (i - PrevLogIndex args - 1))
     else None)"
proof -
  let ?c = "nat (PrevLogIndex args + 1 - lastIncludeIndex rf)" and ?es = "Entries (log rf)"
  have c: "?c \<le> length ?es" using p by (auto simp: getLastIndex_def log_len_def)
  show ?thesis
  proof (cases "lastIncludeIndex rf < i")
    case False
    then show ?thesis using p by (simp add: logmap_def stored_fields)
  next
    case True
    have "i \<le> PrevLogIndex args \<longleftrightarrow> nat (i - lastIncludeIndex rf) < ?c" using True by auto
    moreover have "nat (i - lastIncludeIndex rf) - ?c = nat (i - PrevLogIndex args - 1)" using p(1) by simp
    moreover have "i - lastIncludeIndex rf < int (?c + length (ae_Entries args)) \<longleftrightarrow> i \<le> PrevLogIndex args + int (length (ae_Entries args))"
      using p(1) by auto
    ultimately show ?thesis using True c p
      by (auto simp: logmap_def restoreLog_def log_at_def go_nth_def stored_fields nth_append)
  qed
qed

section \<open>Taking a snapshot\<close>

text \<open>The node \<open>Snapshot\<close> leaves when it compacts.\<close>

definition compacted :: "int \<Rightarrow> int \<Rightarrow> bytes \<Rightarrow> Raft \<Rightarrow> Raft" where
  "compacted index t snap rf =
     (let rf1 = rf\<lparr>lastIncludeTerm := t, lastIncludeIndex := index,
            log := \<lparr>Entries = zeroEntry # drop (nat (index + 1 - lastIncludeIndex rf)) (Entries (log rf)), Index0 = 0\<rparr>,
            commitIndex := max index (commitIndex rf), lastApplied := max index (lastApplied rf)\<rparr>
      in rf1\<lparr>persister := SaveStateAndSnapshot (persistData rf1) snap (persister rf1)\<rparr>)"

lemma compacted_node_ok:
  assumes "node_ok rf" and "lastIncludeIndex rf \<le> index"
  shows "node_ok (compacted index t snap rf)"
proof -
  have "well_indexed (compacted index t snap rf)"
    by (rule cut_well_indexed [of rf index]) (use assms in \<open>simp_all add: node_ok_def compacted_def Let_def\<close>)
  then show ?thesis using assms by (simp add: node_ok_def compacted_def sized_def saved_def persistData_eq Let_def)
qed

lemma compacted_log:
  assumes "node_ok rf" and "lastIncludeIndex rf \<le> index"
  shows "logmap (compacted index t snap rf) = logmap rf |` {index<..}"
    "getLastIndex (compacted index t snap rf) = max index (getLastIndex rf)"
  by (rule cut_well_indexed [of rf index]; use assms in \<open>simp add: node_ok_def compacted_def Let_def\<close>)+

lemma compacted_fields:
  "me (compacted index t snap rf) = me rf" "peers (compacted index t snap rf) = peers rf"
  "currentTerm (compacted index t snap rf) = currentTerm rf" "votedFor (compacted index t snap rf) = votedFor rf"
  "state (compacted index t snap rf) = state rf" "lastIncludeIndex (compacted index t snap rf) = index"
  "lastIncludeTerm (compacted index t snap rf) = t" "ReadSnapshot (persister (compacted index t snap rf)) = snap"
  by (simp_all add: compacted_def Let_def)

lemma Snapshot_skip:
  "killed rf \<or> index \<le> lastIncludeIndex rf \<or> commitIndex rf < index \<Longrightarrow> Snapshot index snap rf = Some rf"
  by (auto simp: Snapshot_def)

lemma getLastTerm_total: "well_indexed rf \<Longrightarrow> \<exists>t. getLastTerm rf = Some t"
  by (cases "Entries (log rf)") (auto simp: getLastTerm_def log_len_def log_at_def go_nth_def well_indexed_def)

text \<open>It panics exactly when the index lies more than one past the end of the log.\<close>

lemma Snapshot_compacts:
  assumes ok: "node_ok rf" and g: "\<not> killed rf" "lastIncludeIndex rf < index" "index \<le> commitIndex rf"
  shows "Snapshot index snap rf =
    (if getLastIndex rf + 1 < index then None
     else map_option (\<lambda>t. compacted index t snap rf)
            (if index = getLastIndex rf + 1 then getLastTerm rf else restoreLogTerm rf index))"
proof -
  have wi: "well_indexed rf" using ok by (simp add: node_ok_def)
  have tl: "tempLog rf index = Some \<lparr>Entries = zeroEntry # drop (nat (index + 1 - lastIncludeIndex rf)) (Entries (log rf)), Index0 = 0\<rparr>"
    using tempLog_eq [OF wi] g by simp
  have none: "getLastIndex rf + 1 < index \<Longrightarrow> restoreLogTerm rf index = None"
    using restoreLogTerm_eq_None [OF wi] by simp
  have c: "max index (commitIndex rf) = commitIndex rf" using g by simp
  show ?thesis
    using g none
    by (cases "if index = getLastIndex rf + 1 then getLastTerm rf else restoreLogTerm rf index")
      (auto simp: Snapshot_def tl compacted_def c Let_def max_def persistData_eq split: if_splits)
qed

lemma Snapshot_None:
  assumes "node_ok rf"
  shows "Snapshot index snap rf = None \<longleftrightarrow>
    \<not> killed rf \<and> lastIncludeIndex rf < index \<and> index \<le> commitIndex rf \<and> getLastIndex rf + 1 < index"
proof (cases "killed rf \<or> index \<le> lastIncludeIndex rf \<or> commitIndex rf < index")
  case True
  then show ?thesis using Snapshot_skip [OF True] by auto
next
  case False
  then have g: "\<not> killed rf" "lastIncludeIndex rf < index" "index \<le> commitIndex rf" by auto
  have wi: "well_indexed rf" using assms by (simp add: node_ok_def)
  have "restoreLogTerm rf index \<noteq> None" if "index \<le> getLastIndex rf"
    using restoreLogTerm_eq_None [OF wi, of index] g(2) that by simp
  then show ?thesis using Snapshot_compacts [OF assms g, of snap] getLastTerm_total [OF wi] g by (auto split: if_split_asm)
qed

lemma Snapshot_elim:
  assumes "node_ok rf" and "Snapshot index snap rf = Some rf'"
  obtains (skip) "rf' = rf" | (compact) t where "rf' = compacted index t snap rf" "lastIncludeIndex rf < index" "index \<le> commitIndex rf"
proof (cases "killed rf \<or> index \<le> lastIncludeIndex rf \<or> commitIndex rf < index")
  case True
  then show ?thesis using Snapshot_skip [OF True] assms(2) skip by simp
next
  case False
  then have g: "\<not> killed rf" "lastIncludeIndex rf < index" "index \<le> commitIndex rf" by auto
  let ?o = "if index = getLastIndex rf + 1 then getLastTerm rf else restoreLogTerm rf index"
  have *: "(if getLastIndex rf + 1 < index then None else map_option (\<lambda>t. compacted index t snap rf) ?o) = Some rf'"
    using Snapshot_compacts [OF assms(1) g] assms(2) by simp
  obtain t where "rf' = compacted index t snap rf"
    using * by (cases ?o) (auto split: if_split_asm)
  then show ?thesis using compact g by simp
qed

lemma Snapshot_keeps:
  assumes "node_ok rf" and "Snapshot index snap rf = Some rf'"
  shows "node_ok rf'" "election_frame rf rf'" "state rf' = state rf" "currentTerm rf' = currentTerm rf" "votedFor rf' = votedFor rf"
    "me rf' = me rf" "peers rf' = peers rf"
proof -
  consider "rf' = rf" | t where "rf' = compacted index t snap rf" "lastIncludeIndex rf \<le> index"
    by (rule Snapshot_elim [OF assms]) auto
  then show "node_ok rf'" "election_frame rf rf'" "state rf' = state rf" "currentTerm rf' = currentTerm rf" "votedFor rf' = votedFor rf"
    "me rf' = me rf" "peers rf' = peers rf"
    by (cases; use assms(1) compacted_node_ok in \<open>auto simp: compacted_fields election_frame_def\<close>)+
qed

section \<open>Installing a snapshot\<close>

text \<open>The node after the term and role update at the head of the handler.\<close>

definition demoted :: "InstallSnapshotArgs \<Rightarrow> env \<Rightarrow> Raft \<Rightarrow> Raft" where
  "demoted args ev rf =
     (persist (rf\<lparr>currentTerm := is_Term args, state := Follower, votedFor := -1, voteNum := 0\<rparr>))\<lparr>votedTimer := now ev\<rparr>"

lemma demoted_node_ok:
  assumes "node_ok rf"
  shows "node_ok (demoted args ev rf)"
proof -
  have p: "node_ok (persist (rf\<lparr>currentTerm := is_Term args, state := Follower, votedFor := -1, voteNum := 0\<rparr>))"
    by (rule node_okI_persist) (use assms in \<open>simp_all add: node_ok_def well_indexed_def sized_def\<close>)
  show ?thesis unfolding demoted_def by (rule node_ok_persisted_cong [OF p]) simp_all
qed

lemma demoted_fields:
  "log (demoted args ev rf) = log rf" "lastIncludeIndex (demoted args ev rf) = lastIncludeIndex rf"
  "getLastIndex (demoted args ev rf) = getLastIndex rf" "logmap (demoted args ev rf) = logmap rf"
  "me (demoted args ev rf) = me rf" "peers (demoted args ev rf) = peers rf" "state (demoted args ev rf) = Follower"
  "currentTerm (demoted args ev rf) = is_Term args" "votedFor (demoted args ev rf) = -1"
  "commitIndex (demoted args ev rf) = commitIndex rf" "lastApplied (demoted args ev rf) = lastApplied rf"
  "nextIndex (demoted args ev rf) = nextIndex rf" "matchIndex (demoted args ev rf) = matchIndex rf"
  by (simp_all add: demoted_def getLastIndex_def logmap_def restoreLog_def fun_eq_iff)

lemma InstallSnapShot_eq:
  assumes "node_ok rf"
  shows "InstallSnapShot args ev rf =
    (if is_Term args < currentTerm rf then Some (\<lparr>isr_Term = currentTerm rf\<rparr>, rf, None)
     else if LastIncludeIndex args \<le> lastIncludeIndex rf then Some (\<lparr>isr_Term = is_Term args\<rparr>, demoted args ev rf, None)
     else Some (\<lparr>isr_Term = is_Term args\<rparr>,
       compacted (LastIncludeIndex args) (LastIncludeTerm args) (Data args) (demoted args ev rf),
       Some \<lparr>CommandValid = False, am_Command = INil, CommandIndex = 0, SnapshotValid = True,
             am_Snapshot = Data args, SnapshotTerm = LastIncludeTerm args, SnapshotIndex = LastIncludeIndex args\<rparr>))"
proof -
  let ?rf = "demoted args ev rf"
  have fold: "(persist (rf\<lparr>currentTerm := is_Term args, state := Follower, votedFor := -1, voteNum := 0\<rparr>))\<lparr>votedTimer := now ev\<rparr> = ?rf"
    by (simp add: demoted_def)
  have wi: "well_indexed ?rf" using demoted_node_ok [OF assms] by (simp add: node_ok_def)
  show ?thesis
  proof (cases "is_Term args < currentTerm rf \<or> LastIncludeIndex args \<le> lastIncludeIndex rf")
    case True
    then show ?thesis by (auto simp: InstallSnapShot_def fold Let_def demoted_fields)
  next
    case False
    then have "tempLog ?rf (LastIncludeIndex args) =
        Some \<lparr>Entries = zeroEntry # drop (nat (LastIncludeIndex args + 1 - lastIncludeIndex ?rf)) (Entries (log ?rf)), Index0 = 0\<rparr>"
      using tempLog_eq [OF wi] by (simp add: demoted_fields)
    then show ?thesis using False
      by (simp add: InstallSnapShot_def fold Let_def demoted_fields compacted_def max_def persistData_eq)
  qed
qed

lemma InstallSnapShot_elim:
  assumes "node_ok rf" and "InstallSnapShot args ev rf = Some (reply, rf', msg)"
  obtains (stale) "is_Term args < currentTerm rf" "rf' = rf" "msg = None"
  | (covered) "currentTerm rf \<le> is_Term args" "LastIncludeIndex args \<le> lastIncludeIndex rf" "rf' = demoted args ev rf" "msg = None"
  | (installed) "currentTerm rf \<le> is_Term args" "lastIncludeIndex rf < LastIncludeIndex args"
      "rf' = compacted (LastIncludeIndex args) (LastIncludeTerm args) (Data args) (demoted args ev rf)" "msg \<noteq> None"
proof -
  consider "is_Term args < currentTerm rf" | "\<not> is_Term args < currentTerm rf" "LastIncludeIndex args \<le> lastIncludeIndex rf"
    | "\<not> is_Term args < currentTerm rf" "\<not> LastIncludeIndex args \<le> lastIncludeIndex rf" by blast
  then show ?thesis
  proof cases
    case 1
    then show ?thesis using assms(2) by (intro stale) (auto simp: InstallSnapShot_eq [OF assms(1)])
  next
    case 2
    then show ?thesis using assms(2) by (intro covered) (auto simp: InstallSnapShot_eq [OF assms(1)])
  next
    case 3
    then show ?thesis using assms(2) by (intro installed) (auto simp: InstallSnapShot_eq [OF assms(1)])
  qed
qed

lemma InstallSnapShot_keeps:
  assumes "node_ok rf" and "InstallSnapShot args ev rf = Some (reply, rf', msg)"
  shows "node_ok rf'" "me rf' = me rf" "peers rf' = peers rf" "currentTerm rf \<le> currentTerm rf'"
proof -
  note d = demoted_node_ok [OF assms(1), of args ev]
  have c: "lastIncludeIndex rf < LastIncludeIndex args \<Longrightarrow> node_ok (compacted (LastIncludeIndex args) t snap (demoted args ev rf))" for t snap
    by (rule compacted_node_ok [OF d]) (simp add: demoted_fields)
  show "node_ok rf'" "me rf' = me rf" "peers rf' = peers rf" "currentTerm rf \<le> currentTerm rf'"
    by (rule InstallSnapShot_elim [OF assms]; use assms(1) d c in \<open>simp add: demoted_fields compacted_fields\<close>)+
qed

lemma leaderSendSnapShot_reply_eq:
  assumes "sized rf" and "s < length (peers rf)"
  shows "leaderSendSnapShot_reply s args reply ev rf = Some
    (if state rf \<noteq> Leader \<or> currentTerm rf \<noteq> is_Term args then rf
     else if isr_Term reply > currentTerm rf
     then (persist (rf\<lparr>state := Follower, votedFor := -1, voteNum := 0\<rparr>))\<lparr>votedTimer := now ev\<rparr>
     else rf\<lparr>matchIndex := (matchIndex rf)[s := LastIncludeIndex args], nextIndex := (nextIndex rf)[s := LastIncludeIndex args + 1]\<rparr>)"
proof -
  have "go_set (matchIndex rf) (int s) x = Some ((matchIndex rf)[s := x])" "go_set (nextIndex rf) (int s) x = Some ((nextIndex rf)[s := x])" for x
    using assms by (simp_all add: go_simps sized_def)
  then show ?thesis by (simp add: leaderSendSnapShot_reply_def)
qed

lemma leaderSendSnapShot_reply_keeps:
  assumes "node_ok rf" and "s < length (peers rf)" and "leaderSendSnapShot_reply s args reply ev rf = Some rf'"
  shows "node_ok rf'" "me rf' = me rf" "peers rf' = peers rf" "same_log rf rf'" "currentTerm rf' = currentTerm rf"
proof -
  let ?d = "rf\<lparr>state := Follower, votedFor := -1, voteNum := 0\<rparr>"
  have sz: "sized rf" using assms(1) by (simp add: node_ok_def)
  consider "rf' = rf" | "rf' = (persist ?d)\<lparr>votedTimer := now ev\<rparr>"
    | "rf' = rf\<lparr>matchIndex := (matchIndex rf)[s := LastIncludeIndex args], nextIndex := (nextIndex rf)[s := LastIncludeIndex args + 1]\<rparr>"
    using assms(3) unfolding leaderSendSnapShot_reply_eq [OF sz assms(2)] option.inject by (metis (full_types))
  then have "node_ok rf' \<and> me rf' = me rf \<and> peers rf' = peers rf \<and> same_log rf rf' \<and> currentTerm rf' = currentTerm rf"
  proof cases
    case 1
    then show ?thesis using assms(1) by (simp add: same_log_def)
  next
    case 2
    have p: "node_ok (persist ?d)"
      by (rule node_okI_persist) (use assms(1) in \<open>simp_all add: node_ok_def well_indexed_def sized_def\<close>)
    have "node_ok rf'" unfolding 2 by (rule node_ok_persisted_cong [OF p]) simp_all
    then show ?thesis
      by (simp add: same_log_def 2)
  next
    case 3
    have "node_ok rf'" unfolding 3 by (rule node_ok_persisted_cong [OF assms(1)]) simp_all
    then show ?thesis
      by (simp add: same_log_def 3)
  qed
  then show "node_ok rf'" "me rf' = me rf" "peers rf' = peers rf" "same_log rf rf'" "currentTerm rf' = currentTerm rf"
    by simp_all
qed

end
