(* ===== verification/Raft_Server.thy ===== *)
theory Raft_Server
  imports Raft_Snapshot
begin

text \<open>
  The entry points of a server in \<open>raft/raft.go\<close> that are not RPC handlers: \<open>Start\<close>, one turn of
  the loop of \<open>ticker\<close>, and one turn of the loop of \<open>applier\<close>. A turn is the critical section
  between \<open>rf.mu.Lock()\<close> and \<open>rf.mu.Unlock()\<close>.
\<close>

section \<open>The operations\<close>

definition Start :: "iface \<Rightarrow> env \<Rightarrow> Raft \<Rightarrow> ((int \<times> int \<times> bool) \<times> Raft \<times> action list) option" where
  "Start command ev rf =
     (if state rf \<noteq> Leader then Some ((-1, currentTerm rf, False), rf, [])
      else do {
        let index = getLastIndex rf + 1;
        let term = currentTerm rf;
        let entry = \<lparr>Command = command, e_Term = term, e_Index = index\<rparr>;
        let rf = rf\<lparr>log := log_append [entry] (log rf)\<rparr>;
        let rf = persist rf;
        (rf, acts) \<leftarrow> appendEntries False ev rf;
        Some ((index, term, True), rf, acts) })"

text \<open>The clock is read twice: \<open>appendEntries\<close> reads it when it resets the timer, then the test
  \<open>time.Now().After(rf.electionTime)\<close>, then \<open>leaderElection\<close>.\<close>

definition ticker_turn :: "env \<Rightarrow> env \<Rightarrow> Raft \<Rightarrow> (Raft \<times> action list) option" where
  "ticker_turn ev1 ev2 rf = do {
     (rf, acts1) \<leftarrow> (if state rf = Leader then appendEntries True ev1 rf else Some (rf, []));
     if now ev2 > electionTime rf
     then do {
       (rf, acts2) \<leftarrow> leaderElection ev2 rf;
       Some (rf, acts1 @ acts2) }
     else Some (rf, acts1) }"

text \<open>The second component is the message to send on \<open>applyCh\<close>; None stands for waiting on the
  condition variable.\<close>

definition applier_turn :: "Raft \<Rightarrow> (Raft \<times> ApplyMsg option) option" where
  "applier_turn rf = do {
     more \<leftarrow> (if commitIndex rf > lastApplied rf
             then do { lastL \<leftarrow> lastLog (log rf); Some (e_Index lastL > lastApplied rf) }
             else Some False);
     if more then do {
       let rf = rf\<lparr>lastApplied := lastApplied rf + 1\<rparr>;
       e \<leftarrow> log_at (log rf) (restoreLogIndex rf (lastApplied rf));
       let msg = \<lparr>CommandValid = True, am_Command = Command e, CommandIndex = lastApplied rf,
                  SnapshotValid = False, am_Snapshot = [], SnapshotTerm = 0, SnapshotIndex = 0\<rparr>;
       Some (rf, Some msg) }
     else Some (rf, None) }"

section \<open>Start\<close>

text \<open>The node with the command appended and persisted.\<close>

definition appended :: "iface \<Rightarrow> Raft \<Rightarrow> Raft" where
  "appended command rf =
     persist (rf\<lparr>log := log_append [\<lparr>Command = command, e_Term = currentTerm rf, e_Index = getLastIndex rf + 1\<rparr>] (log rf)\<rparr>)"

lemma appended_fields:
  "me (appended c rf) = me rf" "peers (appended c rf) = peers rf" "state (appended c rf) = state rf"
  "currentTerm (appended c rf) = currentTerm rf" "votedFor (appended c rf) = votedFor rf"
  "lastIncludeIndex (appended c rf) = lastIncludeIndex rf" "lastIncludeTerm (appended c rf) = lastIncludeTerm rf"
  "nextIndex (appended c rf) = nextIndex rf" "matchIndex (appended c rf) = matchIndex rf"
  "commitIndex (appended c rf) = commitIndex rf" "lastApplied (appended c rf) = lastApplied rf"
  "Entries (log (appended c rf)) = Entries (log rf) @ [\<lparr>Command = c, e_Term = currentTerm rf, e_Index = getLastIndex rf + 1\<rparr>]"
  by (simp_all add: appended_def log_append_def)

lemma appended_node_ok:
  assumes "node_ok rf"
  shows "node_ok (appended c rf)"
proof -
  let ?es = "Entries (log rf)" and ?x = "\<lparr>Command = c, e_Term = currentTerm rf, e_Index = getLastIndex rf + 1\<rparr>"
  have wi: "well_indexed rf" and sz: "sized rf" using assms by (simp_all add: node_ok_def)
  have "e_Index ((?es @ [?x]) ! k) = lastIncludeIndex rf + int k" if "k \<in> {1..<length (?es @ [?x])}" for k
  proof (cases "k < length ?es")
    case True
    then show ?thesis using wi that by (simp add: nth_append well_indexed_def)
  next
    case False
    then have "k = length ?es" using that by simp
    then show ?thesis by (simp add: getLastIndex_def log_len_def)
  qed
  then have "well_indexed (rf\<lparr>log := log_append [?x] (log rf)\<rparr>)"
    using wi by (simp add: well_indexed_def log_append_def nth_append del: length_append)
  then show ?thesis unfolding appended_def by (rule node_okI_persist) (use sz in \<open>simp add: sized_def\<close>)
qed

lemma appended_lastIndex: "getLastIndex (appended c rf) = getLastIndex rf + 1"
  by (simp add: getLastIndex_def log_len_def appended_fields)

lemma Start_eq:
  "Start c ev rf =
     (if state rf = Leader
      then map_option (\<lambda>(rf', acts). ((getLastIndex rf + 1, currentTerm rf, True), rf', acts)) (appendEntries False ev (appended c rf))
      else Some ((-1, currentTerm rf, False), rf, []))"
  by (cases "appendEntries False ev (appended c rf)") (auto simp: Start_def appended_def Let_def)

lemma Start_total:
  assumes "node_ok rf"
  shows "Start c ev rf \<noteq> None"
proof -
  have "well_indexed (appended c rf)" "sized (appended c rf)"
    using appended_node_ok [OF assms] by (simp_all add: node_ok_def)
  then obtain t acts where "appendEntries False ev (appended c rf) = Some ((appended c rf)\<lparr>electionTime := t\<rparr>, acts)"
    by (rule appendEntries_spec)
  then show ?thesis unfolding Start_eq by (cases "state rf = Leader") simp_all
qed

lemma Start_elim:
  assumes "node_ok rf" and "Start c ev rf = Some (r, rf', acts)"
  obtains (rejected) "state rf \<noteq> Leader" "r = (-1, currentTerm rf, False)" "rf' = rf" "acts = []"
  | (accepted) t where "state rf = Leader" "r = (getLastIndex rf + 1, currentTerm rf, True)"
      "rf' = (appended c rf)\<lparr>electionTime := t\<rparr>" "\<forall>a \<in> set acts. sent_ok (appended c rf) a"
proof (cases "state rf = Leader")
  case False
  then show ?thesis using assms(2) by (intro rejected) (auto simp: Start_eq)
next
  case True
  have "well_indexed (appended c rf)" "sized (appended c rf)"
    using appended_node_ok [OF assms(1)] by (simp_all add: node_ok_def)
  then obtain t acts' where "appendEntries False ev (appended c rf) = Some ((appended c rf)\<lparr>electionTime := t\<rparr>, acts')"
    "\<forall>a \<in> set acts'. sent_ok (appended c rf) a"
    by (rule appendEntries_spec)
  then show ?thesis using True assms(2) by (intro accepted) (auto simp: Start_eq)
qed

lemma Start_keeps:
  assumes "node_ok rf" and "Start c ev rf = Some (r, rf', acts)"
  shows "node_ok rf'" "election_frame rf rf'"
proof -
  have ok: "node_ok ((appended c rf)\<lparr>electionTime := t\<rparr>)" for t
    by (rule node_ok_persisted_cong [OF appended_node_ok [OF assms(1), of c]]) simp_all
  show "node_ok rf'" by (rule Start_elim [OF assms]) (use ok assms(1) in simp_all)
  show "election_frame rf rf'"
    by (rule Start_elim [OF assms]) (simp_all add: election_frame_def appended_fields)
qed

section \<open>The ticker\<close>

lemma ticker_turn_elim:
  assumes "node_ok rf" and "ticker_turn ev1 ev2 rf = Some (rf', acts)"
  obtains (quiet) t where "rf' = rf\<lparr>electionTime := t\<rparr>" "now ev2 \<le> t" "\<forall>a \<in> set acts. sent_ok rf a"
      "state rf \<noteq> Leader \<Longrightarrow> acts = []"
  | (election) t acts1 acts2 where "t < now ev2" "leaderElection ev2 (rf\<lparr>electionTime := t\<rparr>) = Some (rf', acts2)"
      "acts = acts1 @ acts2" "\<forall>a \<in> set acts1. sent_ok rf a" "node_ok (rf\<lparr>electionTime := t\<rparr>)"
      "state rf \<noteq> Leader \<Longrightarrow> acts1 = []"
proof -
  have wi: "well_indexed rf" "sized rf" using assms(1) by (simp_all add: node_ok_def)
  have ok: "node_ok (rf\<lparr>electionTime := t\<rparr>)" for t
    by (rule node_ok_persisted_cong [OF assms(1)]) simp_all
  obtain t acts1 where 1: "(if state rf = Leader then appendEntries True ev1 rf else Some (rf, [])) = Some (rf\<lparr>electionTime := t\<rparr>, acts1)"
    "\<forall>a \<in> set acts1. sent_ok rf a" "state rf \<noteq> Leader \<Longrightarrow> acts1 = []"
  proof (cases "state rf = Leader")
    case True
    then show ?thesis by (rule_tac appendEntries_spec [OF wi, of True ev1]) (auto intro: that)
  next
    case False
    then show ?thesis using that [of "electionTime rf" "[]"] by simp
  qed
  show ?thesis
  proof (cases "now ev2 > t")
    case True
    then show ?thesis using assms(2) 1 ok [of t]
      by (cases "leaderElection ev2 (rf\<lparr>electionTime := t\<rparr>)") (auto simp: ticker_turn_def intro: election)
  next
    case False
    then show ?thesis using assms(2) 1 by (auto simp: ticker_turn_def intro: quiet)
  qed
qed

lemma ticker_turn_keeps:
  assumes "node_ok rf" and "ticker_turn ev1 ev2 rf = Some (rf', acts)"
  shows "node_ok rf'" "same_log rf rf'" "me rf' = me rf" "peers rf' = peers rf" "commitIndex rf' = commitIndex rf"
    "lastApplied rf' = lastApplied rf" "currentTerm rf \<le> currentTerm rf'"
proof -
  have ok: "node_ok (rf\<lparr>electionTime := t\<rparr>)" for t
    by (rule node_ok_persisted_cong [OF assms(1)]) simp_all
  have "node_ok rf' \<and> same_log rf rf' \<and> me rf' = me rf \<and> peers rf' = peers rf \<and> commitIndex rf' = commitIndex rf \<and>
    lastApplied rf' = lastApplied rf \<and> currentTerm rf \<le> currentTerm rf'"
  proof (rule ticker_turn_elim [OF assms])
    fix t
    assume "rf' = rf\<lparr>electionTime := t\<rparr>"
    then show ?thesis using ok by (simp add: same_log_def)
  next
    fix t acts2
    assume "leaderElection ev2 (rf\<lparr>electionTime := t\<rparr>) = Some (rf', acts2)"
    from leaderElection_keeps [OF ok this] show ?thesis by (simp add: same_log_def)
  qed
  then show "node_ok rf'" "same_log rf rf'" "me rf' = me rf" "peers rf' = peers rf" "commitIndex rf' = commitIndex rf"
    "lastApplied rf' = lastApplied rf" "currentTerm rf \<le> currentTerm rf'" by simp_all
qed

lemma ticker_turn_total:
  assumes "node_ok rf"
  shows "ticker_turn ev1 ev2 rf \<noteq> None"
proof -
  have wi: "well_indexed rf" "sized rf" using assms by (simp_all add: node_ok_def)
  have "\<exists>t acts1. (if state rf = Leader then appendEntries True ev1 rf else Some (rf, [])) = Some (rf\<lparr>electionTime := t\<rparr>, acts1)"
  proof (cases "state rf = Leader")
    case True
    then show ?thesis by (rule_tac appendEntries_spec [OF wi, of True ev1]) auto
  next
    case False
    then show ?thesis by (auto intro!: exI [of _ "electionTime rf"])
  qed
  then obtain t acts1 where 1: "(if state rf = Leader then appendEntries True ev1 rf else Some (rf, [])) = Some (rf\<lparr>electionTime := t\<rparr>, acts1)"
    by blast
  have "well_indexed (rf\<lparr>electionTime := t\<rparr>)" using wi by (simp add: well_indexed_def)
  from leaderElection_eq [OF this, of ev2] obtain r where "leaderElection ev2 (rf\<lparr>electionTime := t\<rparr>) = Some r"
    by metis
  then show ?thesis using 1 by (cases r) (simp add: ticker_turn_def)
qed

section \<open>The applier\<close>

text \<open>What the applier needs: it has not applied past the snapshot point's predecessor, which every
  operation of the node keeps.\<close>

definition apply_ok :: "Raft \<Rightarrow> bool" where
  "apply_ok rf \<longleftrightarrow> lastIncludeIndex rf \<le> lastApplied rf"

lemma applier_turn_eq:
  assumes "well_indexed rf" and "apply_ok rf"
  shows "applier_turn rf =
    (if lastApplied rf < commitIndex rf \<and> lastApplied rf < getLastIndex rf
     then Some (rf\<lparr>lastApplied := lastApplied rf + 1\<rparr>,
       Some \<lparr>CommandValid = True, am_Command = Command (the (logmap rf (lastApplied rf + 1))), CommandIndex = lastApplied rf + 1,
             SnapshotValid = False, am_Snapshot = [], SnapshotTerm = 0, SnapshotIndex = 0\<rparr>)
     else Some (rf, None))"
proof -
  obtain l where l: "lastLog (log rf) = Some l" "e_Index l = (if length (Entries (log rf)) = 1 then 0 else getLastIndex rf)"
    using well_indexed_last [OF assms(1)] by metis
  have nn: "0 \<le> lastIncludeIndex rf" "lastIncludeIndex rf \<le> lastApplied rf" "0 < length (Entries (log rf))"
    using assms by (simp_all add: well_indexed_def apply_ok_def)
  have gt: "e_Index l > lastApplied rf \<longleftrightarrow> getLastIndex rf > lastApplied rf"
    using nn l(2) by (auto simp: getLastIndex_def log_len_def)
  show ?thesis
  proof (cases "lastApplied rf < commitIndex rf \<and> lastApplied rf < getLastIndex rf")
    case True
    then obtain e where e: "logmap rf (lastApplied rf + 1) = Some e"
      using logmap_dom [OF assms(1)] nn by (metis domIff greaterThanAtMost_iff not_None_eq zless_add1_eq add1_zle_eq order_le_less_trans)
    then have "log_at (log rf) (lastApplied rf + 1 - lastIncludeIndex rf) = Some e"
      by (simp add: logmap_def restoreLog_def split: if_splits)
    then show ?thesis using True l(1) gt e by (simp add: applier_turn_def restoreLogIndex_def)
  next
    case False
    then show ?thesis using l(1) gt by (auto simp: applier_turn_def)
  qed
qed

lemma applier_turn_keeps:
  assumes "node_ok rf" and "apply_ok rf" and "applier_turn rf = Some (rf', msg)"
  shows "node_ok rf'" "apply_ok rf'" "same_log rf rf'" "election_frame rf rf'" "state rf' = state rf"
    "currentTerm rf' = currentTerm rf" "lastApplied rf' = lastApplied rf + (if msg = None then 0 else 1)"
proof -
  have wi: "well_indexed rf" using assms(1) by (simp add: node_ok_def)
  have "rf' = rf \<and> msg = None \<or> rf' = rf\<lparr>lastApplied := lastApplied rf + 1\<rparr> \<and> msg \<noteq> None"
    using assms(3) unfolding applier_turn_eq [OF wi assms(2)] by (auto split: if_split_asm)
  moreover have "node_ok (rf\<lparr>lastApplied := lastApplied rf + 1\<rparr>)"
    by (rule node_ok_persisted_cong [OF assms(1)]) simp_all
  ultimately show "node_ok rf'" "apply_ok rf'" "same_log rf rf'" "election_frame rf rf'" "state rf' = state rf"
    "currentTerm rf' = currentTerm rf" "lastApplied rf' = lastApplied rf + (if msg = None then 0 else 1)"
    using assms by (auto simp: apply_ok_def same_log_def election_frame_def)
qed

end
