(* ===== verification/Raft_Cluster.thy ===== *)
theory Raft_Cluster
  imports Raft_Server
begin

text \<open>
  The cluster: the servers, the goroutines their critical sections start, and the RPCs in flight.
  A goroutine is a value of \<open>flight\<close> at the stage it has reached; a step runs one critical section
  of one server, in any order the locks and the network of \<open>labrpc\<close> allow: a request or a reply is
  delivered once, late, out of order or never. A server may crash at any moment and restart from a
  copy of its persister (\<open>config.go\<close>, \<open>crash1\<close> and \<open>start1\<close>); its goroutines die with it, which
  the incarnation number in a flight records. The voteCounter and the Once of an election are
  shared by its goroutines through their position in \<open>ballots\<close>. \<open>elections\<close> is a history: nothing
  reads it; it lists who ran the body of \<open>becomeLeader\<close> in which term.
\<close>

section \<open>The state\<close>

datatype flight =
    VoteReq nat nat nat RequestVoteArgs nat
  | VoteRep nat nat nat RequestVoteArgs RequestVoteReply nat
  | AppReq nat nat nat AppendEntriesArgs
  | AppRep nat nat nat AppendEntriesArgs AppendEntriesReply
  | SnapGo nat nat nat
  | SnapReq nat nat nat InstallSnapshotArgs
  | SnapRep nat nat nat InstallSnapshotArgs InstallSnapshotReply
  | Sending nat nat bool ApplyMsg \<comment> \<open>blocked on \<open>applyCh\<close>; the flag marks the applier\<close>

text \<open>The first three numbers of an RPC are the caller, its incarnation and the callee; the last of a
  vote is its ballot.\<close>

record Cluster =
  servers :: "Raft list"
  incs :: "nat list"
  ballots :: "Ballot list"
  flights :: "flight list"
  applied :: "ApplyMsg list list" \<comment> \<open>what each service has received from \<open>applyCh\<close>\<close>
  elections :: "(int \<times> nat) list"

fun spawn :: "nat \<Rightarrow> nat \<Rightarrow> nat \<Rightarrow> action \<Rightarrow> flight list" where
  "spawn i c b (GoRequestVote p args) = [VoteReq i c p args b]"
| "spawn i c b (GoSendEntries p args) = [AppReq i c p args]"
| "spawn i c b (GoSendSnapShot p) = [SnapGo i c p]"
| "spawn i c b ApplyBroadcast = []"

definition spawns :: "nat \<Rightarrow> Cluster \<Rightarrow> action list \<Rightarrow> flight list" where
  "spawns i s acts = concat (map (spawn i (incs s ! i) (length (ballots s))) acts)"

definition sendings :: "nat \<Rightarrow> Cluster \<Rightarrow> bool \<Rightarrow> ApplyMsg option \<Rightarrow> flight list" where
  "sendings i s ap m = (case m of None \<Rightarrow> [] | Some x \<Rightarrow> [Sending i (incs s ! i) ap x])"

definition running :: "nat \<Rightarrow> nat \<Rightarrow> Cluster \<Rightarrow> bool" where
  \<comment> \<open>incarnation \<open>c\<close> of server \<open>i\<close> has not crashed\<close>
  "running i c s \<longleftrightarrow> i < length (servers s) \<and> incs s ! i = c"

definition sending :: "nat \<Rightarrow> Cluster \<Rightarrow> bool" where
  \<comment> \<open>the applier of server \<open>i\<close> is blocked on the channel\<close>
  "sending i s \<longleftrightarrow> (\<exists>m. Sending i (incs s ! i) True m \<in> set (flights s))"

fun losable :: "Cluster \<Rightarrow> flight \<Rightarrow> bool" where
  \<comment> \<open>the network may lose an RPC; a goroutine of the process is lost in a crash only\<close>
  "losable s (SnapGo i c j) = (\<not> running i c s)"
| "losable s (Sending i c ap m) = (\<not> running i c s)"
| "losable s _ = True"

definition initial :: "string list \<Rightarrow> Cluster \<Rightarrow> bool" where
  "initial ps s \<longleftrightarrow> length (servers s) = length ps \<and>
     (\<forall>i < length ps. \<exists>ev. Make ps i MakePersister ev = Some (servers s ! i)) \<and>
     incs s = replicate (length ps) 0 \<and> ballots s = [] \<and> flights s = [] \<and>
     applied s = replicate (length ps) [] \<and> elections s = []"

section \<open>The steps\<close>

text \<open>A label names the server that acts. The flag of the two snapshot labels tells whether the
  critical section has erased a vote of a term it did not leave: \<open>raft.go\<close> sets \<open>votedFor\<close> to -1
  there without looking at the term.\<close>

datatype event =
    EvTick nat | EvStart nat iface | EvVote nat | EvCount nat | EvAppend nat | EvAck nat
  | EvSnapGo nat | EvInstall nat bool | EvInstalled nat bool | EvSnapshot nat int
  | EvApply nat | EvSend nat | EvLost | EvKill nat | EvRestart nat

text \<open>Runs in which no service asks for a snapshot.\<close>

fun no_compaction :: "event \<Rightarrow> bool" where
  "no_compaction (EvSnapshot i index) = False"
| "no_compaction e = True"

definition erases :: "Raft \<Rightarrow> Raft \<Rightarrow> bool" where
  "erases rf rf' \<longleftrightarrow> currentTerm rf' = currentTerm rf \<and> votedFor rf \<noteq> -1 \<and> votedFor rf' = -1"

inductive step :: "Cluster \<Rightarrow> event \<Rightarrow> Cluster \<Rightarrow> bool" where
  tick: "i < length (servers s) \<Longrightarrow> \<not> killed (servers s ! i) \<Longrightarrow>
    ticker_turn ev1 ev2 (servers s ! i) = Some (rf', acts) \<Longrightarrow>
    step s (EvTick i) (s\<lparr>servers := (servers s)[i := rf'], ballots := ballots s @ [newBallot],
                         flights := flights s @ spawns i s acts\<rparr>)"
| start: "i < length (servers s) \<Longrightarrow>
    Start cmd ev (servers s ! i) = Some (res, rf', acts) \<Longrightarrow>
    step s (EvStart i cmd) (s\<lparr>servers := (servers s)[i := rf'], flights := flights s @ spawns i s acts\<rparr>)"
| vote: "flights s = xs @ VoteReq j c i args b # ys \<Longrightarrow> i < length (servers s) \<Longrightarrow>
    RequestVote args ev (servers s ! i) = Some (reply, rf') \<Longrightarrow>
    step s (EvVote i) (s\<lparr>servers := (servers s)[i := rf'], flights := xs @ ys @ [VoteRep j c i args reply b]\<rparr>)"
| count: "flights s = xs @ VoteRep i c j args reply b # ys \<Longrightarrow> running i c s \<Longrightarrow> b < length (ballots s) \<Longrightarrow>
    candidateRequestVote args reply (ballots s ! b) ev (servers s ! i) = Some (bal', rf', acts) \<Longrightarrow>
    step s (EvCount i) (s\<lparr>servers := (servers s)[i := rf'], ballots := (ballots s)[b := bal'],
       flights := xs @ ys @ spawns i s acts,
       elections := (if onceDone bal' \<and> \<not> onceDone (ballots s ! b) then [(currentTerm rf', i)] else []) @ elections s\<rparr>)"
| append: "flights s = xs @ AppReq j c i args # ys \<Longrightarrow> i < length (servers s) \<Longrightarrow>
    AppendEntries args ev (servers s ! i) = Some (reply, rf', acts) \<Longrightarrow>
    step s (EvAppend i) (s\<lparr>servers := (servers s)[i := rf'], flights := xs @ ys @ [AppRep j c i args reply]\<rparr>)"
| ack: "flights s = xs @ AppRep i c j args reply # ys \<Longrightarrow> running i c s \<Longrightarrow>
    leaderSendEntries j args reply (servers s ! i) = Some (rf', acts) \<Longrightarrow>
    step s (EvAck i) (s\<lparr>servers := (servers s)[i := rf'], flights := xs @ ys\<rparr>)"
| snapgo: "flights s = xs @ SnapGo i c j # ys \<Longrightarrow> running i c s \<Longrightarrow>
    step s (EvSnapGo i) (s\<lparr>flights := xs @ ys @ [SnapReq i c j (leaderSendSnapShot_args (servers s ! i))]\<rparr>)"
| install: "flights s = xs @ SnapReq j c i args # ys \<Longrightarrow> i < length (servers s) \<Longrightarrow>
    InstallSnapShot args ev (servers s ! i) = Some (reply, rf', msg) \<Longrightarrow>
    step s (EvInstall i (erases (servers s ! i) rf'))
      (s\<lparr>servers := (servers s)[i := rf'], flights := xs @ ys @ SnapRep j c i args reply # sendings i s False msg\<rparr>)"
| installed: "flights s = xs @ SnapRep i c j args reply # ys \<Longrightarrow> running i c s \<Longrightarrow>
    leaderSendSnapShot_reply j args reply ev (servers s ! i) = Some rf' \<Longrightarrow>
    step s (EvInstalled i (erases (servers s ! i) rf')) (s\<lparr>servers := (servers s)[i := rf'], flights := xs @ ys\<rparr>)"
| snapshot: "i < length (servers s) \<Longrightarrow> Snapshot index snap (servers s ! i) = Some rf' \<Longrightarrow>
    step s (EvSnapshot i index) (s\<lparr>servers := (servers s)[i := rf']\<rparr>)"
| apply_next: "i < length (servers s) \<Longrightarrow> \<not> killed (servers s ! i) \<Longrightarrow> \<not> sending i s \<Longrightarrow>
    applier_turn (servers s ! i) = Some (rf', msg) \<Longrightarrow>
    step s (EvApply i) (s\<lparr>servers := (servers s)[i := rf'], flights := flights s @ sendings i s True msg\<rparr>)"
| send: "flights s = xs @ Sending i c ap msg # ys \<Longrightarrow> running i c s \<Longrightarrow>
    step s (EvSend i) (s\<lparr>flights := xs @ ys, applied := (applied s)[i := applied s ! i @ [msg]]\<rparr>)"
| lost: "flights s = xs @ f # ys \<Longrightarrow> losable s f \<Longrightarrow> step s EvLost (s\<lparr>flights := xs @ ys\<rparr>)"
| kill: "i < length (servers s) \<Longrightarrow>
    step s (EvKill i) (s\<lparr>servers := (servers s)[i := Kill (servers s ! i)]\<rparr>)"
| restart: "i < length (servers s) \<Longrightarrow>
    Make (peers (servers s ! i)) i (Copy (persister (servers s ! i))) ev = Some rf' \<Longrightarrow>
    step s (EvRestart i) (s\<lparr>servers := (servers s)[i := rf'], incs := (incs s)[i := incs s ! i + 1],
                            applied := (applied s)[i := []]\<rparr>)"

abbreviation reachable :: "string list \<Rightarrow> (event \<Rightarrow> bool) \<Rightarrow> Cluster \<Rightarrow> bool" where
  "reachable ps \<equiv> reach (initial ps) step"

section \<open>What one server's step keeps\<close>

definition node_step :: "Raft \<Rightarrow> Raft \<Rightarrow> bool" where
  "node_step rf rf' \<longleftrightarrow> node_ok rf' \<and> me rf' = me rf \<and> peers rf' = peers rf \<and>
     currentTerm rf \<le> currentTerm rf' \<and> (apply_ok rf \<longrightarrow> apply_ok rf')"

lemma node_step_refl: "node_ok rf \<Longrightarrow> node_step rf rf"
  by (simp add: node_step_def)

text \<open>Most operations also leave the snapshot point and the applied index alone.\<close>

definition node_still :: "Raft \<Rightarrow> Raft \<Rightarrow> bool" where
  "node_still rf rf' \<longleftrightarrow> node_ok rf' \<and> me rf' = me rf \<and> peers rf' = peers rf \<and> currentTerm rf \<le> currentTerm rf' \<and>
     lastIncludeIndex rf' = lastIncludeIndex rf \<and> lastApplied rf' = lastApplied rf"

lemma node_still_step: "node_still rf rf' \<Longrightarrow> node_step rf rf'"
  by (simp add: node_still_def node_step_def apply_ok_def)

lemma node_still_refl: "node_ok rf \<Longrightarrow> node_still rf rf"
  by (simp add: node_still_def)

lemma node_stillI:
  assumes "node_ok rf'" and "me rf' = me rf" and "peers rf' = peers rf" and "currentTerm rf \<le> currentTerm rf'"
    and "lastIncludeIndex rf' = lastIncludeIndex rf" and "lastApplied rf' = lastApplied rf"
  shows "node_still rf rf'"
  using assms by (simp add: node_still_def)

lemma ticker_turn_still:
  assumes "node_ok rf" and "ticker_turn ev1 ev2 rf = Some (rf', acts)"
  shows "node_still rf rf'"
  by (rule node_stillI) (use ticker_turn_keeps [OF assms] in \<open>simp_all add: same_log_def\<close>)

lemma Start_still:
  assumes "node_ok rf" and "Start cmd ev rf = Some (r, rf', acts)"
  shows "node_still rf rf'"
proof (rule Start_elim [OF assms])
  assume "rf' = rf"
  then show ?thesis using node_still_refl [OF assms(1)] by simp
next
  fix t
  assume "rf' = (appended cmd rf)\<lparr>electionTime := t\<rparr>"
  then show ?thesis
    by (intro node_stillI Start_keeps(1) [OF assms]) (simp_all add: appended_fields)
qed

lemma RequestVote_still:
  assumes "node_ok rf" and "RequestVote args ev rf = Some (reply, rf')"
  shows "node_still rf rf'"
proof (rule node_stillI)
  have wi: "well_indexed rf" using assms(1) by (simp add: node_ok_def)
  note k = RequestVote_keeps [OF assms]
  show "node_ok rf'" "me rf' = me rf" "peers rf' = peers rf" "lastIncludeIndex rf' = lastIncludeIndex rf"
    using k by (simp_all add: same_log_def)
  show "currentTerm rf \<le> currentTerm rf'" "lastApplied rf' = lastApplied rf"
    using assms(2) by (auto simp: RequestVote_eq [OF wi] joined_fields resetElectionTimer_eq split: if_split_asm)
qed

lemma setNewTerm_still:
  assumes "node_ok rf" and "0 < t"
  shows "node_still rf (setNewTerm t rf)"
  using assms(2)
proof (cases rule: setNewTerm_cases [of t rf])
  case 1
  then show ?thesis
    by (intro node_stillI setNewTerm_node_ok assms) (simp_all add: setNewTerm_fields)
next
  case 2
  then show ?thesis using node_still_refl [OF assms(1)] by simp
qed

lemma candidateRequestVote_still:
  assumes "node_ok rf" and "candidateRequestVote args reply b ev rf = Some (b', rf', acts)" and "0 \<le> rv_Term args"
  shows "node_still rf rf'"
  using assms(2)
proof (cases rule: candidateRequestVote_elim)
  case newer
  then show ?thesis using setNewTerm_still [OF assms(1)] assms(3) by simp
next
  case elected
  note k = becomeLeader_keeps [OF assms(1) elected(3)]
  show ?thesis by (rule node_stillI) (use k in \<open>simp_all add: same_log_def\<close>)
qed (use node_still_refl [OF assms(1)] in simp_all)

lemma AppendEntries_still:
  assumes "node_ok rf" and "AppendEntries args ev rf = Some (reply, rf', acts)" and "numbered (PrevLogIndex args) (ae_Entries args)"
  shows "node_still rf rf'"
proof (rule node_stillI)
  show "node_ok rf'" by (rule AppendEntries_node_ok [OF assms])
  have "election_frame rf rf'" by (rule AppendEntries_frame [OF assms(1,2)])
  then show "me rf' = me rf" "peers rf' = peers rf" "currentTerm rf \<le> currentTerm rf'" by (auto simp: election_frame_def)
  show "lastIncludeIndex rf' = lastIncludeIndex rf" "lastApplied rf' = lastApplied rf"
    using assms(2) by (cases rule: AppendEntries_elim [OF assms(1), of args ev];
        auto simp: setNewTerm_fields heard_eq stored_fields)+
qed

lemma leaderSendEntries_still:
  assumes "node_ok rf" and "j < length (peers rf)" and "leaderSendEntries j args reply rf = Some (rf', acts)"
  shows "node_still rf rf'"
proof (rule node_stillI)
  note k = leaderSendEntries_keeps [OF assms]
  show "node_ok rf'" by (rule k)
  show "me rf' = me rf" "peers rf' = peers rf" "currentTerm rf \<le> currentTerm rf'" using k(2) by (auto simp: election_frame_def)
  show "lastIncludeIndex rf' = lastIncludeIndex rf" using k(3) by (simp add: same_log_def)
  show "lastApplied rf' = lastApplied rf"
    by (rule leaderSendEntries_shape [OF assms(1,2), of reply args])
      (use assms(3) in \<open>auto simp: setNewTerm_fields\<close>)
qed

lemma compacted_apply_ok: "apply_ok (compacted index t snap rf)"
  by (simp add: apply_ok_def compacted_def Let_def)

lemma Snapshot_step:
  assumes "node_ok rf" and "Snapshot index snap rf = Some rf'"
  shows "node_step rf rf'"
proof (rule Snapshot_elim [OF assms])
  assume "rf' = rf"
  then show ?thesis using node_step_refl [OF assms(1)] by simp
next
  fix t
  assume "rf' = compacted index t snap rf"
  then show ?thesis using Snapshot_keeps [OF assms] compacted_apply_ok [of index t snap rf]
    by (simp add: node_step_def)
qed

lemma InstallSnapShot_step:
  assumes "node_ok rf" and "InstallSnapShot args ev rf = Some (reply, rf', msg)"
  shows "node_step rf rf'"
proof (rule InstallSnapShot_elim [OF assms])
  assume "rf' = rf"
  then show ?thesis using node_step_refl [OF assms(1)] by simp
next
  assume "rf' = demoted args ev rf"
  then show ?thesis using InstallSnapShot_keeps [OF assms]
    by (simp add: node_step_def apply_ok_def demoted_fields)
next
  assume "rf' = compacted (LastIncludeIndex args) (LastIncludeTerm args) (Data args) (demoted args ev rf)"
  then show ?thesis using InstallSnapShot_keeps [OF assms]
      compacted_apply_ok [of "LastIncludeIndex args" "LastIncludeTerm args" "Data args" "demoted args ev rf"]
    by (simp add: node_step_def)
qed

lemma leaderSendSnapShot_reply_still:
  assumes "node_ok rf" and "j < length (peers rf)" and "leaderSendSnapShot_reply j args reply ev rf = Some rf'"
  shows "node_still rf rf'"
proof (rule node_stillI)
  have sz: "sized rf" using assms(1) by (simp add: node_ok_def)
  note k = leaderSendSnapShot_reply_keeps [OF assms]
  show "node_ok rf'" "me rf' = me rf" "peers rf' = peers rf" "currentTerm rf \<le> currentTerm rf'"
    "lastIncludeIndex rf' = lastIncludeIndex rf" using k by (simp_all add: same_log_def)
  show "lastApplied rf' = lastApplied rf"
    using assms(3) unfolding leaderSendSnapShot_reply_eq [OF sz assms(2)] by auto
qed

lemma applier_turn_step:
  assumes "node_ok rf" and "apply_ok rf" and "applier_turn rf = Some (rf', msg)"
  shows "node_step rf rf'"
  using applier_turn_keeps [OF assms] by (simp add: node_step_def election_frame_def)

lemma Kill_still: "node_ok rf \<Longrightarrow> node_still rf (Kill rf)"
  by (rule node_stillI) (auto simp: Kill_def intro: node_ok_persisted_cong)

text \<open>A restarted server has the persistent state it had, and is a follower.\<close>

lemma restart_elim:
  assumes "node_ok rf" and "Make (peers rf) (me rf) (Copy (persister rf)) ev = Some rf'"
  shows "node_step rf rf'" "same_log rf rf'" "currentTerm rf' = currentTerm rf" "votedFor rf' = votedFor rf" "state rf' = Follower"
    "commitIndex rf' = 0" "lastApplied rf' = lastIncludeIndex rf"
proof -
  have wi: "well_indexed rf" "sized rf" "saved rf" using assms(1) by (simp_all add: node_ok_def)
  obtain rf1 where r: "Make (peers rf) (me rf) (persister rf) ev = Some rf1" "saved rf1"
    "persister rf1 = persister rf" "peers rf1 = peers rf" "me rf1 = me rf" "state rf1 = Follower"
    "currentTerm rf1 = currentTerm rf" "votedFor rf1 = votedFor rf" "log rf1 = log rf"
    "lastIncludeIndex rf1 = lastIncludeIndex rf" "lastIncludeTerm rf1 = lastIncludeTerm rf"
    "commitIndex rf1 = 0" "lastApplied rf1 = max 0 (lastIncludeIndex rf)"
    "nextIndex rf1 = replicate (length (peers rf)) 0" "matchIndex rf1 = replicate (length (peers rf)) 0" "dead rf1 = 0"
    by (rule saved_Make [OF wi(3)])
  have rf': "rf' = rf1" using assms(2) r(1) by simp
  have "node_ok rf1" using r wi by (simp add: node_ok_def well_indexed_def sized_def)
  then show "node_step rf rf'" "same_log rf rf'" "currentTerm rf' = currentTerm rf" "votedFor rf' = votedFor rf" "state rf' = Follower"
    "commitIndex rf' = 0" "lastApplied rf' = lastIncludeIndex rf"
    using r wi by (simp_all add: rf' node_step_def same_log_def apply_ok_def well_indexed_def)
qed

lemmas ticker_turn_step = ticker_turn_still [THEN node_still_step]
lemmas Start_step = Start_still [THEN node_still_step]
lemmas RequestVote_step = RequestVote_still [THEN node_still_step]
lemmas candidateRequestVote_step = candidateRequestVote_still [THEN node_still_step]
lemmas AppendEntries_step = AppendEntries_still [THEN node_still_step]
lemmas leaderSendEntries_step = leaderSendEntries_still [THEN node_still_step]
lemmas leaderSendSnapShot_reply_step = leaderSendSnapShot_reply_still [THEN node_still_step]
lemmas Kill_step = Kill_still [THEN node_still_step]

end
