(* ===== verification/Cluster_Runs.thy ===== *)
theory Cluster_Runs
  imports Raft_Cluster
begin

text \<open>
  A scheduler for the cluster: a move names the next critical section and the readings it makes, and
  \<open>play\<close> runs it. Every played move is a step of the relation, so a computed run is a reachable
  state; the witnesses and the counterexamples of the development are runs of this kind.
\<close>

datatype move =
    MTick nat env env
  | MStart nat iface env
  | MDeliver nat env \<comment> \<open>run the next stage of the flight at this position\<close>
  | MSnapshot nat int bytes
  | MApply nat
  | MLose nat
  | MRestart nat env

definition others :: "nat \<Rightarrow> 'a list \<Rightarrow> 'a list" where
  "others k xs = take k xs @ drop (Suc k) xs"

definition deliver :: "nat \<Rightarrow> env \<Rightarrow> Cluster \<Rightarrow> (event \<times> Cluster) option" where
  "deliver k ev s =
     (if k < length (flights s) then
        let rest = others k (flights s) in
        case flights s ! k of
          VoteReq j c i args b \<Rightarrow>
            if i < length (servers s) then do {
              (reply, rf) \<leftarrow> RequestVote args ev (servers s ! i);
              Some (EvVote i, s\<lparr>servers := (servers s)[i := rf], flights := rest @ [VoteRep j c i args reply b]\<rparr>) }
            else None
        | VoteRep i c j args reply b \<Rightarrow>
            if running i c s \<and> b < length (ballots s) then do {
              (bal, rf, acts) \<leftarrow> candidateRequestVote args reply (ballots s ! b) ev (servers s ! i);
              Some (EvCount i, s\<lparr>servers := (servers s)[i := rf], ballots := (ballots s)[b := bal], flights := rest @ spawns i s acts,
                elections := (if onceDone bal \<and> \<not> onceDone (ballots s ! b) then [(currentTerm rf, i)] else []) @ elections s\<rparr>) }
            else None
        | AppReq j c i args \<Rightarrow>
            if i < length (servers s) then do {
              (reply, rf, acts) \<leftarrow> AppendEntries args ev (servers s ! i);
              Some (EvAppend i, s\<lparr>servers := (servers s)[i := rf], flights := rest @ [AppRep j c i args reply]\<rparr>) }
            else None
        | AppRep i c j args reply \<Rightarrow>
            if running i c s then do {
              (rf, acts) \<leftarrow> leaderSendEntries j args reply (servers s ! i);
              Some (EvAck i, s\<lparr>servers := (servers s)[i := rf], flights := rest\<rparr>) }
            else None
        | SnapGo i c j \<Rightarrow>
            if running i c s
            then Some (EvSnapGo i, s\<lparr>flights := rest @ [SnapReq i c j (leaderSendSnapShot_args (servers s ! i))]\<rparr>)
            else None
        | SnapReq j c i args \<Rightarrow>
            if i < length (servers s) then do {
              (reply, rf, msg) \<leftarrow> InstallSnapShot args ev (servers s ! i);
              Some (EvInstall i (erases (servers s ! i) rf),
                s\<lparr>servers := (servers s)[i := rf], flights := rest @ SnapRep j c i args reply # sendings i s False msg\<rparr>) }
            else None
        | SnapRep i c j args reply \<Rightarrow>
            if running i c s then do {
              rf \<leftarrow> leaderSendSnapShot_reply j args reply ev (servers s ! i);
              Some (EvInstalled i (erases (servers s ! i) rf), s\<lparr>servers := (servers s)[i := rf], flights := rest\<rparr>) }
            else None
        | Sending i c ap msg \<Rightarrow>
            if running i c s
            then Some (EvSend i, s\<lparr>flights := rest, applied := (applied s)[i := applied s ! i @ [msg]]\<rparr>)
            else None
      else None)"

fun sent_by_applier :: "nat \<Rightarrow> nat \<Rightarrow> flight \<Rightarrow> bool" where
  "sent_by_applier i c (Sending j c' ap m) \<longleftrightarrow> j = i \<and> c' = c \<and> ap"
| "sent_by_applier i c _ \<longleftrightarrow> False"

definition blocked :: "nat \<Rightarrow> Cluster \<Rightarrow> bool" where
  "blocked i s \<longleftrightarrow> list_ex (sent_by_applier i (incs s ! i)) (flights s)"

fun play :: "move \<Rightarrow> Cluster \<Rightarrow> (event \<times> Cluster) option" where
  "play (MTick i ev1 ev2) s =
     (if i < length (servers s) \<and> \<not> killed (servers s ! i) then do {
        (rf, acts) \<leftarrow> ticker_turn ev1 ev2 (servers s ! i);
        Some (EvTick i, s\<lparr>servers := (servers s)[i := rf], ballots := ballots s @ [newBallot], flights := flights s @ spawns i s acts\<rparr>) }
      else None)"
| "play (MStart i cmd ev) s =
     (if i < length (servers s) then do {
        (res, rf, acts) \<leftarrow> Start cmd ev (servers s ! i);
        Some (EvStart i cmd, s\<lparr>servers := (servers s)[i := rf], flights := flights s @ spawns i s acts\<rparr>) }
      else None)"
| "play (MDeliver k ev) s = deliver k ev s"
| "play (MSnapshot i index snap) s =
     (if i < length (servers s) then do {
        rf \<leftarrow> Snapshot index snap (servers s ! i);
        Some (EvSnapshot i index, s\<lparr>servers := (servers s)[i := rf]\<rparr>) }
      else None)"
| "play (MApply i) s =
     (if i < length (servers s) \<and> \<not> killed (servers s ! i) \<and> \<not> blocked i s then do {
        (rf, msg) \<leftarrow> applier_turn (servers s ! i);
        Some (EvApply i, s\<lparr>servers := (servers s)[i := rf], flights := flights s @ sendings i s True msg\<rparr>) }
      else None)"
| "play (MLose k) s =
     (if k < length (flights s) \<and> losable s (flights s ! k) then Some (EvLost, s\<lparr>flights := others k (flights s)\<rparr>) else None)"
| "play (MRestart i ev) s =
     (if i < length (servers s) then do {
        rf \<leftarrow> Make (peers (servers s ! i)) i (Copy (persister (servers s ! i))) ev;
        Some (EvRestart i, s\<lparr>servers := (servers s)[i := rf], incs := (incs s)[i := incs s ! i + 1], applied := (applied s)[i := []]\<rparr>) }
      else None)"

fun plays :: "move list \<Rightarrow> Cluster \<Rightarrow> (event list \<times> Cluster) option" where
  "plays [] s = Some ([], s)"
| "plays (m # ms) s = do {
     (e, s) \<leftarrow> play m s;
     (es, s) \<leftarrow> plays ms s;
     Some (e # es, s) }"

definition boot :: "string list \<Rightarrow> env \<Rightarrow> Cluster option" where
  "boot ps ev = do {
     rfs \<leftarrow> those (map (\<lambda>i. Make ps i MakePersister ev) [0..<length ps]);
     Some \<lparr>servers = rfs, incs = replicate (length ps) 0, ballots = [], flights = [],
           applied = replicate (length ps) [], elections = []\<rparr> }"

definition simulate :: "string list \<Rightarrow> env \<Rightarrow> move list \<Rightarrow> (event list \<times> Cluster) option" where
  "simulate ps ev ms = do { s \<leftarrow> boot ps ev; plays ms s }"

section \<open>A played move is a step\<close>

lemma others_split: "k < length xs \<Longrightarrow> xs = take k xs @ xs ! k # drop (Suc k) xs"
  by (rule id_take_nth_drop)

lemma blocked_sending: "blocked i s = sending i s"
proof -
  have "sent_by_applier i c f \<longleftrightarrow> (\<exists>m. f = Sending i c True m)" for f c
    by (cases "(i, c, f)" rule: sent_by_applier.cases) auto
  then show ?thesis by (auto simp: blocked_def sending_def list_ex_iff)
qed

lemma deliver_step:
  assumes "deliver k ev s = Some (e, s')"
  shows "step s e s'"
proof -
  have k: "k < length (flights s)" using assms by (simp add: deliver_def split: if_split_asm)
  note sp = others_split [OF k]
  show ?thesis
  proof (cases "flights s ! k")
    case (VoteReq j c i args b)
    then show ?thesis using assms k step.vote [OF sp [unfolded VoteReq]]
      by (auto simp: deliver_def others_def Let_def split: if_split_asm bind_splits)
  next
    case (VoteRep i c j args reply b)
    then show ?thesis using assms k step.count [OF sp [unfolded VoteRep]]
      by (auto simp: deliver_def others_def Let_def split: if_split_asm bind_splits)
  next
    case (AppReq j c i args)
    then show ?thesis using assms k step.append [OF sp [unfolded AppReq]]
      by (auto simp: deliver_def others_def Let_def split: if_split_asm bind_splits)
  next
    case (AppRep i c j args reply)
    then show ?thesis using assms k step.ack [OF sp [unfolded AppRep]]
      by (auto simp: deliver_def others_def Let_def split: if_split_asm bind_splits)
  next
    case (SnapGo i c j)
    then show ?thesis using assms k step.snapgo [OF sp [unfolded SnapGo]]
      by (auto simp: deliver_def others_def Let_def split: if_split_asm)
  next
    case (SnapReq j c i args)
    then show ?thesis using assms k step.install [OF sp [unfolded SnapReq]]
      by (auto simp: deliver_def others_def Let_def split: if_split_asm bind_splits)
  next
    case (SnapRep i c j args reply)
    then show ?thesis using assms k step.installed [OF sp [unfolded SnapRep]]
      by (auto simp: deliver_def others_def Let_def split: if_split_asm bind_splits)
  next
    case (Sending i c ap msg)
    then show ?thesis using assms k step.send [OF sp [unfolded Sending]]
      by (auto simp: deliver_def others_def Let_def split: if_split_asm)
  qed
qed

lemma play_step:
  assumes "play m s = Some (e, s')"
  shows "step s e s'"
proof (cases m)
  case (MDeliver k ev)
  then show ?thesis using assms deliver_step by simp
next
  case (MLose k)
  then have k: "k < length (flights s)" "losable s (flights s ! k)" using assms by (simp_all split: if_split_asm)
  show ?thesis using step.lost [OF others_split [OF k(1)] k(2)] assms k MLose by (simp add: others_def)
next
  case (MRestart i ev)
  then obtain rf where "i < length (servers s)" "Make (peers (servers s ! i)) i (Copy (persister (servers s ! i))) ev = Some rf"
    "e = EvRestart i" "s' = s\<lparr>servers := (servers s)[i := rf], incs := (incs s)[i := incs s ! i + 1], applied := (applied s)[i := []]\<rparr>"
    using assms by (auto split: if_split_asm bind_splits)
  then show ?thesis using step.restart by simp
qed (use assms in \<open>auto simp: blocked_sending split: if_split_asm bind_splits intro: step.intros\<close>)

lemma plays_reach:
  "reach I step P s \<Longrightarrow> plays ms s = Some (es, s') \<Longrightarrow> list_all P es \<Longrightarrow> reach I step P s'"
proof (induction ms arbitrary: s es)
  case Nil
  then show ?case by simp
next
  case (Cons m ms)
  then obtain e s1 es1 where p: "play m s = Some (e, s1)" "plays ms s1 = Some (es1, s')" "es = e # es1"
    by (auto split: bind_splits)
  have "reach I step P s1" using reach_step [OF Cons.prems(1) play_step [OF p(1)]] Cons.prems(3) p(3) by simp
  then show ?case using Cons.IH p Cons.prems(3) by simp
qed

lemma boot_initial:
  assumes "boot ps ev = Some s"
  shows "initial ps s"
proof -
  obtain rfs where r: "those (map (\<lambda>i. Make ps i MakePersister ev) [0..<length ps]) = Some rfs"
    and s: "s = \<lparr>servers = rfs, incs = replicate (length ps) 0, ballots = [], flights = [],
           applied = replicate (length ps) [], elections = []\<rparr>"
    using assms by (auto simp: boot_def split: bind_splits)
  have m: "map (\<lambda>i. Make ps i MakePersister ev) [0..<length ps] = map Some rfs" by (rule those_eq_Some_D [OF r])
  then have l: "length ps = length rfs" using map_eq_imp_length_eq by fastforce
  have "Make ps i MakePersister ev = Some (rfs ! i)" if "i < length ps" for i
    using arg_cong [OF m, of "\<lambda>xs. xs ! i"] that l by simp
  then show ?thesis using l by (auto simp: initial_def s)
qed

theorem simulate_reachable:
  assumes "simulate ps ev ms = Some (es, s)" and "list_all P es"
  shows "reachable ps P s"
proof -
  obtain s0 where s0: "boot ps ev = Some s0" "plays ms s0 = Some (es, s)"
    using assms(1) by (auto simp: simulate_def split: bind_splits)
  have "reachable ps P s0" by (rule reach_init, rule boot_initial, rule s0)
  then show ?thesis using plays_reach s0(2) assms(2) by blast
qed

text \<open>A computed run that ends well proves that a state of that kind can be reached.\<close>

lemma simulate_ex:
  "(case simulate ps ev ms of None \<Rightarrow> False | Some (es, s) \<Rightarrow> list_all P es \<and> Q s) \<Longrightarrow> \<exists>s. reachable ps P s \<and> Q s"
proof -
  assume "case simulate ps ev ms of None \<Rightarrow> False | Some (es, s) \<Rightarrow> list_all P es \<and> Q s"
  then obtain es s where "simulate ps ev ms = Some (es, s)" "list_all P es" "Q s" by (auto split: option.splits)
  then show ?thesis using simulate_reachable by blast
qed

text \<open>Three servers, and two readings of the environment: the election timers are running (at boot),
  and they have expired.\<close>

definition three :: "string list" where
  "three = [''a'', ''b'', ''c'']"

definition early :: env where
  "early = \<lparr>now = 0, rnd = 0\<rparr>"

definition late :: env where
  "late = \<lparr>now = 1000000000, rnd = 0\<rparr>"

text \<open>Server 0 becomes the leader of term 1 with the vote of server 1.\<close>

definition elect_0 :: "move list" where
  "elect_0 = [MTick 0 late late, MDeliver 0 early, MDeliver 1 early]"

end
