(* ===== verification/Node_Properties.thy ===== *)
theory Node_Properties
  imports Cluster_Runs
begin

text \<open>
  The properties of a single server, one per operation of the code, stated for every server that
  satisfies the node invariant (which \<open>Cluster_Invariant\<close> shows of every server that can be
  reached). A witness applies each property to one of two sample servers: \<open>node_a\<close>, a leader
  of term 3 with three entries, and \<open>node_b\<close>, a follower whose log starts after index 2.
\<close>

section \<open>Sample servers\<close>

definition entry_1 :: Entry where
  "entry_1 = \<lparr>Command = IInt 11, e_Term = 1, e_Index = 1\<rparr>"

definition entry_2 :: Entry where
  "entry_2 = \<lparr>Command = IInt 12, e_Term = 1, e_Index = 2\<rparr>"

definition entry_3 :: Entry where
  "entry_3 = \<lparr>Command = IString ''x'', e_Term = 3, e_Index = 3\<rparr>"

definition entry_4 :: Entry where
  "entry_4 = \<lparr>Command = INil, e_Term = 3, e_Index = 4\<rparr>"

definition node_a :: Raft where
  "node_a = persist \<lparr>peers = three, persister = MakePersister, me = 0, dead = 0, state = Leader, heartBeat = 20 * millisecond,
     electionTime = 0, currentTerm = 3, votedFor = 0, log = \<lparr>Entries = [zeroEntry, entry_1, entry_2, entry_3], Index0 = 0\<rparr>,
     commitIndex = 1, lastApplied = 1, nextIndex = [4, 3, 1], matchIndex = [3, 2, 0], lastIncludeIndex = 0,
     lastIncludeTerm = 0, voteNum = 0, votedTimer = 0\<rparr>"

definition node_b :: Raft where
  "node_b = persist \<lparr>peers = three, persister = MakePersister, me = 1, dead = 0, state = Follower, heartBeat = 20 * millisecond,
     electionTime = 0, currentTerm = 3, votedFor = -1, log = \<lparr>Entries = [zeroEntry, entry_3, entry_4], Index0 = 0\<rparr>,
     commitIndex = 3, lastApplied = 2, nextIndex = [0, 0, 0], matchIndex = [0, 0, 0], lastIncludeIndex = 2,
     lastIncludeTerm = 1, voteNum = 0, votedTimer = 0\<rparr>"

lemma node_a_ok: "node_ok node_a"
  by code_simp

lemma node_b_ok: "node_ok node_b"
  by code_simp

definition request_b :: AppendEntriesArgs where
  "request_b = \<lparr>ae_Term = 3, LeaderId = 0, PrevLogIndex = 3, PrevLogTerm = 3, ae_Entries = [], LeaderCommit = 4\<rparr>"

section \<open>Persistence\<close>



text \<open>C21: A server that crashes and is made again from a copy of its persister has the term, the vote,
  the log and the snapshot it had; it is a follower with no commit index that has applied its
  snapshot and nothing else.\<close>

theorem crash_recovery:
  assumes "node_ok rf"
  shows "\<exists>rf'. Make (peers rf) (me rf) (Copy (persister rf)) ev = Some rf' \<and> node_ok rf' \<and>
    currentTerm rf' = currentTerm rf \<and> votedFor rf' = votedFor rf \<and> log rf' = log rf \<and>
    lastIncludeIndex rf' = lastIncludeIndex rf \<and> lastIncludeTerm rf' = lastIncludeTerm rf \<and>
    ReadSnapshot (persister rf') = ReadSnapshot (persister rf) \<and>
    state rf' = Follower \<and> commitIndex rf' = 0 \<and> lastApplied rf' = lastIncludeIndex rf"
proof -
  have "saved rf" using assms by (simp add: node_ok_def)
  then obtain rf' where mk: "Make (peers rf) (me rf) (persister rf) ev = Some rf'" and p: "persister rf' = persister rf"
    by (rule saved_Make)
  have mk': "Make (peers rf) (me rf) (Copy (persister rf)) ev = Some rf'" using mk by simp
  show ?thesis using mk' p restart_elim [OF assms mk'] by (simp add: node_step_def same_log_def)
qed

lemma crash_recovery_witness:
  "\<exists>rf'. Make (peers node_b) (me node_b) (Copy (persister node_b)) early = Some rf' \<and> node_ok rf' \<and>
    currentTerm rf' = currentTerm node_b \<and> votedFor rf' = votedFor node_b \<and> log rf' = log node_b \<and>
    lastIncludeIndex rf' = lastIncludeIndex node_b \<and> lastIncludeTerm rf' = lastIncludeTerm node_b \<and>
    ReadSnapshot (persister rf') = ReadSnapshot (persister node_b) \<and>
    state rf' = Follower \<and> commitIndex rf' = 0 \<and> lastApplied rf' = lastIncludeIndex node_b"
  by (rule crash_recovery [OF node_b_ok])

section \<open>The follower's handler\<close>

text \<open>C8: A request of the follower's term whose previous entry the follower has is stored: the log
  keeps everything up to that entry, then holds the entries sent and nothing else; the commit index
  follows the leader's, but not past the new end of the log; a candidate becomes a follower; and the
  result is persisted.\<close>

theorem AppendEntries_stores:
  assumes ok: "node_ok rf" and t: "ae_Term args = currentTerm rf" and p: "lastIncludeIndex rf \<le> PrevLogIndex args"
    and pt: "restoreLogTerm rf (PrevLogIndex args) = Some (PrevLogTerm args)" and num: "numbered (PrevLogIndex args) (ae_Entries args)"
  shows "\<exists>reply rf' acts. AppendEntries args ev rf = Some (reply, rf', acts) \<and> Success reply \<and> aer_Term reply = currentTerm rf \<and>
    node_ok rf' \<and> currentTerm rf' = currentTerm rf \<and> state rf' = (if state rf = Candidate then Follower else state rf) \<and>
    logmap rf' = (\<lambda>i. if i \<le> PrevLogIndex args then logmap rf i
      else if i \<le> PrevLogIndex args + int (length (ae_Entries args)) then Some (ae_Entries args ! nat (i - PrevLogIndex args - 1))
      else None) \<and>
    commitIndex rf' = (if commitIndex rf < LeaderCommit args
      then min (LeaderCommit args) (PrevLogIndex args + int (length (ae_Entries args))) else commitIndex rf)"
proof -
  have wi: "well_indexed rf" using ok by (simp add: node_ok_def)
  show ?thesis
  proof (rule AppendEntries_current [OF wi t, of ev])
    fix reply
    assume "\<not> (lastIncludeIndex rf \<le> PrevLogIndex args \<and> restoreLogTerm rf (PrevLogIndex args) = Some (PrevLogTerm args))"
    then show ?thesis using p pt by simp
  next
    fix reply
    assume r: "PrevLogIndex args \<le> getLastIndex rf" "reply = zeroAppendEntriesReply\<lparr>aer_Term := currentTerm rf, Success := True\<rparr>"
      "AppendEntries args ev rf = Some (reply, stored args ev rf, if commitIndex rf < LeaderCommit args then [ApplyBroadcast] else [])"
    show ?thesis
      using r stored_node_ok [OF ok p r(1) num, of ev] stored_logmap [OF wi p r(1), of ev] stored_commitIndex [OF p r(1), of ev]
      by (simp add: stored_fields fun_eq_iff)
  qed
qed

lemma AppendEntries_stores_witness:
  "\<exists>reply rf' acts. AppendEntries request_b early node_b = Some (reply, rf', acts) \<and> Success reply \<and> aer_Term reply = currentTerm node_b \<and>
    node_ok rf' \<and> currentTerm rf' = currentTerm node_b \<and> state rf' = (if state node_b = Candidate then Follower else state node_b) \<and>
    logmap rf' = (\<lambda>i. if i \<le> PrevLogIndex request_b then logmap node_b i
      else if i \<le> PrevLogIndex request_b + int (length (ae_Entries request_b)) then Some (ae_Entries request_b ! nat (i - PrevLogIndex request_b - 1))
      else None) \<and>
    commitIndex rf' = (if commitIndex node_b < LeaderCommit request_b
      then min (LeaderCommit request_b) (PrevLogIndex request_b + int (length (ae_Entries request_b))) else commitIndex node_b)"
  by (rule AppendEntries_stores [OF node_b_ok]) code_simp+

text \<open>C9: A request of the follower's term whose previous entry the follower lacks or holds with another
  term is rejected and the log stays. The reply says which: \<open>XTerm = -1\<close> and the last index, or the
  conflicting term and the first index of that term (0 when the whole log has it).\<close>

theorem AppendEntries_rejects:
  assumes ok: "node_ok rf" and t: "ae_Term args = currentTerm rf" and p: "lastIncludeIndex rf \<le> PrevLogIndex args"
    and pt: "restoreLogTerm rf (PrevLogIndex args) \<noteq> Some (PrevLogTerm args)"
  shows "\<exists>reply rf'. AppendEntries args ev rf = Some (reply, rf', []) \<and> \<not> Success reply \<and> Conflict reply \<and>
    node_ok rf' \<and> same_log rf rf' \<and> commitIndex rf' = commitIndex rf \<and> XLen reply = getLastIndex rf \<and>
    (if getLastIndex rf < PrevLogIndex args then XTerm reply = -1
     else term_is rf (PrevLogIndex args) (XTerm reply) \<and>
       (if XIndex reply = 0 then \<forall>k. lastIncludeIndex rf \<le> k \<longrightarrow> k \<le> PrevLogIndex args \<longrightarrow> term_is rf k (XTerm reply)
        else lastIncludeIndex rf < XIndex reply \<and> XIndex reply \<le> PrevLogIndex args \<and>
          (\<forall>k. XIndex reply \<le> k \<longrightarrow> k \<le> PrevLogIndex args \<longrightarrow> term_is rf k (XTerm reply)) \<and>
          (\<exists>u. u \<noteq> XTerm reply \<and> term_is rf (XIndex reply - 1) u)))"
proof -
  have wi: "well_indexed rf" using ok by (simp add: node_ok_def)
  show ?thesis
  proof (rule AppendEntries_current [OF wi t, of ev])
    fix reply
    assume r: "AppendEntries args ev rf = Some (reply, heard ev rf, [])" "rejection args rf reply"
    have "node_ok (heard ev rf)" "same_log rf (heard ev rf)" "commitIndex (heard ev rf) = commitIndex rf"
      using heard_node_ok [OF ok] by (simp_all add: same_log_def heard_eq)
    moreover have "if XIndex reply = 0 then \<forall>k. lastIncludeIndex rf \<le> k \<longrightarrow> k \<le> PrevLogIndex args \<longrightarrow> term_is rf k (XTerm reply)
        else lastIncludeIndex rf < XIndex reply \<and> XIndex reply \<le> PrevLogIndex args \<and>
          (\<forall>k. XIndex reply \<le> k \<longrightarrow> k \<le> PrevLogIndex args \<longrightarrow> term_is rf k (XTerm reply)) \<and>
          (\<exists>u. u \<noteq> XTerm reply \<and> term_is rf (XIndex reply - 1) u)" if "PrevLogIndex args \<le> getLastIndex rf"
      using AppendEntries_xIndex_spec [OF wi p that, of "XTerm reply"] r(2) p that by (auto simp: rejection_def)
    ultimately show ?thesis using r p by (auto simp: rejection_def split: if_split_asm)
  next
    assume "restoreLogTerm rf (PrevLogIndex args) = Some (PrevLogTerm args)"
    then show ?thesis using pt by simp
  qed
qed

definition request_c :: AppendEntriesArgs where
  "request_c = \<lparr>ae_Term = 3, LeaderId = 2, PrevLogIndex = 4, PrevLogTerm = 2, ae_Entries = [], LeaderCommit = 4\<rparr>"

lemma AppendEntries_rejects_witness:
  "\<exists>reply rf'. AppendEntries request_c early node_b = Some (reply, rf', []) \<and> \<not> Success reply \<and> Conflict reply \<and>
    node_ok rf' \<and> same_log node_b rf' \<and> commitIndex rf' = commitIndex node_b \<and> XLen reply = getLastIndex node_b \<and>
    (if getLastIndex node_b < PrevLogIndex request_c then XTerm reply = -1
     else term_is node_b (PrevLogIndex request_c) (XTerm reply) \<and>
       (if XIndex reply = 0 then \<forall>k. lastIncludeIndex node_b \<le> k \<longrightarrow> k \<le> PrevLogIndex request_c \<longrightarrow> term_is node_b k (XTerm reply)
        else lastIncludeIndex node_b < XIndex reply \<and> XIndex reply \<le> PrevLogIndex request_c \<and>
          (\<forall>k. XIndex reply \<le> k \<longrightarrow> k \<le> PrevLogIndex request_c \<longrightarrow> term_is node_b k (XTerm reply)) \<and>
          (\<exists>u. u \<noteq> XTerm reply \<and> term_is node_b (XIndex reply - 1) u)))"
  by (rule AppendEntries_rejects [OF node_b_ok]) code_simp+

text \<open>C10: A request of another term stores nothing. A newer term is adopted, but the request is refused
  even when its previous entry matches; an older one changes nothing. Either way the reply carries
  the term the server had before.\<close>

theorem AppendEntries_other_term:
  assumes "ae_Term args \<noteq> currentTerm rf" and "node_ok rf"
  shows "\<exists>reply rf'. AppendEntries args ev rf = Some (reply, rf', []) \<and> \<not> Success reply \<and> aer_Term reply = currentTerm rf \<and>
    node_ok rf' \<and> same_log rf rf' \<and> currentTerm rf' = max (currentTerm rf) (ae_Term args) \<and>
    (if currentTerm rf < ae_Term args then votedFor rf' = -1 \<and> state rf' = Follower else rf' = rf)"
proof (cases "currentTerm rf < ae_Term args")
  case True
  show ?thesis
    using AppendEntries_newer [OF True, of ev] setNewTerm_node_ok [OF assms(2) True] setNewTerm_fields [OF True]
    by (simp add: zeroAppendEntriesReply_def same_log_def True)
next
  case False
  then have "ae_Term args < currentTerm rf" using assms(1) by simp
  from AppendEntries_stale [OF this, of ev] show ?thesis
    using False assms(2) by (simp add: zeroAppendEntriesReply_def same_log_def)
qed

definition request_d :: AppendEntriesArgs where
  "request_d = \<lparr>ae_Term = 5, LeaderId = 2, PrevLogIndex = 4, PrevLogTerm = 3, ae_Entries = [], LeaderCommit = 4\<rparr>"

lemma AppendEntries_other_term_witness:
  "\<exists>reply rf'. AppendEntries request_d early node_b = Some (reply, rf', []) \<and> \<not> Success reply \<and> aer_Term reply = currentTerm node_b \<and>
    node_ok rf' \<and> same_log node_b rf' \<and> currentTerm rf' = max (currentTerm node_b) (ae_Term request_d) \<and>
    (if currentTerm node_b < ae_Term request_d then votedFor rf' = -1 \<and> state rf' = Follower else rf' = node_b)"
  by (rule AppendEntries_other_term [OF _ node_b_ok]) code_simp

section \<open>The leader's rounds\<close>

text \<open>C17: A round of \<open>appendEntries\<close> never panics, changes nothing but the election timer, and every
  RPC it starts is well formed: to another server, with the leader's term and commit index, a
  previous entry the leader has, its term, and exactly the entries after it; or a snapshot, for a
  peer whose next index the log no longer holds.\<close>

theorem appendEntries_sends:
  assumes "node_ok rf"
  shows "\<exists>t acts. appendEntries heartbeat ev rf = Some (rf\<lparr>electionTime := t\<rparr>, acts) \<and> (\<forall>a \<in> set acts. sent_ok rf a)"
proof -
  have "well_indexed rf" "sized rf" using assms by (simp_all add: node_ok_def)
  then show ?thesis by (rule appendEntries_spec) blast
qed

lemma appendEntries_sends_witness:
  "\<exists>t acts. appendEntries True early node_a = Some (node_a\<lparr>electionTime := t\<rparr>, acts) \<and> (\<forall>a \<in> set acts. sent_ok node_a a)"
  by (rule appendEntries_sends [OF node_a_ok])

text \<open>C18: When no peer needs a snapshot, a heartbeat goes to every other server, in order, and the
  leader's own election timer is reset.\<close>

theorem heartbeat_reaches_all:
  assumes "node_ok rf" and "\<forall>p < length (peers rf). p \<noteq> me rf \<longrightarrow> lastIncludeIndex rf < nextIndex rf ! p"
  shows "\<exists>acts. appendEntries True ev rf = Some (resetElectionTimer ev rf, acts) \<and>
    map target acts = map Some (filter (\<lambda>p. p \<noteq> me rf) [0..<length (peers rf)])"
proof -
  have wi: "well_indexed rf" "sized rf" using assms(1) by (simp_all add: node_ok_def)
  obtain l where l: "lastLog (log rf) = Some l" using lastLog_Some [OF wi(1)] by blast
  have "me rf \<in> set [0..<length (peers rf)]" using wi(2) by (simp add: sized_def)
  moreover have "set [0..<length (peers rf)] \<subseteq> {..<length (peers rf)}" by auto
  ultimately show ?thesis
    using appendEntries_peers_heartbeat [OF wi l, of "[0..<length (peers rf)]" ev] assms(2) by (simp add: appendEntries_def l)
qed

lemma heartbeat_reaches_all_witness:
  "\<exists>acts. appendEntries True late node_a = Some (resetElectionTimer late node_a, acts) \<and>
    map target acts = map Some (filter (\<lambda>p. p \<noteq> me node_a) [0..<length (peers node_a)])"
  by (rule heartbeat_reaches_all [OF node_a_ok]) code_simp

text \<open>C19: A peer that needs a snapshot ends the round: no peer with a higher number is served, and when
  the leader's own number is higher too its election timer is not reset, so the leader will stand
  for election against itself.\<close>

theorem snapshot_peer_ends_round:
  assumes "node_ok rf" and "q < length (peers rf)" and "q \<noteq> me rf" and "nextIndex rf ! q \<le> lastIncludeIndex rf"
  shows "\<exists>rf' acts. appendEntries heartbeat ev rf = Some (rf', acts) \<and>
    target ` set acts \<subseteq> Some ` {..q} \<and> (q < me rf \<longrightarrow> rf' = rf)"
  using assms appendEntries_stops [of rf q heartbeat ev] by (simp add: node_ok_def)

lemma snapshot_peer_ends_round_witness:
  "\<exists>rf' acts. appendEntries True late node_b = Some (rf', acts) \<and>
    target ` set acts \<subseteq> Some ` {..0} \<and> (0 < me node_b \<longrightarrow> rf' = node_b)"
  by (rule snapshot_peer_ends_round [OF node_b_ok]) code_simp+

lemma terms_sorted:
  assumes "sorted (map e_Term (tl (Entries (log rf))))"
    and "lastIncludeIndex rf < i" and "i \<le> j" and "term_is rf i t" and "term_is rf j u"
  shows "t \<le> u"
proof -
  have at: "nat (k - lastIncludeIndex rf) - 1 < length (tl (Entries (log rf))) \<and>
      v = map e_Term (tl (Entries (log rf))) ! (nat (k - lastIncludeIndex rf) - 1)"
    if "term_is rf k v" "lastIncludeIndex rf < k" for k v
    using that by (cases "Entries (log rf)")
      (auto simp: restoreLogTerm_def log_at_def go_nth_eq_Some nth_Cons' split: bind_splits)
  show ?thesis
    using at [OF assms(4,2)] at [OF assms(5)] sorted_nth_mono [OF assms(1), of "nat (i - lastIncludeIndex rf) - 1" "nat (j - lastIncludeIndex rf) - 1"]
      assms(2,3) by auto
qed

text \<open>C20: \<open>findLastLogInTerm\<close> finds the last entry of the term when the terms of the log do not decrease;
  in general it stops at the first smaller term from the end, and answers -1.\<close>

theorem findLastLogInTerm_finds:
  assumes "well_indexed rf"
    and "sorted (map e_Term (tl (Entries (log rf))))"
  shows "\<exists>r. findLastLogInTerm rf x = Some r \<and>
    (if r = -1 then \<forall>k. lastIncludeIndex rf < k \<longrightarrow> k \<le> getLastIndex rf \<longrightarrow> \<not> term_is rf k x
     else lastIncludeIndex rf < r \<and> r \<le> getLastIndex rf \<and> term_is rf r x \<and>
          (\<forall>k. r < k \<longrightarrow> k \<le> getLastIndex rf \<longrightarrow> \<not> term_is rf k x))"
proof -
  have sorted: "t \<le> u" if "lastIncludeIndex rf < i" "i \<le> j" "term_is rf i t" "term_is rf j u" for i j t u
    using terms_sorted [OF assms(2) that] .
  obtain r where r: "findLastLogInTerm rf x = Some r"
    "if r = -1 then \<exists>j \<ge> lastIncludeIndex rf. j \<le> getLastIndex rf \<and> (\<forall>k. j < k \<longrightarrow> k \<le> getLastIndex rf \<longrightarrow> (\<exists>t > x. term_is rf k t)) \<and>
         (j = lastIncludeIndex rf \<or> (\<exists>t < x. term_is rf j t))
      else lastIncludeIndex rf < r \<and> r \<le> getLastIndex rf \<and> term_is rf r x \<and> (\<forall>k. r < k \<longrightarrow> k \<le> getLastIndex rf \<longrightarrow> (\<exists>t > x. term_is rf k t))"
    using findLastLogInTerm_loop_spec [OF assms(1) lastIncludeIndex_le_getLastIndex [OF assms(1)], of x]
    by (auto simp: findLastLogInTerm_def)
  show ?thesis
  proof (cases "r = -1")
    case False
    then show ?thesis using r by auto
  next
    case True
    then obtain j where j: "\<forall>k. j < k \<longrightarrow> k \<le> getLastIndex rf \<longrightarrow> (\<exists>t > x. term_is rf k t)"
      "j = lastIncludeIndex rf \<or> (\<exists>t < x. term_is rf j t)" using r(2) by auto
    have "\<not> term_is rf k x" if k: "lastIncludeIndex rf < k" "k \<le> getLastIndex rf" for k
    proof
      assume kx: "term_is rf k x"
      then have "k \<le> j" using j(1) k by force
      moreover then obtain t where "t < x" "term_is rf j t" using j(2) k(1) by auto
      ultimately show False using sorted [OF k(1) _ kx] by force
    qed
    then show ?thesis using True r(1) by auto
  qed
qed


lemma findLastLogInTerm_finds_witness:
  "\<exists>r. findLastLogInTerm node_a 1 = Some r \<and>
    (if r = -1 then \<forall>k. lastIncludeIndex node_a < k \<longrightarrow> k \<le> getLastIndex node_a \<longrightarrow> \<not> term_is node_a k 1
     else lastIncludeIndex node_a < r \<and> r \<le> getLastIndex node_a \<and> term_is node_a r 1 \<and>
          (\<forall>k. r < k \<longrightarrow> k \<le> getLastIndex node_a \<longrightarrow> \<not> term_is node_a k 1))"
  by (rule findLastLogInTerm_finds) code_simp+

section \<open>Counting acknowledgements\<close>

lemma sorted_le_last: "sorted xs \<Longrightarrow> x \<in> set xs \<Longrightarrow> x \<le> last (xs :: int list)"
  by (induction xs) auto

text \<open>C14: The commit rule, with its early exits, moves a leader's commit index to the greatest index of
  the log above it that a majority (the leader and the peers whose match index reaches it) has, and
  leaves it when there is none; any other server it leaves alone.\<close>

theorem leaderCommitRule_greatest:
  assumes "sized rf"
  shows "\<exists>c acts. leaderCommitRule rf = Some (rf\<lparr>commitIndex := c\<rparr>, acts) \<and>
    (if state rf = Leader \<and> (\<exists>n. commitIndex rf < n \<and> n \<le> getLastIndex rf \<and> committable rf n)
     then commitIndex rf < c \<and> c \<le> getLastIndex rf \<and> committable rf c \<and>
          (\<forall>n. c < n \<longrightarrow> n \<le> getLastIndex rf \<longrightarrow> \<not> committable rf n) \<and> ApplyBroadcast \<in> set acts
     else c = commitIndex rf \<and> acts = [])"
proof -
  define ks where "ks = filter (committable rf) [commitIndex rf + 1..getLastIndex rf]"
  have eq: "leaderCommitRule rf = (if state rf = Leader then Some (rf\<lparr>commitIndex := last (commitIndex rf # ks)\<rparr>, replicate (length ks) ApplyBroadcast) else Some (rf, []))"
    using leaderCommitRule_eq [OF assms] by (simp add: Let_def ks_def)
  have mem: "n \<in> set ks \<longleftrightarrow> commitIndex rf < n \<and> n \<le> getLastIndex rf \<and> committable rf n" for n by (auto simp: ks_def)
  have "sorted ks" unfolding ks_def by (rule sorted_filter [where f = id, simplified]) simp
  note mx = sorted_le_last [OF this]
  consider "state rf \<noteq> Leader" | "ks = []" | "state rf = Leader" "ks \<noteq> []" by blast
  then show ?thesis
  proof cases
    case 1
    then show ?thesis using eq by (intro exI [of _ "commitIndex rf"] exI [of _ "[]"]) simp
  next
    case 2
    then have "\<not> (\<exists>n. commitIndex rf < n \<and> n \<le> getLastIndex rf \<and> committable rf n)" using mem by auto
    then show ?thesis using eq 2 by (intro exI [of _ "commitIndex rf"] exI [of _ "[]"]) simp
  next
    case 3
    define c where "c = last ks"
    have "c \<in> set ks" using 3 by (simp add: c_def)
    then have c: "commitIndex rf < c" "c \<le> getLastIndex rf" "committable rf c" using mem by simp_all
    have "\<not> committable rf n" if "c < n" "n \<le> getLastIndex rf" for n
      using mx [of n] mem [of n] that c(1) by (auto simp: c_def)
    moreover have "leaderCommitRule rf = Some (rf\<lparr>commitIndex := c\<rparr>, replicate (length ks) ApplyBroadcast)"
      using 3 eq by (simp add: c_def)
    moreover have "ApplyBroadcast \<in> set (replicate (length ks) ApplyBroadcast)" using 3 by simp
    ultimately show ?thesis using 3 c by (intro exI [of _ c] exI [of _ "replicate (length ks) ApplyBroadcast"]) auto
  qed
qed

lemma node_a_sized: "sized node_a"
  by code_simp

lemma leaderCommitRule_greatest_witness:
  "\<exists>c acts. leaderCommitRule node_a = Some (node_a\<lparr>commitIndex := c\<rparr>, acts) \<and>
    (if state node_a = Leader \<and> (\<exists>n. commitIndex node_a < n \<and> n \<le> getLastIndex node_a \<and> committable node_a n)
     then commitIndex node_a < c \<and> c \<le> getLastIndex node_a \<and> committable node_a c \<and>
          (\<forall>n. c < n \<longrightarrow> n \<le> getLastIndex node_a \<longrightarrow> \<not> committable node_a n) \<and> ApplyBroadcast \<in> set acts
     else c = commitIndex node_a \<and> acts = [])"
  by (rule leaderCommitRule_greatest [OF node_a_sized])


text \<open>C16: A reply of success to a request of the current term raises the peer's match index to the last
  entry that was sent and its next index past it, never lowers them, touches no other peer, and runs
  the commit rule.\<close>

theorem leaderSendEntries_success:
  assumes "node_ok rf" and "p < length (peers rf)" and "ae_Term args = currentTerm rf" and "aer_Term reply \<le> currentTerm rf"
    and "Success reply"
  shows "\<exists>rf' acts. leaderSendEntries p args reply rf = Some (rf', acts) \<and> node_ok rf' \<and> same_log rf rf' \<and>
    (let match = PrevLogIndex args + int (length (ae_Entries args)) in
       matchIndex rf' = (matchIndex rf)[p := max (matchIndex rf ! p) match] \<and>
       nextIndex rf' = (nextIndex rf)[p := max (nextIndex rf ! p) (match + 1)] \<and>
       leaderCommitRule (rf\<lparr>nextIndex := nextIndex rf', matchIndex := matchIndex rf'\<rparr>) = Some (rf', acts))"
proof -
  let ?m = "PrevLogIndex args + int (length (ae_Entries args))"
  let ?rf = "rf\<lparr>nextIndex := (nextIndex rf)[p := max (nextIndex rf ! p) (?m + 1)], matchIndex := (matchIndex rf)[p := max (matchIndex rf ! p) ?m]\<rparr>"
  have sz: "sized rf" and len: "p < length (nextIndex rf)" "p < length (matchIndex rf)"
    using assms(1,2) by (simp_all add: node_ok_def sized_def)
  have szr: "sized ?rf" using sz by (simp add: sized_def)
  have eq: "leaderSendEntries p args reply rf = leaderCommitRule ?rf"
    using assms(3-5) len by (simp add: leaderSendEntries_def go_simps Let_def)
  obtain c acts where "leaderCommitRule ?rf = Some (?rf\<lparr>commitIndex := c\<rparr>, acts)" by (rule leaderCommitRule_shape [OF szr])
  then show ?thesis
    using eq leaderSendEntries_keeps(1,3) [OF assms(1,2), of args reply] by (simp add: Let_def)
qed

definition ack_a :: AppendEntriesReply where
  "ack_a = zeroAppendEntriesReply\<lparr>aer_Term := 3, Success := True\<rparr>"

definition request_a :: AppendEntriesArgs where
  "request_a = \<lparr>ae_Term = 3, LeaderId = 0, PrevLogIndex = 2, PrevLogTerm = 1, ae_Entries = [entry_3], LeaderCommit = 1\<rparr>"

lemma leaderSendEntries_success_witness:
  "\<exists>rf' acts. leaderSendEntries 1 request_a ack_a node_a = Some (rf', acts) \<and> node_ok rf' \<and> same_log node_a rf' \<and>
    (let match = PrevLogIndex request_a + int (length (ae_Entries request_a)) in
       matchIndex rf' = (matchIndex node_a)[1 := max (matchIndex node_a ! 1) match] \<and>
       nextIndex rf' = (nextIndex node_a)[1 := max (nextIndex node_a ! 1) (match + 1)] \<and>
       leaderCommitRule (node_a\<lparr>nextIndex := nextIndex rf', matchIndex := matchIndex rf'\<rparr>) = Some (rf', acts))"
  by (rule leaderSendEntries_success [OF node_a_ok]) code_simp+

section \<open>Elections\<close>

text \<open>C11: A vote request is granted exactly when its term is not old, the candidate's last entry is at
  least as recent as the voter's in the order of \<open>LogPos\<close>, and the voter has not voted for another
  candidate in that term. A granted vote is in the voter's persisted state before the reply exists:
  a restart at that moment remembers it.\<close>

theorem RequestVote_grants_and_remembers:
  assumes "node_ok rf"
  shows "\<exists>reply rf'. RequestVote args ev rf = Some (reply, rf') \<and> node_ok rf' \<and>
    VoteGranted reply = grants args rf \<and> rvr_Term reply = max (currentTerm rf) (rv_Term args) \<and>
    currentTerm rf' = max (currentTerm rf) (rv_Term args) \<and>
    (grants args rf \<longrightarrow> votedFor rf' = CandidateId args \<and>
       (\<exists>again. Make (peers rf') (me rf') (Copy (persister rf')) ev = Some again \<and>
          currentTerm again = rv_Term args \<and> votedFor again = CandidateId args))"
proof -
  have wi: "well_indexed rf" using assms by (simp add: node_ok_def)
  obtain reply rf' where r: "RequestVote args ev rf = Some (reply, rf')"
    using RequestVote_total [OF assms, of args ev] by auto
  have ok: "node_ok rf'" by (rule RequestVote_keeps(1) [OF assms r])
  then have sv: "saved rf'" by (simp add: node_ok_def)
  obtain again where again: "Make (peers rf') (me rf') (persister rf') ev = Some again"
    "currentTerm again = currentTerm rf'" "votedFor again = votedFor rf'"
    by (rule saved_Make [OF sv, where ev = ev and ps = "peers rf'" and i = "me rf'"]) blast
  have f: "VoteGranted reply = grants args rf" "rvr_Term reply = max (currentTerm rf) (rv_Term args)"
    "currentTerm rf' = max (currentTerm rf) (rv_Term args)" "grants args rf \<longrightarrow> votedFor rf' = CandidateId args"
    using r by (auto simp: RequestVote_eq [OF wi] joined_fields resetElectionTimer_eq grants_def split: if_split_asm)
  moreover have "grants args rf \<longrightarrow> currentTerm rf' = rv_Term args" using f(3) by (auto simp: grants_def)
  ultimately show ?thesis using r ok again by auto
qed

definition ask_b :: RequestVoteArgs where
  "ask_b = \<lparr>rv_Term = 4, CandidateId = 2, LastLogIndex = 4, LastLogTerm = 3\<rparr>"

lemma RequestVote_grants_and_remembers_witness:
  "\<exists>reply rf'. RequestVote ask_b early node_b = Some (reply, rf') \<and> node_ok rf' \<and>
    VoteGranted reply = grants ask_b node_b \<and> rvr_Term reply = max (currentTerm node_b) (rv_Term ask_b) \<and>
    currentTerm rf' = max (currentTerm node_b) (rv_Term ask_b) \<and>
    (grants ask_b node_b \<longrightarrow> votedFor rf' = CandidateId ask_b \<and>
       (\<exists>again. Make (peers rf') (me rf') (Copy (persister rf')) early = Some again \<and>
          currentTerm again = rv_Term ask_b \<and> votedFor again = CandidateId ask_b))"
  by (rule RequestVote_grants_and_remembers [OF node_b_ok])

text \<open>C27: A server whose log has been compacted to nothing forgets how recent it is: its last entry reads
  as index 0 of term 0, so it votes for a candidate whose log is empty, whatever the snapshot holds.\<close>

theorem compacted_voter_grants_to_empty_log:
  assumes "node_ok rf" and "length (Entries (log rf)) = 1" and "currentTerm rf < rv_Term args"
    and "0 \<le> LastLogTerm args" and "0 \<le> LastLogIndex args"
  shows "\<exists>rf'. RequestVote args ev rf = Some (\<lparr>rvr_Term = rv_Term args, VoteGranted = True\<rparr>, rf') \<and>
    lastIncludeIndex rf' = lastIncludeIndex rf \<and> lastIncludeTerm rf' = lastIncludeTerm rf"
proof -
  have wi: "well_indexed rf" using assms(1) by (simp add: node_ok_def)
  then have "lastPos rf = LogPos 0 0" using assms(2)
    by (simp add: lastPos_def lastLog_def log_at_def log_len_def go_nth_def well_indexed_def)
  then have "grants args rf" using assms(3-5) by (auto simp: grants_def askedPos_def less_eq_LogPos_def)
  then show ?thesis by (simp add: RequestVote_eq [OF wi] resetElectionTimer_eq joined_fields)
qed

definition node_c :: Raft where
  "node_c = persist (node_b\<lparr>log := \<lparr>Entries = [zeroEntry], Index0 = 0\<rparr>, lastIncludeIndex := 4, lastIncludeTerm := 3, commitIndex := 4, lastApplied := 4\<rparr>)"

definition ask_c :: RequestVoteArgs where
  "ask_c = \<lparr>rv_Term = 4, CandidateId = 2, LastLogIndex = 0, LastLogTerm = 0\<rparr>"

lemma compacted_voter_grants_to_empty_log_witness:
  "\<exists>rf'. RequestVote ask_c early node_c = Some (\<lparr>rvr_Term = rv_Term ask_c, VoteGranted = True\<rparr>, rf') \<and>
    lastIncludeIndex rf' = lastIncludeIndex node_c \<and> lastIncludeTerm rf' = lastIncludeTerm node_c"
  by (rule compacted_voter_grants_to_empty_log) code_simp+

text \<open>C13: Starting an election moves the server to the next term as a candidate that has voted for itself,
  persists that, and asks every other server once, with the position of its last entry.\<close>

theorem leaderElection_asks_everyone:
  assumes "node_ok rf"
  shows "\<exists>rf' acts. leaderElection ev rf = Some (rf', acts) \<and> node_ok rf' \<and> same_log rf rf' \<and> state rf' = Candidate \<and>
    currentTerm rf' = currentTerm rf + 1 \<and> votedFor rf' = int (me rf) \<and>
    map target acts = map Some (filter (\<lambda>p. p \<noteq> me rf) [0..<length (peers rf)]) \<and>
    (\<forall>p args. GoRequestVote p args \<in> set acts \<longrightarrow>
       rv_Term args = currentTerm rf' \<and> CandidateId args = int (me rf) \<and> askedPos args = lastPos rf)"
proof -
  have wi: "well_indexed rf" using assms by (simp add: node_ok_def)
  show ?thesis
  proof (rule leaderElection_eq [OF wi, of ev])
    fix e :: Entry and t
    let ?rf = "(persist (rf\<lparr>currentTerm := currentTerm rf + 1, state := Candidate, votedFor := int (me rf)\<rparr>))\<lparr>electionTime := t\<rparr>"
    let ?args = "\<lparr>rv_Term = currentTerm rf + 1, CandidateId = int (me rf), LastLogIndex = e_Index e, LastLogTerm = e_Term e\<rparr>"
    let ?acts = "map (\<lambda>s. GoRequestVote s ?args) (filter (\<lambda>s. s \<noteq> me rf) [0..<length (peers rf)])"
    assume e: "lastLog (log rf) = Some e" "leaderElection ev rf = Some (?rf, ?acts)"
    note k = leaderElection_keeps [OF assms e(2)]
    have "map target ?acts = map Some (filter (\<lambda>p. p \<noteq> me rf) [0..<length (peers rf)])" by simp
    moreover have "askedPos ?args = lastPos rf" by (simp add: askedPos_def lastPos_def e(1))
    moreover have "\<forall>p args. GoRequestVote p args \<in> set ?acts \<longrightarrow> args = ?args" by auto
    ultimately show ?thesis using e(2) k(1,2,5-7) by (intro exI [of _ ?rf] exI [of _ ?acts]) auto
  qed
qed

lemma leaderElection_asks_everyone_witness:
  "\<exists>rf' acts. leaderElection early node_b = Some (rf', acts) \<and> node_ok rf' \<and> same_log node_b rf' \<and> state rf' = Candidate \<and>
    currentTerm rf' = currentTerm node_b + 1 \<and> votedFor rf' = int (me node_b) \<and>
    map target acts = map Some (filter (\<lambda>p. p \<noteq> me node_b) [0..<length (peers node_b)]) \<and>
    (\<forall>p args. GoRequestVote p args \<in> set acts \<longrightarrow>
       rv_Term args = currentTerm rf' \<and> CandidateId args = int (me node_b) \<and> askedPos args = lastPos node_b)"
  by (rule leaderElection_asks_everyone [OF node_b_ok])


text \<open>C12: A candidate turns leader exactly when a granted vote of its current term lifts its counter above
  half of the cluster and no vote has done so before; it then sets every next index past its last
  entry, every match index but its own to 0, and sends a round of heartbeats. In every other case of
  a reply of its own term it stays as it is.\<close>

theorem candidate_wins_by_majority:
  assumes "node_ok rf" and "rvr_Term reply = rv_Term args" and e: "lastLog (log rf) = Some e"
  shows "\<exists>b' rf' acts. candidateRequestVote args reply b ev rf = Some (b', rf', acts) \<and>
    voteCounter b' = voteCounter b + (if VoteGranted reply then 1 else 0) \<and>
    (if wins args reply b rf
     then onceDone b' \<and> state rf' = Leader \<and> currentTerm rf' = currentTerm rf \<and> same_log rf rf' \<and>
          nextIndex rf' = replicate (length (peers rf)) (e_Index e + 1) \<and>
          matchIndex rf' = (replicate (length (peers rf)) 0)[me rf := e_Index e] \<and>
          appendEntries True ev (freshLeader (e_Index e) rf) = Some (rf', acts)
     else onceDone b' = onceDone b \<and> rf' = rf \<and> acts = [])"
proof -
  have sz: "sized rf" using assms(1) by (simp add: node_ok_def)
  obtain b' rf' acts where r: "candidateRequestVote args reply b ev rf = Some (b', rf', acts)"
    using candidateRequestVote_total [OF assms(1), of args reply b ev] by auto
  then show ?thesis
  proof (cases rule: candidateRequestVote_elim)
    case newer
    then show ?thesis using assms(2) by simp
  next
    case refused
    then show ?thesis using r assms(2) by (auto simp: wins_def)
  next
    case counted
    then show ?thesis using r by simp
  next
    case elected
    have ae: "appendEntries True ev (freshLeader (e_Index e) rf) = Some (rf', acts)"
      using elected(3) becomeLeader_eq [OF sz e] by simp
    note k = appendEntries_keeps [OF freshLeader_node_ok [OF assms(1)] ae]
    have "VoteGranted reply" using elected(1) by (simp add: wins_def)
    then show ?thesis using r elected ae k(3,4,6,8,9) by (simp add: freshLeader_def same_log_def)
  qed
qed

definition node_d :: Raft where
  "node_d = persist (node_a\<lparr>state := Candidate\<rparr>)"

definition ask_d :: RequestVoteArgs where
  "ask_d = \<lparr>rv_Term = 3, CandidateId = 0, LastLogIndex = 3, LastLogTerm = 3\<rparr>"

definition yes_d :: RequestVoteReply where
  "yes_d = \<lparr>rvr_Term = 3, VoteGranted = True\<rparr>"

lemma candidate_wins_by_majority_witness:
  "\<exists>b' rf' acts. candidateRequestVote ask_d yes_d newBallot early node_d = Some (b', rf', acts) \<and>
    voteCounter b' = voteCounter newBallot + (if VoteGranted yes_d then 1 else 0) \<and>
    (if wins ask_d yes_d newBallot node_d
     then onceDone b' \<and> state rf' = Leader \<and> currentTerm rf' = currentTerm node_d \<and> same_log node_d rf' \<and>
          nextIndex rf' = replicate (length (peers node_d)) (e_Index entry_3 + 1) \<and>
          matchIndex rf' = (replicate (length (peers node_d)) 0)[me node_d := e_Index entry_3] \<and>
          appendEntries True early (freshLeader (e_Index entry_3) node_d) = Some (rf', acts)
     else onceDone b' = onceDone newBallot \<and> rf' = node_d \<and> acts = [])"
  by (rule candidate_wins_by_majority) code_simp+

section \<open>Snapshots\<close>

text \<open>C23: A snapshot up to an index that is committed, newer than the last snapshot and in the log
  restricts the log to the entries after it, records the index and its term, keeps the end of the
  log, and stores state and snapshot together.\<close>

theorem Snapshot_restricts_log:
  assumes ok: "node_ok rf" and g: "\<not> killed rf" "lastIncludeIndex rf < index" "index \<le> commitIndex rf" "index \<le> getLastIndex rf"
  shows "\<exists>rf'. Snapshot index snap rf = Some rf' \<and> node_ok rf' \<and> lastIncludeIndex rf' = index \<and>
    restoreLogTerm rf index = Some (lastIncludeTerm rf') \<and> logmap rf' = logmap rf |` {index<..} \<and>
    getLastIndex rf' = getLastIndex rf \<and> ReadSnapshot (persister rf') = snap \<and>
    index \<le> lastApplied rf' \<and> currentTerm rf' = currentTerm rf \<and> votedFor rf' = votedFor rf \<and> state rf' = state rf"
proof -
  have wi: "well_indexed rf" using ok by (simp add: node_ok_def)
  obtain t where t: "restoreLogTerm rf index = Some t" by (rule restoreLogTerm_in [OF wi, of index]) (use g in simp_all)
  then have eq: "Snapshot index snap rf = Some (compacted index t snap rf)"
    using Snapshot_compacts [OF ok g(1-3), of snap] g(4) by simp
  have le: "lastIncludeIndex rf \<le> index" using g by simp
  have "index \<le> lastApplied (compacted index t snap rf)" by (simp add: compacted_def Let_def)
  then show ?thesis
    using eq t compacted_node_ok [OF ok le, of t snap] compacted_log [OF ok le, of t snap] g(4) by (simp add: compacted_fields)
qed

lemma Snapshot_restricts_log_witness:
  "\<exists>rf'. Snapshot 3 [GInt 1] node_b = Some rf' \<and> node_ok rf' \<and> lastIncludeIndex rf' = 3 \<and>
    restoreLogTerm node_b 3 = Some (lastIncludeTerm rf') \<and> logmap rf' = logmap node_b |` {3<..} \<and>
    getLastIndex rf' = getLastIndex node_b \<and> ReadSnapshot (persister rf') = [GInt 1] \<and>
    3 \<le> lastApplied rf' \<and> currentTerm rf' = currentTerm node_b \<and> votedFor rf' = votedFor node_b \<and> state rf' = state node_b"
  by (rule Snapshot_restricts_log [OF node_b_ok]) code_simp+

text \<open>C24: A leader's snapshot that is not older than the server's term and reaches further than its own
  replaces everything up to its index, keeps the entries after it without a look at their terms, moves
  commit and applied indices up to it, and hands the service the snapshot; and the server, in the
  leader's term, has no vote.\<close>

theorem InstallSnapShot_installs:
  assumes ok: "node_ok rf" and g: "currentTerm rf \<le> is_Term args" "lastIncludeIndex rf < LastIncludeIndex args"
  shows "\<exists>rf' msg. InstallSnapShot args ev rf = Some (\<lparr>isr_Term = is_Term args\<rparr>, rf', Some msg) \<and> node_ok rf' \<and>
    SnapshotValid msg \<and> SnapshotIndex msg = LastIncludeIndex args \<and> am_Snapshot msg = Data args \<and>
    lastIncludeIndex rf' = LastIncludeIndex args \<and> lastIncludeTerm rf' = LastIncludeTerm args \<and>
    logmap rf' = logmap rf |` {LastIncludeIndex args<..} \<and>
    commitIndex rf' = max (LastIncludeIndex args) (commitIndex rf) \<and> lastApplied rf' = max (LastIncludeIndex args) (lastApplied rf) \<and>
    currentTerm rf' = is_Term args \<and> votedFor rf' = -1 \<and> state rf' = Follower"
proof -
  let ?d = "demoted args ev rf"
  have d: "node_ok ?d" by (rule demoted_node_ok [OF ok])
  have le: "lastIncludeIndex ?d \<le> LastIncludeIndex args" using g by (simp add: demoted_fields)
  have c: "commitIndex (compacted i t s n) = max i (commitIndex n)" "lastApplied (compacted i t s n) = max i (lastApplied n)" for i t s n
    by (simp_all add: compacted_def Let_def)
  show ?thesis
    using g compacted_node_ok [OF d le, of "LastIncludeTerm args" "Data args"] compacted_log(1) [OF d le, of "LastIncludeTerm args" "Data args"]
    by (simp add: InstallSnapShot_eq [OF ok] compacted_fields demoted_fields c)
qed

definition install_b :: InstallSnapshotArgs where
  "install_b = \<lparr>is_Term = 3, is_LeaderId = 0, LastIncludeIndex = 3, LastIncludeTerm = 3, Data = [GInt 9]\<rparr>"

lemma InstallSnapShot_installs_witness:
  "\<exists>rf' msg. InstallSnapShot install_b early node_b = Some (\<lparr>isr_Term = is_Term install_b\<rparr>, rf', Some msg) \<and> node_ok rf' \<and>
    SnapshotValid msg \<and> SnapshotIndex msg = LastIncludeIndex install_b \<and> am_Snapshot msg = Data install_b \<and>
    lastIncludeIndex rf' = LastIncludeIndex install_b \<and> lastIncludeTerm rf' = LastIncludeTerm install_b \<and>
    logmap rf' = logmap node_b |` {LastIncludeIndex install_b<..} \<and>
    commitIndex rf' = max (LastIncludeIndex install_b) (commitIndex node_b) \<and> lastApplied rf' = max (LastIncludeIndex install_b) (lastApplied node_b) \<and>
    currentTerm rf' = is_Term install_b \<and> votedFor rf' = -1 \<and> state rf' = Follower"
  by (rule InstallSnapShot_installs [OF node_b_ok]) code_simp+

section \<open>Clients and the applier\<close>

lemma appended_logmap:
  assumes "well_indexed rf"
  shows "logmap (appended c rf) = (logmap rf)(getLastIndex rf + 1 \<mapsto> \<lparr>Command = c, e_Term = currentTerm rf, e_Index = getLastIndex rf + 1\<rparr>)"
proof
  fix i
  have "0 < length (Entries (log rf))" using assms by (simp add: well_indexed_def)
  then show "logmap (appended c rf) i =
      ((logmap rf)(getLastIndex rf + 1 \<mapsto> \<lparr>Command = c, e_Term = currentTerm rf, e_Index = getLastIndex rf + 1\<rparr>)) i"
    by (auto simp: logmap_def restoreLog_def log_at_def go_nth_def appended_fields getLastIndex_def log_len_def nth_append)
qed

text \<open>C25: \<open>Start\<close> on a leader appends the command at the end of its log, in its term, persists it and
  returns the new last index; on any other server it changes nothing and says so.\<close>

theorem Start_appends:
  assumes "node_ok rf"
  shows "\<exists>r rf' acts. Start command ev rf = Some (r, rf', acts) \<and> node_ok rf' \<and> currentTerm rf' = currentTerm rf \<and>
    (if state rf = Leader
     then r = (getLastIndex rf + 1, currentTerm rf, True) \<and> getLastIndex rf' = getLastIndex rf + 1 \<and>
          logmap rf' = (logmap rf)(getLastIndex rf + 1 \<mapsto> \<lparr>Command = command, e_Term = currentTerm rf, e_Index = getLastIndex rf + 1\<rparr>) \<and>
          (\<forall>a \<in> set acts. sent_ok (appended command rf) a)
     else r = (-1, currentTerm rf, False) \<and> rf' = rf \<and> acts = [])"
proof -
  obtain r rf' acts where s: "Start command ev rf = Some (r, rf', acts)"
    using Start_total [OF assms, of command ev] by auto
  have wi: "well_indexed rf" using assms by (simp add: node_ok_def)
  show ?thesis
  proof (rule Start_elim [OF assms s])
    assume "state rf \<noteq> Leader" "r = (-1, currentTerm rf, False)" "rf' = rf" "acts = []"
    then show ?thesis using s assms by simp
  next
    fix t
    assume a: "state rf = Leader" "r = (getLastIndex rf + 1, currentTerm rf, True)"
      "rf' = (appended command rf)\<lparr>electionTime := t\<rparr>" "\<forall>a \<in> set acts. sent_ok (appended command rf) a"
    have "logmap rf' = logmap (appended command rf)" "getLastIndex rf' = getLastIndex (appended command rf)"
      by (simp_all add: a(3) logmap_def restoreLog_def getLastIndex_def fun_eq_iff)
    then show ?thesis using s a appended_logmap [OF wi, of command] appended_lastIndex [of command rf] Start_keeps(1) [OF assms s]
      by (simp add: appended_fields)
  qed
qed

lemma Start_appends_witness:
  "\<exists>r rf' acts. Start (IInt 5) early node_a = Some (r, rf', acts) \<and> node_ok rf' \<and> currentTerm rf' = currentTerm node_a \<and>
    (if state node_a = Leader
     then r = (getLastIndex node_a + 1, currentTerm node_a, True) \<and> getLastIndex rf' = getLastIndex node_a + 1 \<and>
          logmap rf' = (logmap node_a)(getLastIndex node_a + 1 \<mapsto> \<lparr>Command = IInt 5, e_Term = currentTerm node_a, e_Index = getLastIndex node_a + 1\<rparr>) \<and>
          (\<forall>a \<in> set acts. sent_ok (appended (IInt 5) node_a) a)
     else r = (-1, currentTerm node_a, False) \<and> rf' = node_a \<and> acts = [])"
  by (rule Start_appends [OF node_a_ok])

text \<open>C26: A turn of the applier sends the entry after the last applied one when that entry is committed and
  in the log, with its own index, and advances by one; otherwise it waits. It never reads outside
  the log.\<close>

theorem applier_sends_next_entry:
  assumes "node_ok rf" and "apply_ok rf"
  shows "\<exists>rf' m. applier_turn rf = Some (rf', m) \<and> node_ok rf' \<and> apply_ok rf' \<and>
    (if lastApplied rf < commitIndex rf \<and> lastApplied rf < getLastIndex rf
     then lastApplied rf' = lastApplied rf + 1 \<and> (\<exists>e msg. m = Some msg \<and> logmap rf (lastApplied rf + 1) = Some e \<and>
            CommandValid msg \<and> CommandIndex msg = e_Index e \<and> CommandIndex msg = lastApplied rf + 1 \<and> am_Command msg = Command e)
     else rf' = rf \<and> m = None)"
proof -
  have wi: "well_indexed rf" using assms(1) by (simp add: node_ok_def)
  note eq = applier_turn_eq [OF wi assms(2)]
  show ?thesis
  proof (cases "lastApplied rf < commitIndex rf \<and> lastApplied rf < getLastIndex rf")
    case True
    then have "lastApplied rf + 1 \<in> dom (logmap rf)" using logmap_dom [OF wi] assms(2) by (simp add: apply_ok_def)
    then obtain e where e: "logmap rf (lastApplied rf + 1) = Some e" by auto
    then show ?thesis using True eq applier_turn_keeps(1,2) [OF assms] logmap_index [OF wi e] by simp
  next
    case False
    then show ?thesis using eq assms by auto
  qed
qed

lemma applier_sends_next_entry_witness:
  "\<exists>rf' m. applier_turn node_b = Some (rf', m) \<and> node_ok rf' \<and> apply_ok rf' \<and>
    (if lastApplied node_b < commitIndex node_b \<and> lastApplied node_b < getLastIndex node_b
     then lastApplied rf' = lastApplied node_b + 1 \<and> (\<exists>e msg. m = Some msg \<and> logmap node_b (lastApplied node_b + 1) = Some e \<and>
            CommandValid msg \<and> CommandIndex msg = e_Index e \<and> CommandIndex msg = lastApplied node_b + 1 \<and> am_Command msg = Command e)
     else rf' = node_b \<and> m = None)"
  by (rule applier_sends_next_entry [OF node_b_ok]) code_simp

end
