(* ===== verification/Cluster_Invariant.thy ===== *)
theory Cluster_Invariant
  imports Raft_Cluster
begin

text \<open>
  The invariant every reachable cluster has: every server is well formed, every flight names servers
  of the cluster, carries consecutively numbered entries, and belongs to a ballot that exists. It
  makes every critical section run without an index or slice panic, with one exception
  (\<open>Snapshot\<close> beyond the end of a truncated log).
\<close>

section \<open>The invariant\<close>

definition server_ok :: "nat \<Rightarrow> nat \<Rightarrow> Raft \<Rightarrow> bool" where
  "server_ok n i rf \<longleftrightarrow> node_ok rf \<and> me rf = i \<and> length (peers rf) = n \<and> apply_ok rf \<and> 0 \<le> currentTerm rf"

fun flight_ok :: "nat \<Rightarrow> nat \<Rightarrow> flight \<Rightarrow> bool" where
  "flight_ok n nb (VoteReq i c j args b) \<longleftrightarrow> i < n \<and> j < n \<and> j \<noteq> i \<and> b < nb \<and> CandidateId args = int i \<and> 0 < rv_Term args"
| "flight_ok n nb (VoteRep i c j args reply b) \<longleftrightarrow> i < n \<and> j < n \<and> j \<noteq> i \<and> b < nb \<and> CandidateId args = int i \<and> 0 < rv_Term args"
| "flight_ok n nb (AppReq i c j args) \<longleftrightarrow> i < n \<and> j < n \<and> j \<noteq> i \<and> 0 \<le> PrevLogIndex args \<and> numbered (PrevLogIndex args) (ae_Entries args)"
| "flight_ok n nb (AppRep i c j args reply) \<longleftrightarrow> i < n \<and> j < n \<and> j \<noteq> i"
| "flight_ok n nb (SnapGo i c j) \<longleftrightarrow> i < n \<and> j < n \<and> j \<noteq> i"
| "flight_ok n nb (SnapReq i c j args) \<longleftrightarrow> i < n \<and> j < n \<and> j \<noteq> i \<and> 0 \<le> LastIncludeIndex args"
| "flight_ok n nb (SnapRep i c j args reply) \<longleftrightarrow> i < n \<and> j < n \<and> j \<noteq> i"
| "flight_ok n nb (Sending i c ap m) \<longleftrightarrow> i < n"

definition cluster_ok :: "nat \<Rightarrow> Cluster \<Rightarrow> bool" where
  "cluster_ok n s \<longleftrightarrow> length (servers s) = n \<and> length (incs s) = n \<and> length (applied s) = n \<and>
     (\<forall>i < n. server_ok n i (servers s ! i)) \<and> (\<forall>f \<in> set (flights s). flight_ok n (length (ballots s)) f)"

lemma flight_ok_mono: "flight_ok n nb f \<Longrightarrow> nb \<le> nb' \<Longrightarrow> flight_ok n nb' f"
  by (cases f) auto

lemma server_ok_step: "server_ok n i rf \<Longrightarrow> node_step rf rf' \<Longrightarrow> server_ok n i rf'"
  by (auto simp: server_ok_def node_step_def)

text \<open>One server moved, some flights went and some came.\<close>

lemma cluster_ok_update:
  assumes ok: "cluster_ok n s" and srv: "servers s' = (servers s)[i := rf']" and st: "node_step (servers s ! i) rf'"
    and len: "length (incs s') = length (incs s)" "length (applied s') = length (applied s)"
    and bal: "length (ballots s) \<le> length (ballots s')"
    and fl: "\<And>f. f \<in> set (flights s') \<Longrightarrow> f \<in> set (flights s) \<or> flight_ok n (length (ballots s')) f"
  shows "cluster_ok n s'"
proof -
  have "server_ok n j (servers s' ! j)" if "j < n" for j
  proof (cases "j = i")
    case True
    then show ?thesis using ok that st srv server_ok_step by (auto simp: cluster_ok_def)
  next
    case False
    then show ?thesis using ok that srv by (simp add: cluster_ok_def)
  qed
  moreover have "flight_ok n (length (ballots s')) f" if "f \<in> set (flights s')" for f
    using fl [OF that] ok bal flight_ok_mono unfolding cluster_ok_def by blast
  ultimately show ?thesis using ok len srv unfolding cluster_ok_def by simp
qed

lemma spawn_ok:
  assumes "node_ok rf" and "me rf = i" and "length (peers rf) = n" and "sent_ok rf a" and "f \<in> set (spawn i c b a)"
  shows "flight_ok n nb f"
proof (cases a)
  case (GoSendEntries p args)
  then have s: "p < n" "p \<noteq> i" "lastIncludeIndex rf \<le> PrevLogIndex args"
    "ae_Entries args = drop (nat (PrevLogIndex args + 1 - lastIncludeIndex rf)) (Entries (log rf))"
    using assms by auto
  moreover have wi: "well_indexed rf" "i < n" using assms(1-3) by (auto simp: node_ok_def sized_def)
  moreover have "numbered (PrevLogIndex args) (ae_Entries args)"
    unfolding s(4) by (rule well_indexed_numbered [OF wi(1) s(3)])
  ultimately show ?thesis using assms(5) GoSendEntries by (auto simp: well_indexed_def)
next
  case (GoSendSnapShot p)
  then show ?thesis using assms by (auto simp: node_ok_def sized_def)
qed (use assms in auto)

lemma spawns_ok:
  assumes "node_ok rf" and "me rf = i" and "length (peers rf) = n" and "\<forall>a \<in> set acts. sent_ok rf a" and "f \<in> set (spawns i s acts)"
  shows "flight_ok n nb f"
  using assms(4,5) spawn_ok [OF assms(1-3)] by (auto simp: spawns_def)

lemma sendings_ok: "i < n \<Longrightarrow> f \<in> set (sendings i s ap m) \<Longrightarrow> flight_ok n nb f"
  by (auto simp: sendings_def split: option.splits)

lemma ticker_spawns_ok:
  assumes ok: "server_ok n i rf" and t: "ticker_turn ev1 ev2 rf = Some (rf', acts)" and f: "f \<in> set (spawns i s acts)"
    and nb: "length (ballots s) < nb"
  shows "flight_ok n nb f"
proof -
  have rf: "node_ok rf" "me rf = i" "length (peers rf) = n" using ok by (simp_all add: server_ok_def)
  then have i: "i < n" by (auto simp: node_ok_def sized_def)
  show ?thesis
  proof (rule ticker_turn_elim [OF rf(1) t])
    assume "\<forall>a \<in> set acts. sent_ok rf a"
    then show ?thesis by (rule spawns_ok [OF rf _ f])
  next
    fix u acts1 acts2
    let ?rf = "rf\<lparr>electionTime := u\<rparr>"
    assume e: "leaderElection ev2 ?rf = Some (rf', acts2)" "acts = acts1 @ acts2" "\<forall>a \<in> set acts1. sent_ok rf a"
    have wi: "well_indexed ?rf" using rf(1) by (simp add: node_ok_def well_indexed_def)
    have "\<exists>v (l :: Entry). leaderElection ev2 ?rf = Some (v,
       map (\<lambda>p. GoRequestVote p \<lparr>rv_Term = currentTerm rf + 1, CandidateId = int i, LastLogIndex = e_Index l, LastLogTerm = e_Term l\<rparr>)
           (filter (\<lambda>p. p \<noteq> i) [0..<n]))"
      by (rule leaderElection_eq [OF wi, of ev2]) (use rf in auto)
    then obtain l :: Entry where a2: "acts2 = map (\<lambda>p. GoRequestVote p \<lparr>rv_Term = currentTerm rf + 1, CandidateId = int i, LastLogIndex = e_Index l, LastLogTerm = e_Term l\<rparr>)
           (filter (\<lambda>p. p \<noteq> i) [0..<n])"
      using e(1) by auto
    have "f \<in> set (spawns i s acts1) \<or> f \<in> set (spawns i s acts2)"
      using f e(2) by (simp add: spawns_def)
    then show ?thesis
    proof
      assume "f \<in> set (spawns i s acts1)"
      then show ?thesis by (rule spawns_ok [OF rf e(3)])
    next
      assume "f \<in> set (spawns i s acts2)"
      then show ?thesis using a2 i nb ok by (auto simp: spawns_def server_ok_def)
    qed
  qed
qed

lemma Start_spawns_ok:
  assumes ok: "server_ok n i rf" and t: "Start cmd ev rf = Some (r, rf', acts)" and f: "f \<in> set (spawns i s acts)"
  shows "flight_ok n nb f"
proof -
  have rf: "node_ok rf" using ok by (simp add: server_ok_def)
  have ap: "node_ok (appended cmd rf)" "me (appended cmd rf) = i" "length (peers (appended cmd rf)) = n"
    using appended_node_ok [OF rf] ok by (simp_all add: appended_fields server_ok_def)
  show ?thesis
  proof (rule Start_elim [OF rf t])
    assume "acts = []"
    then show ?thesis using f by (simp add: spawns_def)
  next
    assume "\<forall>a \<in> set acts. sent_ok (appended cmd rf) a"
    then show ?thesis by (rule spawns_ok [OF ap _ f])
  qed
qed

lemma count_spawns_ok:
  assumes ok: "server_ok n i rf" and t: "candidateRequestVote args reply b ev rf = Some (b', rf', acts)" and f: "f \<in> set (spawns i s acts)"
  shows "flight_ok n nb f"
proof -
  have rf: "node_ok rf" using ok by (simp add: server_ok_def)
  show ?thesis
    using t
  proof (cases rule: candidateRequestVote_elim)
    case elected
    then obtain l where "\<forall>a \<in> set acts. sent_ok (freshLeader l rf) a" using becomeLeader_keeps(10) [OF rf] by blast
    moreover have "node_ok (freshLeader l rf)" "me (freshLeader l rf) = i" "length (peers (freshLeader l rf)) = n"
      using freshLeader_node_ok [OF rf] ok by (simp_all add: freshLeader_def server_ok_def)
    ultimately show ?thesis using spawns_ok f by blast
  qed (use f in \<open>simp_all add: spawns_def\<close>)
qed

section \<open>It is an invariant\<close>

lemma cluster_ok_initial:
  assumes "initial ps s"
  shows "cluster_ok (length ps) s"
proof -
  have "server_ok (length ps) i (servers s ! i)" if "i < length ps" for i
  proof -
    have "\<exists>ev. Make ps i MakePersister ev = Some (servers s ! i)" using assms that unfolding initial_def by blast
    then obtain ev where mk: "Make ps i MakePersister ev = Some (servers s ! i)" ..
    have "raftstate MakePersister = []" by (simp add: MakePersister_def)
    from mk [unfolded Make_fresh [OF this] option.inject, symmetric] show ?thesis using that
      by (simp add: server_ok_def node_ok_def well_indexed_def sized_def saved_def bootLog_def apply_ok_def ReadRaftState_def MakePersister_def)
  qed
  then show ?thesis using assms by (simp add: cluster_ok_def initial_def)
qed

lemma cluster_ok_server: "cluster_ok n s \<Longrightarrow> i < length (servers s) \<Longrightarrow> server_ok n i (servers s ! i)"
  by (simp add: cluster_ok_def)

lemma cluster_ok_flight: "cluster_ok n s \<Longrightarrow> f \<in> set (flights s) \<Longrightarrow> flight_ok n (length (ballots s)) f"
  by (simp add: cluster_ok_def)


lemma cluster_ok_step:
  assumes ok: "cluster_ok n s" and st: "step s e s'"
  shows "cluster_ok n s'"
  using st
proof cases
  case (tick i ev1 ev2 rf' acts)
  have so: "server_ok n i (servers s ! i)" by (rule cluster_ok_server [OF ok tick(3)])
  then have nok: "node_ok (servers s ! i)" by (simp add: server_ok_def)
  show ?thesis
    by (rule cluster_ok_update [OF ok _ ticker_turn_step [OF nok tick(5)]])
      (use tick ticker_spawns_ok [OF so tick(5)] in auto)
next
  case (start i cmd ev res rf' acts)
  have so: "server_ok n i (servers s ! i)" by (rule cluster_ok_server [OF ok start(3)])
  then have nok: "node_ok (servers s ! i)" by (simp add: server_ok_def)
  show ?thesis
    by (rule cluster_ok_update [OF ok _ Start_step [OF nok start(4)]])
      (use start Start_spawns_ok [OF so start(4)] in auto)
next
  case (vote xs j c i args b ys ev reply rf')
  have nok: "node_ok (servers s ! i)" using cluster_ok_server [OF ok vote(4)] by (simp add: server_ok_def)
  have f: "flight_ok n (length (ballots s)) (VoteReq j c i args b)" by (rule cluster_ok_flight [OF ok]) (simp add: vote)
  show ?thesis
    by (rule cluster_ok_update [OF ok _ RequestVote_step [OF nok vote(5)]]) (use vote f in auto)
next
  case (count xs i c j args reply b ys ev bal' rf' acts)
  have il: "i < length (servers s)" using count(4) by (simp add: running_def)
  have so: "server_ok n i (servers s ! i)" by (rule cluster_ok_server [OF ok il])
  then have nok: "node_ok (servers s ! i)" by (simp add: server_ok_def)
  have "flight_ok n (length (ballots s)) (VoteRep i c j args reply b)" by (rule cluster_ok_flight [OF ok]) (simp add: count)
  then have t: "0 \<le> rv_Term args" by simp
  show ?thesis
    by (rule cluster_ok_update [OF ok _ candidateRequestVote_step [OF nok count(6) t]])
      (use count count_spawns_ok [OF so count(6)] in auto)
next
  case (append xs j c i args ys ev reply rf' acts)
  have nok: "node_ok (servers s ! i)" using cluster_ok_server [OF ok append(4)] by (simp add: server_ok_def)
  have f: "flight_ok n (length (ballots s)) (AppReq j c i args)" by (rule cluster_ok_flight [OF ok]) (simp add: append)
  then have num: "numbered (PrevLogIndex args) (ae_Entries args)" by simp
  show ?thesis
    by (rule cluster_ok_update [OF ok _ AppendEntries_step [OF nok append(5) num]]) (use append f in auto)
next
  case (ack xs i c j args reply ys rf' acts)
  have il: "i < length (servers s)" using ack(4) by (simp add: running_def)
  have so: "server_ok n i (servers s ! i)" by (rule cluster_ok_server [OF ok il])
  have "flight_ok n (length (ballots s)) (AppRep i c j args reply)" by (rule cluster_ok_flight [OF ok]) (simp add: ack)
  then have j: "j < length (peers (servers s ! i))" using so by (simp add: server_ok_def)
  have nok: "node_ok (servers s ! i)" using so by (simp add: server_ok_def)
  show ?thesis
    by (rule cluster_ok_update [OF ok _ leaderSendEntries_step [OF nok j ack(5)]]) (use ack in auto)
next
  case (snapgo xs i c j ys)
  have il: "i < length (servers s)" using snapgo(4) by (simp add: running_def)
  have so: "server_ok n i (servers s ! i)" by (rule cluster_ok_server [OF ok il])
  then have nok: "node_ok (servers s ! i)" by (simp add: server_ok_def)
  have f: "flight_ok n (length (ballots s)) (SnapGo i c j)" by (rule cluster_ok_flight [OF ok]) (simp add: snapgo)
  have lii: "0 \<le> lastIncludeIndex (servers s ! i)" using nok by (simp add: node_ok_def well_indexed_def)
  show ?thesis
    by (rule cluster_ok_update [OF ok _ node_step_refl [OF nok]]) (use snapgo f lii in \<open>auto simp: leaderSendSnapShot_args_def\<close>)
next
  case (install xs j c i args ys ev reply rf' msg)
  have nok: "node_ok (servers s ! i)" using cluster_ok_server [OF ok install(4)] by (simp add: server_ok_def)
  have f: "flight_ok n (length (ballots s)) (SnapReq j c i args)" by (rule cluster_ok_flight [OF ok]) (simp add: install)
  then have i: "i < n" by simp
  show ?thesis
    by (rule cluster_ok_update [OF ok _ InstallSnapShot_step [OF nok install(5)]])
      (use install f sendings_ok [OF i] in auto)
next
  case (installed xs i c j args reply ys ev rf')
  have il: "i < length (servers s)" using installed(4) by (simp add: running_def)
  have so: "server_ok n i (servers s ! i)" by (rule cluster_ok_server [OF ok il])
  have "flight_ok n (length (ballots s)) (SnapRep i c j args reply)" by (rule cluster_ok_flight [OF ok]) (simp add: installed)
  then have j: "j < length (peers (servers s ! i))" using so by (simp add: server_ok_def)
  have nok: "node_ok (servers s ! i)" using so by (simp add: server_ok_def)
  show ?thesis
    by (rule cluster_ok_update [OF ok _ leaderSendSnapShot_reply_step [OF nok j installed(5)]]) (use installed in auto)
next
  case (snapshot i index snap rf')
  have nok: "node_ok (servers s ! i)" using cluster_ok_server [OF ok snapshot(3)] by (simp add: server_ok_def)
  show ?thesis
    by (rule cluster_ok_update [OF ok _ Snapshot_step [OF nok snapshot(4)]]) (use snapshot in auto)
next
  case (apply_next i rf' msg)
  have so: "server_ok n i (servers s ! i)" by (rule cluster_ok_server [OF ok apply_next(3)])
  then have nok: "node_ok (servers s ! i)" "apply_ok (servers s ! i)" "i < n"
    using ok apply_next(3) by (simp_all add: server_ok_def cluster_ok_def)
  show ?thesis
    by (rule cluster_ok_update [OF ok _ applier_turn_step [OF nok(1,2) apply_next(6)]])
      (use apply_next sendings_ok [OF nok(3)] in auto)
next
  case (send xs i c ap msg ys)
  have il: "i < length (servers s)" using send(4) by (simp add: running_def)
  have nok: "node_ok (servers s ! i)" using cluster_ok_server [OF ok il] by (simp add: server_ok_def)
  show ?thesis
    by (rule cluster_ok_update [OF ok _ node_step_refl [OF nok]]) (use send in auto)
next
  case (lost xs f ys)
  then show ?thesis using ok by (auto simp: cluster_ok_def)
next
  case (kill i)
  have nok: "node_ok (servers s ! i)" using cluster_ok_server [OF ok kill(3)] by (simp add: server_ok_def)
  show ?thesis
    by (rule cluster_ok_update [OF ok _ Kill_step [OF nok]]) (use kill in auto)
next
  case (restart i ev rf')
  have so: "server_ok n i (servers s ! i)" by (rule cluster_ok_server [OF ok restart(3)])
  then have nok: "node_ok (servers s ! i)" and me: "me (servers s ! i) = i" by (simp_all add: server_ok_def)
  have mk: "Make (peers (servers s ! i)) (me (servers s ! i)) (Copy (persister (servers s ! i))) ev = Some rf'"
    using restart(4) me by simp
  show ?thesis
    by (rule cluster_ok_update [OF ok _ restart_elim(1) [OF nok mk]]) (use restart in auto)
qed

interpretation ci: step_invariant "initial ps" step "\<lambda>e. True" "cluster_ok (length ps)" for ps
  by unfold_locales (auto intro: cluster_ok_initial cluster_ok_step)

lemma reachable_cluster_ok: "reachable ps P s \<Longrightarrow> cluster_ok (length ps) s"
  by (rule ci.inv_reach) (rule reach_weaken, auto)

end
