(* ===== verification/Election_Safety.thy ===== *)
theory Election_Safety
  imports Cluster_Invariant "HOL-Library.Multiset"
begin

text \<open>
  Election safety: in a run in which no snapshot handler erases a vote of the current term, at most
  one server ever becomes leader in a term. The argument keeps three ghost functions: \<open>V t v\<close>, whom
  server \<open>v\<close> has voted for in term \<open>t\<close>, \<open>C b\<close>, the voters counted in ballot \<open>b\<close>, and \<open>T b\<close>, the
  term and the candidate of the ballot.
\<close>

section \<open>The invariant\<close>

type_synonym votes = "int \<Rightarrow> nat \<Rightarrow> int option"

text \<open>The peers a ballot still waits for.\<close>

fun polled :: "nat \<Rightarrow> flight \<Rightarrow> nat list" where
  "polled b (VoteReq i c j args b') = (if b' = b then [j] else [])"
| "polled b (VoteRep i c j args reply b') = (if b' = b then [j] else [])"
| "polled b _ = []"

definition outstanding :: "nat \<Rightarrow> flight list \<Rightarrow> nat list" where
  "outstanding b fs = concat (map (polled b) fs)"

definition no_vote :: "flight \<Rightarrow> bool" where
  "no_vote f \<longleftrightarrow> (\<forall>b. polled b f = [])"

definition node_votes :: "votes \<Rightarrow> nat \<Rightarrow> Raft \<Rightarrow> bool" where
  "node_votes V i rf \<longleftrightarrow> V (currentTerm rf) i = (if votedFor rf = -1 then None else Some (votedFor rf)) \<and>
     (\<forall>t > currentTerm rf. V t i = None)"

text \<open>A vote in flight belongs to a candidate that has voted for itself, and everybody counted so far
  has voted for it in that term; so has the sender of a granted reply.\<close>

fun vote_flight :: "votes \<Rightarrow> (nat \<Rightarrow> nat set) \<Rightarrow> (nat \<Rightarrow> int \<times> nat) \<Rightarrow> flight \<Rightarrow> bool" where
  "vote_flight V C T (VoteReq i c j args b) \<longleftrightarrow>
     T b = (rv_Term args, i) \<and> (\<forall>v \<in> insert i (C b). V (rv_Term args) v = Some (int i)) \<and> i \<notin> C b"
| "vote_flight V C T (VoteRep i c j args reply b) \<longleftrightarrow>
     T b = (rv_Term args, i) \<and> (\<forall>v \<in> insert i (C b). V (rv_Term args) v = Some (int i)) \<and> i \<notin> C b \<and>
     (VoteGranted reply \<and> rvr_Term reply = rv_Term args \<longrightarrow> V (rv_Term args) j = Some (int i))"
| "vote_flight V C T _ \<longleftrightarrow> True"

definition ballot_ok :: "nat \<Rightarrow> (nat \<Rightarrow> nat set) \<Rightarrow> Cluster \<Rightarrow> nat \<Rightarrow> bool" where
  "ballot_ok n C s b \<longleftrightarrow> C b \<subseteq> {..<n} \<and> distinct (outstanding b (flights s)) \<and>
     C b \<inter> set (outstanding b (flights s)) = {} \<and>
     (if b < length (ballots s) then voteCounter (ballots s ! b) = 1 + int (card (C b)) else C b = {})"

definition elected_by :: "nat \<Rightarrow> votes \<Rightarrow> int \<times> nat \<Rightarrow> bool" where
  "elected_by n V e \<longleftrightarrow> (\<exists>Q. majority n Q \<and> (\<forall>v \<in> Q. V (fst e) v = Some (int (snd e))))"

definition vote_inv :: "nat \<Rightarrow> votes \<Rightarrow> (nat \<Rightarrow> nat set) \<Rightarrow> (nat \<Rightarrow> int \<times> nat) \<Rightarrow> Cluster \<Rightarrow> bool" where
  "vote_inv n V C T s \<longleftrightarrow>
     (\<forall>i < n. node_votes V i (servers s ! i)) \<and> (\<forall>f \<in> set (flights s). vote_flight V C T f) \<and>
     (\<forall>b. ballot_ok n C s b) \<and> (\<forall>e \<in> set (elections s). elected_by n V e) \<and>
     (\<forall>i < n. state (servers s ! i) = Leader \<longrightarrow> (currentTerm (servers s ! i), i) \<in> set (elections s))"

section \<open>Votes are only added\<close>

definition extends :: "votes \<Rightarrow> votes \<Rightarrow> bool" where
  "extends V V' \<longleftrightarrow> (\<forall>t v x. V t v = Some x \<longrightarrow> V' t v = Some x)"

lemma extends_refl [simp]: "extends V V"
  by (simp add: extends_def)

lemma vote_flight_extends: "vote_flight V C T f \<Longrightarrow> extends V V' \<Longrightarrow> vote_flight V' C T f"
  by (cases f) (auto simp: extends_def)

lemma elected_by_extends: "elected_by n V e \<Longrightarrow> extends V V' \<Longrightarrow> elected_by n V' e"
  unfolding elected_by_def extends_def by blast

lemma outstanding_simps [simp]:
  "outstanding b [] = []" "outstanding b (f # fs) = polled b f @ outstanding b fs"
  "outstanding b (fs @ gs) = outstanding b fs @ outstanding b gs"
  by (simp_all add: outstanding_def)

lemma outstanding_no_vote: "\<forall>f \<in> set fs. no_vote f \<Longrightarrow> outstanding b fs = []"
  by (induction fs) (auto simp: no_vote_def)

lemma no_vote_flight: "no_vote f \<Longrightarrow> vote_flight V C T f"
  by (cases f) (auto simp: no_vote_def split: if_splits)

lemma no_vote_simps [simp]:
  "no_vote (AppReq i c j a)" "no_vote (AppRep i c j a r)" "no_vote (SnapGo i c j)"
  "no_vote (SnapReq i c j sa)" "no_vote (SnapRep i c j sa sr)" "no_vote (Sending i c ap m)"
  by (simp_all add: no_vote_def)

lemma node_votes_frame: "node_votes V i rf \<Longrightarrow> election_frame rf rf' \<Longrightarrow> node_votes V i rf'"
  by (auto simp: node_votes_def election_frame_def)

lemma node_votes_extends:
  "node_votes V i rf \<Longrightarrow> (\<And>t. V' t i = V t i) \<Longrightarrow> node_votes V' i rf"
  by (simp add: node_votes_def)

text \<open>The step of a server outside elections: no vote is given, counted or asked for.\<close>

lemma vote_inv_quiet:
  assumes inv: "vote_inv n V C T s" and len: "length (servers s) = n"
    and srv: "servers s' = (servers s)[i := rf']" and fr: "election_frame (servers s ! i) rf'"
    and bal: "ballots s' = ballots s \<or> ballots s' = ballots s @ [newBallot]" and el: "elections s' = elections s"
    and fl: "\<And>f. f \<in> set (flights s') \<Longrightarrow> f \<in> set (flights s) \<or> no_vote f"
    and out: "\<And>b. distinct (outstanding b (flights s)) \<Longrightarrow>
       distinct (outstanding b (flights s')) \<and> set (outstanding b (flights s')) \<subseteq> set (outstanding b (flights s))"
  shows "vote_inv n V C T s'"
  unfolding vote_inv_def
proof (intro conjI allI impI ballI)
  fix j
  assume j: "j < n"
  show "node_votes V j (servers s' ! j)"
  proof (cases "j = i")
    case True
    have "node_votes V i (servers s ! i)" using inv j True by (simp add: vote_inv_def)
    then have "node_votes V i rf'" using fr by (rule node_votes_frame)
    then show ?thesis using True j len srv by simp
  next
    case False
    then show ?thesis using inv j srv by (simp add: vote_inv_def)
  qed
  show "(currentTerm (servers s' ! j), j) \<in> set (elections s')" if "state (servers s' ! j) = Leader"
  proof (cases "j = i")
    case True
    then have "state rf' = Leader" using that j len srv by simp
    then have "state (servers s ! i) = Leader \<and> currentTerm rf' = currentTerm (servers s ! i)"
      using fr by (auto simp: election_frame_def)
    moreover have "state (servers s ! i) = Leader \<longrightarrow> (currentTerm (servers s ! i), i) \<in> set (elections s)"
      using inv j True by (simp add: vote_inv_def)
    ultimately show ?thesis using True j len srv el by simp
  next
    case False
    then show ?thesis using inv j srv el that by (simp add: vote_inv_def)
  qed
next
  show "vote_flight V C T f" if "f \<in> set (flights s')" for f
    using fl [OF that] inv no_vote_flight by (auto simp: vote_inv_def)
  show "elected_by n V e" if "e \<in> set (elections s')" for e
    using inv el that by (simp add: vote_inv_def)
  fix b
  have b: "ballot_ok n C s b" using inv by (simp add: vote_inv_def)
  then show "ballot_ok n C s' b"
    using out [of b] bal by (auto simp: ballot_ok_def nth_append newBallot_def split: if_splits)
qed

section \<open>Starting an election\<close>

lemma spawns_no_vote: "\<forall>a \<in> set acts. sent_ok rf a \<Longrightarrow> f \<in> set (spawns i s acts) \<Longrightarrow> no_vote f"
proof -
  assume a: "\<forall>a \<in> set acts. sent_ok rf a" and "f \<in> set (spawns i s acts)"
  then obtain x where "x \<in> set acts" "f \<in> set (spawn i (incs s ! i) (length (ballots s)) x)" by (auto simp: spawns_def)
  with a show "no_vote f" by (cases x) auto
qed

lemma sendings_no_vote: "f \<in> set (sendings i s ap m) \<Longrightarrow> no_vote f"
  by (auto simp: sendings_def split: option.splits)

lemma outstanding_polls:
  "outstanding b (map (\<lambda>p. VoteReq i c p args b') ps) = (if b = b' then ps else [])"
  by (induction ps) auto

lemma vote_inv_candidate:
  assumes inv: "vote_inv n V C T s" and len: "length (servers s) = n" and i: "i < n"
    and nb: "\<And>f b. f \<in> set (flights s) \<Longrightarrow> length (ballots s) \<le> b \<Longrightarrow> polled b f = []"
    and rf': "currentTerm rf' = currentTerm (servers s ! i) + 1" "votedFor rf' = int i" "state rf' = Candidate"
    and s': "servers s' = (servers s)[i := rf']" "ballots s' = ballots s @ [newBallot]" "elections s' = elections s"
    and fl: "flights s' = flights s @ fs1 @ map (\<lambda>p. VoteReq i c p args (length (ballots s))) ps"
    and fs1: "\<forall>f \<in> set fs1. no_vote f" and args: "rv_Term args = currentTerm (servers s ! i) + 1" and ps: "distinct ps"
  shows "vote_inv n (V(rv_Term args := (V (rv_Term args))(i := Some (int i)))) C (T(length (ballots s) := (rv_Term args, i))) s'"
proof -
  let ?t = "rv_Term args" and ?b = "length (ballots s)"
  let ?V = "V(?t := (V ?t)(i := Some (int i)))"
  have nvi: "node_votes V i (servers s ! i)" using inv i by (simp add: vote_inv_def)
  then have "V ?t i = None" using args by (simp add: node_votes_def)
  then have ext: "extends V ?V" by (auto simp: extends_def)
  have out0: "outstanding b (flights s) = []" if "?b \<le> b" for b
    using nb that by (simp add: outstanding_def concat_eq_Nil_conv)
  show ?thesis
    unfolding vote_inv_def
  proof (intro conjI allI impI ballI)
    fix j
    assume j: "j < n"
    show "node_votes ?V j (servers s' ! j)"
    proof (cases "j = i")
      case True
      then show ?thesis using rf' args nvi j len s'(1) by (auto simp: node_votes_def)
    next
      case False
      have "node_votes V j (servers s ! j)" using inv j by (simp add: vote_inv_def)
      then have "node_votes ?V j (servers s ! j)" by (rule node_votes_extends) (use False in simp)
      then show ?thesis using False s'(1) by simp
    qed
    show "(currentTerm (servers s' ! j), j) \<in> set (elections s')" if "state (servers s' ! j) = Leader"
      using that inv j rf'(3) s' len by (cases "j = i") (simp_all add: vote_inv_def)
  next
    show "elected_by n ?V e" if "e \<in> set (elections s')" for e
      using inv that s'(3) elected_by_extends [OF _ ext] by (simp add: vote_inv_def)
    have cb: "C ?b = {}" using inv by (simp add: vote_inv_def ballot_ok_def)
    show "vote_flight ?V C (T(?b := (?t, i))) f" if f: "f \<in> set (flights s')" for f
    proof -
      consider "f \<in> set (flights s)" | "f \<in> set fs1" | p where "f = VoteReq i c p args ?b" using f fl by auto
      then show ?thesis
      proof cases
        case 1
        then have "vote_flight V C T f" using inv by (simp add: vote_inv_def)
        then have "vote_flight ?V C T f" by (rule vote_flight_extends [OF _ ext])
        moreover have "polled ?b f = []" using nb [OF 1] by simp
        ultimately show ?thesis by (cases f) (auto split: if_splits)
      next
        case 2
        then show ?thesis using fs1 no_vote_flight by simp
      next
        case 3
        then show ?thesis using cb by simp
      qed
    qed
    fix b
    have b: "ballot_ok n C s b" using inv by (simp add: vote_inv_def)
    have "outstanding b (flights s') = (if b = ?b then ps else outstanding b (flights s))"
      using out0 [of b] by (cases "b = ?b") (simp_all add: fl outstanding_polls outstanding_no_vote [OF fs1])
    then show "ballot_ok n C s' b"
      using b cb ps s'(2) by (auto simp: ballot_ok_def nth_append newBallot_def split: if_splits)
  qed
qed

section \<open>Giving a vote\<close>

text \<open>The vote is new, or repeats one given before.\<close>

lemma granted_vote:
  assumes "node_votes V i rf" and "grants args rf" and "CandidateId args \<noteq> -1"
    and "currentTerm rf' = rv_Term args" and "votedFor rf' = CandidateId args"
  shows "extends V (V(rv_Term args := (V (rv_Term args))(i := Some (CandidateId args))))"
    "node_votes (V(rv_Term args := (V (rv_Term args))(i := Some (CandidateId args)))) i rf'"
proof -
  have "V (rv_Term args) i \<in> {None, Some (CandidateId args)}"
  proof (cases "currentTerm rf < rv_Term args")
    case True
    then show ?thesis using assms(1) by (simp add: node_votes_def)
  next
    case False
    then have "currentTerm rf = rv_Term args" "votedFor rf = -1 \<or> votedFor rf = CandidateId args"
      using assms(2) by (auto simp: grants_def)
    then show ?thesis using assms(1) by (auto simp: node_votes_def)
  qed
  then show "extends V (V(rv_Term args := (V (rv_Term args))(i := Some (CandidateId args))))"
    by (auto simp: extends_def)
  show "node_votes (V(rv_Term args := (V (rv_Term args))(i := Some (CandidateId args)))) i rf'"
    using assms by (auto simp: node_votes_def grants_def)
qed

lemma vote_inv_voter:
  assumes inv: "vote_inv n V C T s" and len: "length (servers s) = n" and i: "i < n"
    and ok: "well_indexed (servers s ! i)" and rv: "RequestVote args ev (servers s ! i) = Some (reply, rf')"
    and fl: "flights s = xs @ VoteReq j c i args b # ys" and cand: "CandidateId args = int j"
    and s': "servers s' = (servers s)[i := rf']" "ballots s' = ballots s" "elections s' = elections s"
      "flights s' = xs @ ys @ [VoteRep j c i args reply b]"
  shows "\<exists>V'. vote_inv n V' C T s'"
proof -
  let ?rf = "servers s ! i"
  have nvi: "node_votes V i ?rf" using inv i by (simp add: vote_inv_def)
  have vf: "vote_flight V C T (VoteReq j c i args b)" using inv fl by (simp add: vote_inv_def)
  have fr: "election_frame ?rf (joined args ?rf)" by (rule joined_frame)
  obtain V' where V': "extends V V'" "\<forall>k. k \<noteq> i \<longrightarrow> (\<forall>t. V' t k = V t k)" "node_votes V' i rf'"
    "VoteGranted reply \<longrightarrow> V' (rv_Term args) i = Some (int j)"
    "state rf' = Leader \<longrightarrow> state ?rf = Leader \<and> currentTerm rf' = currentTerm ?rf"
  proof (cases "grants args ?rf")
    case False
    then have r: "rf' = joined args ?rf" "\<not> VoteGranted reply" using rv by (auto simp: RequestVote_eq [OF ok])
    show ?thesis
      by (rule that [of V]) (use r nvi fr node_votes_frame in \<open>auto simp: election_frame_def\<close>)
  next
    case True
    then have r: "rf' = resetElectionTimer ev (persist ((joined args ?rf)\<lparr>votedFor := CandidateId args\<rparr>))"
      using rv by (auto simp: RequestVote_eq [OF ok])
    have le: "currentTerm ?rf \<le> rv_Term args" using True by (simp add: grants_def)
    then have f: "currentTerm rf' = rv_Term args" "votedFor rf' = CandidateId args" "state rf' = state (joined args ?rf)"
      by (simp_all add: r resetElectionTimer_eq joined_fields)
    have c: "CandidateId args \<noteq> -1" using cand by simp
    have L: "state rf' = Leader \<longrightarrow> state ?rf = Leader \<and> currentTerm rf' = currentTerm ?rf"
      using f le by (cases "currentTerm ?rf < rv_Term args") (simp_all add: joined_def setNewTerm_fields)
    show ?thesis
      by (rule that [OF granted_vote(1) [OF nvi True c f(1,2)] _ granted_vote(2) [OF nvi True c f(1,2)] _ L]) (simp_all add: cand)
  qed
  have "vote_inv n V' C T s'"
    unfolding vote_inv_def
  proof (intro conjI allI impI ballI)
    fix k
    assume k: "k < n"
    show "node_votes V' k (servers s' ! k)"
    proof (cases "k = i")
      case True
      then show ?thesis using V'(3) k len s'(1) by simp
    next
      case False
      have "node_votes V k (servers s ! k)" using inv k by (simp add: vote_inv_def)
      then have "node_votes V' k (servers s ! k)" by (rule node_votes_extends) (use V'(2) False in simp)
      then show ?thesis using False s'(1) by simp
    qed
    show "(currentTerm (servers s' ! k), k) \<in> set (elections s')" if "state (servers s' ! k) = Leader"
      using that inv k V'(5) s' len by (cases "k = i") (simp_all add: vote_inv_def)
  next
    show "elected_by n V' e" if "e \<in> set (elections s')" for e
      using inv that s'(3) elected_by_extends [OF _ V'(1)] by (simp add: vote_inv_def)
    show "vote_flight V' C T f" if "f \<in> set (flights s')" for f
    proof -
      have "f \<in> set (flights s) \<or> f = VoteRep j c i args reply b" using that s'(4) fl by auto
      then show ?thesis
      proof
        assume "f \<in> set (flights s)"
        then have "vote_flight V C T f" using inv by (simp add: vote_inv_def)
        then show ?thesis by (rule vote_flight_extends [OF _ V'(1)])
      next
        assume "f = VoteRep j c i args reply b"
        then show ?thesis using V'(4) vote_flight_extends [OF vf V'(1)] by simp
      qed
    qed
    fix b'
    have "ballot_ok n C s b'" using inv by (simp add: vote_inv_def)
    moreover have "mset (outstanding b' (flights s')) = mset (outstanding b' (flights s))" by (simp add: s'(4) fl)
    ultimately show "ballot_ok n C s' b'"
      using mset_eq_imp_distinct_iff [of "outstanding b' (flights s')"] mset_eq_setD [of "outstanding b' (flights s')"]
      by (simp add: ballot_ok_def s'(2))
  qed
  then show ?thesis by blast
qed

section \<open>Counting a vote\<close>

lemma elected_byI:
  assumes "j \<notin> insert i A" and "i \<notin> A" and "A \<subseteq> {..<n}" and "i < n" and "j < n"
    and "\<forall>v \<in> insert j (insert i A). V t v = Some (int i)" and "int n div 2 < int (card A) + 2"
  shows "elected_by n V (t, i)"
proof -
  have fin: "finite A" using assms(3) finite_subset by blast
  have "card (insert j (insert i A)) = card A + 2" using assms(1,2) fin by simp
  moreover have "int n div 2 = int (n div 2)" by (simp add: zdiv_int)
  ultimately have "majority n (insert j (insert i A))" using assms by (auto simp: majority_def)
  then show ?thesis using assms(6) unfolding elected_by_def by (intro exI [of _ "insert j (insert i A)"]) simp
qed

lemma vote_inv_counted:
  assumes inv: "vote_inv n V C T s" and len: "length (servers s) = n" and ij: "i < n" "j < n" "j \<noteq> i"
    and fl: "flights s = xs @ VoteRep i c j args reply b # ys" and b: "b < length (ballots s)"
    and reply: "VoteGranted reply" "rvr_Term reply = rv_Term args"
    and bal: "voteCounter bal' = voteCounter (ballots s ! b) + 1"
    and rf': "currentTerm rf' = currentTerm (servers s ! i)" "votedFor rf' = votedFor (servers s ! i)"
    and el: "state rf' = state (servers s ! i) \<and> els = [] \<or>
       els = [(currentTerm rf', i)] \<and> currentTerm rf' = rv_Term args \<and> int n div 2 < voteCounter (ballots s ! b) + 1"
    and s': "servers s' = (servers s)[i := rf']" "ballots s' = (ballots s)[b := bal']" "elections s' = els @ elections s"
      "flights s' = xs @ ys @ new"
    and new: "\<forall>f \<in> set new. no_vote f"
  shows "vote_inv n V (C(b := insert j (C b))) T s'"
proof -
  let ?C = "C(b := insert j (C b))"
  have bok: "ballot_ok n C s b" using inv by (simp add: vote_inv_def)
  then have cb: "C b \<subseteq> {..<n}" "j \<notin> C b" "finite (C b)"
    using finite_subset by (auto simp: ballot_ok_def fl)
  have vf: "vote_flight V C T (VoteRep i c j args reply b)" using inv fl by (simp add: vote_inv_def)
  then have vj: "V (rv_Term args) j = Some (int i)" and Tb: "T b = (rv_Term args, i)" and ib: "i \<notin> C b"
    and vs: "\<forall>v \<in> insert i (C b). V (rv_Term args) v = Some (int i)"
    using reply by auto
  show ?thesis
    unfolding vote_inv_def
  proof (intro conjI allI impI ballI)
    fix k
    assume k: "k < n"
    have nk: "node_votes V k (servers s ! k)" using inv k by (simp add: vote_inv_def)
    then show "node_votes V k (servers s' ! k)"
      using rf' k len s'(1) by (cases "k = i") (simp_all add: node_votes_def)
    have Lk: "state (servers s ! k) = Leader \<longrightarrow> (currentTerm (servers s ! k), k) \<in> set (elections s)"
      using inv k by (simp add: vote_inv_def)
    then show "(currentTerm (servers s' ! k), k) \<in> set (elections s')" if "state (servers s' ! k) = Leader"
      using that el rf' k len s'(1,3) by (cases "k = i") auto
  next
    fix e
    assume "e \<in> set (elections s')"
    then consider "e \<in> set (elections s)" | "e = (rv_Term args, i)" "int n div 2 < voteCounter (ballots s ! b) + 1"
      using el s'(3) by auto
    then show "elected_by n V e"
    proof cases
      case 1
      then show ?thesis using inv by (simp add: vote_inv_def)
    next
      case 2
      have "voteCounter (ballots s ! b) = 1 + int (card (C b))" using bok b by (simp add: ballot_ok_def)
      then show ?thesis unfolding 2(1) using 2(2) cb ib ij vj vs by (intro elected_byI [of j i "C b"]) auto
    qed
  next
    show "vote_flight V ?C T f" if f: "f \<in> set (flights s')" for f
    proof (cases "f \<in> set new")
      case True
      then show ?thesis using new no_vote_flight by simp
    next
      case False
      then have "f \<in> set (flights s)" using f s'(4) fl by auto
      then have "vote_flight V C T f" using inv by (simp add: vote_inv_def)
      then show ?thesis using Tb vj ij(3) by (cases f) auto
    qed
    fix b'
    have ok: "ballot_ok n C s b'" using inv by (simp add: vote_inv_def)
    have out: "mset (outstanding b' (flights s)) = mset (outstanding b' (flights s')) + (if b' = b then {#j#} else {#})"
      by (simp add: s'(4) fl outstanding_no_vote [OF new])
    show "ballot_ok n ?C s' b'"
    proof (cases "b' = b")
      case True
      have d: "distinct (outstanding b (flights s'))" "j \<notin> set (outstanding b (flights s'))"
          "C b \<inter> set (outstanding b (flights s')) = {}"
        using ok True by (auto simp: ballot_ok_def s'(4) fl outstanding_no_vote [OF new])
      have "voteCounter (ballots s ! b) = 1 + int (card (C b))" using bok b by (simp add: ballot_ok_def)
      then show ?thesis using True b bal d cb ij s'(2) by (simp add: ballot_ok_def)
    next
      case False
      then have "mset (outstanding b' (flights s')) = mset (outstanding b' (flights s))" using out by simp
      then show ?thesis using ok False s'(2)
          mset_eq_imp_distinct_iff [of "outstanding b' (flights s')"] mset_eq_setD [of "outstanding b' (flights s')"]
        by (simp add: ballot_ok_def)
    qed
  qed
qed

section \<open>It is an invariant\<close>

definition keeps_votes :: "event \<Rightarrow> bool" where
  "keeps_votes e \<longleftrightarrow> (case e of EvInstall i erased \<Rightarrow> \<not> erased | EvInstalled i erased \<Rightarrow> \<not> erased | _ \<Rightarrow> True)"

definition election_inv :: "nat \<Rightarrow> Cluster \<Rightarrow> bool" where
  "election_inv n s \<longleftrightarrow> cluster_ok n s \<and> (\<exists>V C T. vote_inv n V C T s)"

lemma outstanding_remove:
  "distinct (outstanding b (xs @ f # ys)) \<Longrightarrow>
   distinct (outstanding b (xs @ ys)) \<and> set (outstanding b (xs @ ys)) \<subseteq> set (outstanding b (xs @ f # ys))"
  by auto

lemma InstallSnapShot_frame:
  assumes "node_ok rf" and "InstallSnapShot args ev rf = Some (reply, rf', msg)" and "\<not> erases rf rf'"
  shows "election_frame rf rf'"
  by (rule InstallSnapShot_elim [OF assms(1,2)])
    (use assms(3) in \<open>auto simp: election_frame_def erases_def demoted_fields compacted_fields\<close>)

lemma leaderSendSnapShot_reply_frame:
  assumes "node_ok rf" and "j < length (peers rf)" and "leaderSendSnapShot_reply j args reply ev rf = Some rf'" and "\<not> erases rf rf'"
  shows "election_frame rf rf'"
proof -
  have sz: "sized rf" using assms(1) by (simp add: node_ok_def)
  show ?thesis
    using assms(3,4) unfolding leaderSendSnapShot_reply_eq [OF sz assms(2)]
    by (auto simp: election_frame_def erases_def split: if_split_asm)
qed

lemma restart_frame:
  assumes "node_ok rf" and "Make (peers rf) (me rf) (Copy (persister rf)) ev = Some rf'"
  shows "election_frame rf rf'"
  using restart_elim [OF assms] by (simp add: election_frame_def node_step_def)

lemma vote_inv_initial:
  assumes "initial ps s"
  shows "vote_inv (length ps) (\<lambda>t v. None) (\<lambda>b. {}) (\<lambda>b. (0, 0)) s"
proof -
  have "votedFor (servers s ! i) = -1 \<and> state (servers s ! i) = Follower" if "i < length ps" for i
  proof -
    have "\<exists>ev. Make ps i MakePersister ev = Some (servers s ! i)" using assms that unfolding initial_def by blast
    then obtain ev where mk: "Make ps i MakePersister ev = Some (servers s ! i)" ..
    have "raftstate MakePersister = []" by (simp add: MakePersister_def)
    from mk [unfolded Make_fresh [OF this] option.inject, symmetric] show ?thesis by simp
  qed
  then show ?thesis using assms
    by (simp add: vote_inv_def node_votes_def ballot_ok_def initial_def)
qed

lemma count_inv:
  assumes ok: "cluster_ok n s" and inv: "vote_inv n V C T s"
    and fl: "flights s = xs @ VoteRep i c j args reply b # ys" and run: "running i c s" and b: "b < length (ballots s)"
    and crv: "candidateRequestVote args reply (ballots s ! b) ev (servers s ! i) = Some (bal', rf', acts)"
    and s': "s' = s\<lparr>servers := (servers s)[i := rf'], ballots := (ballots s)[b := bal'], flights := xs @ ys @ spawns i s acts,
       elections := (if onceDone bal' \<and> \<not> onceDone (ballots s ! b) then [(currentTerm rf', i)] else []) @ elections s\<rparr>"
  shows "\<exists>V C T. vote_inv n V C T s'"
proof -
  have len: "length (servers s) = n" using ok by (simp add: cluster_ok_def)
  have il: "i < n" using run len by (simp add: running_def)
  have nok: "node_ok (servers s ! i)" and np: "length (peers (servers s ! i)) = n"
    using cluster_ok_server [OF ok] il len by (simp_all add: server_ok_def)
  have "flight_ok n (length (ballots s)) (VoteRep i c j args reply b)" by (rule cluster_ok_flight [OF ok]) (simp add: fl)
  then have t: "0 < rv_Term args" and ij: "j < n" "j \<noteq> i" by simp_all
  note counted = vote_inv_counted [OF inv len il ij fl b, where s' = s' and rf' = rf' and bal' = bal']
  have unmoved: "vote_inv n V C T s'" if "bal' = ballots s ! b" "acts = []" and fr: "election_frame (servers s ! i) rf'"
  proof -
    have e: "ballots s' = ballots s" "flights s' = xs @ ys" "elections s' = elections s" "servers s' = (servers s)[i := rf']"
      using that by (simp_all add: s' spawns_def)
    show ?thesis
    proof (rule vote_inv_quiet [OF inv len e(4) fr])
      show "ballots s' = ballots s \<or> ballots s' = ballots s @ [newBallot]" "elections s' = elections s" by (simp_all add: e)
      show "f \<in> set (flights s) \<or> no_vote f" if "f \<in> set (flights s')" for f using that by (auto simp: e(2) fl)
      show "distinct (outstanding b (flights s')) \<and> set (outstanding b (flights s')) \<subseteq> set (outstanding b (flights s))"
        if "distinct (outstanding b (flights s))" for b
        using that outstanding_remove unfolding e(2) fl by blast
    qed
  qed
  from crv show ?thesis
  proof (cases rule: candidateRequestVote_elim)
    case newer
    have fr: "election_frame (servers s ! i) rf'"
    proof (cases "currentTerm (servers s ! i) < rvr_Term reply")
      case True
      then show ?thesis unfolding newer(3) by (rule setNewTerm_frame)
    next
      case False
      then show ?thesis using newer(1,3) t by (simp add: setNewTerm_def)
    qed
    show ?thesis using unmoved [OF newer(2,4) fr] by blast
  next
    case refused
    show ?thesis using unmoved [OF refused(2,4)] refused(3) by auto
  next
    case refused: counted
    have "vote_inv n V (C(b := insert j (C b))) T s'"
      by (rule counted [where els = "[]" and new = "[]"]) (use refused s' in \<open>simp_all add: spawns_def\<close>)
    then show ?thesis by blast
  next
    case elected
    note k = becomeLeader_keeps [OF nok elected(3)]
    obtain l where "\<forall>a \<in> set acts. sent_ok (freshLeader l (servers s ! i)) a" using k(10) by blast
    then have nv: "\<forall>f \<in> set (spawns i s acts). no_vote f" using spawns_no_vote by blast
    have "vote_inv n V (C(b := insert j (C b))) T s'"
      by (rule counted [where els = "[(currentTerm rf', i)]" and new = "spawns i s acts"])
        (use elected k s' nv np in \<open>simp_all add: wins_def\<close>)
    then show ?thesis by blast
  qed
qed


lemma tick_inv:
  assumes ok: "cluster_ok n s" and inv: "vote_inv n V C T s" and il: "i < n"
    and t: "ticker_turn ev1 ev2 (servers s ! i) = Some (rf', acts)"
    and s': "s' = s\<lparr>servers := (servers s)[i := rf'], ballots := ballots s @ [newBallot], flights := flights s @ spawns i s acts\<rparr>"
  shows "\<exists>V C T. vote_inv n V C T s'"
proof -
  have len: "length (servers s) = n" using ok by (simp add: cluster_ok_def)
  have nok: "node_ok (servers s ! i)" and me: "me (servers s ! i) = i"
    using cluster_ok_server [OF ok] il len by (simp_all add: server_ok_def)
  show ?thesis
  proof (rule ticker_turn_elim [OF nok t])
    fix u
    assume q: "rf' = (servers s ! i)\<lparr>electionTime := u\<rparr>" "\<forall>a \<in> set acts. sent_ok (servers s ! i) a"
    have nv: "\<forall>f \<in> set (spawns i s acts). no_vote f" using spawns_no_vote [OF q(2)] by blast
    have "vote_inv n V C T s'"
    proof (rule vote_inv_quiet [OF inv len])
      show "servers s' = (servers s)[i := rf']" by (simp add: s')
      show "election_frame (servers s ! i) rf'" by (simp add: q(1) election_frame_def)
    qed (use s' nv outstanding_no_vote [OF nv] in auto)
    then show ?thesis by blast
  next
    fix u acts1 acts2
    let ?rf = "(servers s ! i)\<lparr>electionTime := u\<rparr>" and ?b = "length (ballots s)"
    assume e: "leaderElection ev2 ?rf = Some (rf', acts2)" "acts = acts1 @ acts2"
      "\<forall>a \<in> set acts1. sent_ok (servers s ! i) a" "node_ok ?rf"
    have wi: "well_indexed ?rf" using e(4) by (simp add: node_ok_def)
    note k = leaderElection_keeps [OF e(4,1)]
    have "\<exists>v (l :: Entry). leaderElection ev2 ?rf = Some (v,
       map (\<lambda>p. GoRequestVote p \<lparr>rv_Term = currentTerm (servers s ! i) + 1, CandidateId = int i, LastLogIndex = e_Index l, LastLogTerm = e_Term l\<rparr>)
           (filter (\<lambda>p. p \<noteq> i) [0..<length (peers (servers s ! i))]))"
      by (rule leaderElection_eq [OF wi, of ev2]) (use me in auto)
    then obtain l :: Entry where a2: "acts2 = map (\<lambda>p. GoRequestVote p
         \<lparr>rv_Term = currentTerm (servers s ! i) + 1, CandidateId = int i, LastLogIndex = e_Index l, LastLogTerm = e_Term l\<rparr>)
           (filter (\<lambda>p. p \<noteq> i) [0..<length (peers (servers s ! i))])" (is "_ = map (\<lambda>p. GoRequestVote p ?args) ?ps")
      using e(1) by auto
    have nv: "\<forall>f \<in> set (spawns i s acts1). no_vote f" using spawns_no_vote [OF e(3)] by blast
    have sp: "spawns i s acts = spawns i s acts1 @ map (\<lambda>p. VoteReq i (incs s ! i) p ?args ?b) ?ps"
      by (simp add: spawns_def e(2) a2 comp_def)
    have nb: "polled b f = []" if "f \<in> set (flights s)" "?b \<le> b" for f b
      using cluster_ok_flight [OF ok that(1)] that(2) by (cases f) auto
    have "vote_inv n (V(rv_Term ?args := (V (rv_Term ?args))(i := Some (int i)))) C (T(?b := (rv_Term ?args, i))) s'"
    proof (rule vote_inv_candidate [OF inv len il nb])
      show "flights s' = flights s @ spawns i s acts1 @ map (\<lambda>p. VoteReq i (incs s ! i) p ?args ?b) ?ps" by (simp add: s' sp)
      show "currentTerm rf' = currentTerm (servers s ! i) + 1" "votedFor rf' = int i" "state rf' = Candidate"
        using k me by simp_all
    qed (use nv in \<open>simp_all add: s'\<close>)
    then show ?thesis by blast
  qed
qed

text \<open>A quiet step that takes one flight and adds flights that are not votes, and one that only adds.\<close>

lemma vote_inv_take:
  assumes inv: "vote_inv n V C T s" and len: "length (servers s) = n"
    and srv: "servers s' = (servers s)[i := rf']" and fr: "election_frame (servers s ! i) rf'"
    and "ballots s' = ballots s" and "elections s' = elections s"
    and fl: "flights s = xs @ f # ys" "flights s' = xs @ ys @ new" and new: "\<forall>f \<in> set new. no_vote f"
  shows "vote_inv n V C T s'"
proof (rule vote_inv_quiet [OF inv len srv fr])
  show "g \<in> set (flights s) \<or> no_vote g" if "g \<in> set (flights s')" for g using that new by (auto simp: fl)
  show "distinct (outstanding b (flights s')) \<and> set (outstanding b (flights s')) \<subseteq> set (outstanding b (flights s))"
    if "distinct (outstanding b (flights s))" for b
    using that outstanding_remove [of b xs f ys] by (simp add: fl outstanding_no_vote [OF new])
qed (use assms in simp_all)

lemma vote_inv_add:
  assumes inv: "vote_inv n V C T s" and len: "length (servers s) = n"
    and srv: "servers s' = (servers s)[i := rf']" and fr: "election_frame (servers s ! i) rf'"
    and "ballots s' = ballots s" and "elections s' = elections s"
    and fl: "flights s' = flights s @ new" and new: "\<forall>f \<in> set new. no_vote f"
  shows "vote_inv n V C T s'"
proof (rule vote_inv_quiet [OF inv len srv fr])
  show "g \<in> set (flights s) \<or> no_vote g" if "g \<in> set (flights s')" for g using that new by (auto simp: fl)
qed (use assms outstanding_no_vote [OF new] in simp_all)

lemma vote_inv_step:
  assumes ok: "cluster_ok n s" and inv: "vote_inv n V C T s" and st: "step s e s'" and keep: "keeps_votes e"
  shows "\<exists>V C T. vote_inv n V C T s'"
proof -
  have len: "length (servers s) = n" using ok by (simp add: cluster_ok_def)
  have srv: "node_ok (servers s ! i)" "me (servers s ! i) = i" "length (peers (servers s ! i)) = n" if "i < length (servers s)" for i
    using cluster_ok_server [OF ok that] by (simp_all add: server_ok_def)
  note take = vote_inv_take [OF inv len] and add = vote_inv_add [OF inv len]
  from st show ?thesis
  proof cases
    case (tick i ev1 ev2 rf' acts)
    then show ?thesis using tick_inv [OF ok inv _ tick(5), of s'] len by simp
  next
    case (start i cmd ev res rf' acts)
    have "\<exists>rf. \<forall>a \<in> set acts. sent_ok rf a"
      by (rule Start_elim [OF srv(1) [OF start(3)] start(4)]) auto
    then have nv: "\<forall>f \<in> set (spawns i s acts). no_vote f" using spawns_no_vote by blast
    have "vote_inv n V C T s'"
      by (rule add [OF _ Start_keeps(2) [OF srv(1) [OF start(3)] start(4)] _ _ _ nv]) (simp_all add: start)
    then show ?thesis by blast
  next
    case (vote xs j c i args b ys ev reply rf')
    have wi: "well_indexed (servers s ! i)" using srv(1) [OF vote(4)] by (simp add: node_ok_def)
    have "flight_ok n (length (ballots s)) (VoteReq j c i args b)" by (rule cluster_ok_flight [OF ok]) (simp add: vote)
    then have "CandidateId args = int j" by simp
    then have "\<exists>V'. vote_inv n V' C T s'"
      by (intro vote_inv_voter [OF inv len _ wi vote(5) vote(3)]) (use vote len in simp_all)
    then show ?thesis by blast
  next
    case (count xs i c j args reply b ys ev bal' rf' acts)
    show ?thesis by (rule count_inv [OF ok inv count(3-6) count(2)])
  next
    case (append xs j c i args ys ev reply rf' acts)
    have "vote_inv n V C T s'"
      by (rule take [OF _ AppendEntries_frame [OF srv(1) [OF append(4)] append(5)] _ _ append(3), where new = "[AppRep j c i args reply]"]) (simp_all add: append(2))
    then show ?thesis by blast
  next
    case (ack xs i c j args reply ys rf' acts)
    have il: "i < length (servers s)" using ack(4) by (simp add: running_def)
    have "flight_ok n (length (ballots s)) (AppRep i c j args reply)" by (rule cluster_ok_flight [OF ok]) (simp add: ack)
    then have j: "j < length (peers (servers s ! i))" using srv(3) [OF il] by simp
    have "vote_inv n V C T s'"
      by (rule take [OF _ leaderSendEntries_keeps(2) [OF srv(1) [OF il] j ack(5)] _ _ ack(3), where new = "[]"]) (simp_all add: ack(2))
    then show ?thesis by blast
  next
    case (snapgo xs i c j ys)
    have "vote_inv n V C T s'"
      by (rule take [where i = i and rf' = "servers s ! i", OF _ election_frame_refl _ _ snapgo(3), where new = "[SnapReq i c j (leaderSendSnapShot_args (servers s ! i))]"]) (simp_all add: snapgo(2))
    then show ?thesis by blast
  next
    case (install xs j c i args ys ev reply rf' msg)
    have "\<not> erases (servers s ! i) rf'" using keep install(1) by (simp add: keeps_votes_def)
    note fr = InstallSnapShot_frame [OF srv(1) [OF install(4)] install(5) this]
    have nv: "\<forall>f \<in> set (SnapRep j c i args reply # sendings i s False msg). no_vote f" using sendings_no_vote by auto
    have "vote_inv n V C T s'"
      by (rule take [OF _ fr _ _ install(3) _ nv]) (simp_all add: install(2))
    then show ?thesis by blast
  next
    case (installed xs i c j args reply ys ev rf')
    have il: "i < length (servers s)" using installed(4) by (simp add: running_def)
    have "flight_ok n (length (ballots s)) (SnapRep i c j args reply)" by (rule cluster_ok_flight [OF ok]) (simp add: installed)
    then have j: "j < length (peers (servers s ! i))" using srv(3) [OF il] by simp
    have "\<not> erases (servers s ! i) rf'" using keep installed(1) by (simp add: keeps_votes_def)
    note fr = leaderSendSnapShot_reply_frame [OF srv(1) [OF il] j installed(5) this]
    have "vote_inv n V C T s'"
      by (rule take [OF _ fr _ _ installed(3), where new = "[]"]) (simp_all add: installed(2))
    then show ?thesis by blast
  next
    case (snapshot i index snap rf')
    have "vote_inv n V C T s'"
      by (rule add [OF _ Snapshot_keeps(2) [OF srv(1) [OF snapshot(3)] snapshot(4)], where new = "[]"]) (simp_all add: snapshot(2))
    then show ?thesis by blast
  next
    case (apply_next i rf' msg)
    have ap: "apply_ok (servers s ! i)" using cluster_ok_server [OF ok apply_next(3)] by (simp add: server_ok_def)
    have nv: "\<forall>f \<in> set (sendings i s True msg). no_vote f" using sendings_no_vote by blast
    have "vote_inv n V C T s'"
      by (rule add [OF _ applier_turn_keeps(4) [OF srv(1) [OF apply_next(3)] ap apply_next(6)] _ _ _ nv]) (simp_all add: apply_next(2))
    then show ?thesis by blast
  next
    case (send xs i c ap msg ys)
    have "vote_inv n V C T s'"
      by (rule take [where i = i and rf' = "servers s ! i", OF _ election_frame_refl _ _ send(3), where new = "[]"]) (simp_all add: send(2))
    then show ?thesis by blast
  next
    case (lost xs f ys)
    have "vote_inv n V C T s'"
      by (rule take [where i = 0 and rf' = "servers s ! 0", OF _ election_frame_refl _ _ lost(3), where new = "[]"]) (simp_all add: lost(2))
    then show ?thesis by blast
  next
    case (kill i)
    have "vote_inv n V C T s'"
      by (rule add [where i = i and rf' = "Kill (servers s ! i)" and new = "[]"]) (simp_all add: kill(2) Kill_def election_frame_def)
    then show ?thesis by blast
  next
    case (restart i ev rf')
    have mk: "Make (peers (servers s ! i)) (me (servers s ! i)) (Copy (persister (servers s ! i))) ev = Some rf'"
      using restart(4) srv(2) [OF restart(3)] by simp
    have "vote_inv n V C T s'"
      by (rule add [OF _ restart_frame [OF srv(1) [OF restart(3)] mk], where new = "[]"]) (simp_all add: restart(2))
    then show ?thesis by blast
  qed
qed

interpretation es: step_invariant "initial ps" step keeps_votes "election_inv (length ps)" for ps
proof
  show "election_inv (length ps) s" if "initial ps s" for s
    using cluster_ok_initial [OF that] vote_inv_initial [OF that] unfolding election_inv_def by blast
  show "election_inv (length ps) s'" if "election_inv (length ps) s" "step s e s'" "keeps_votes e" for s e s'
    using that cluster_ok_step vote_inv_step unfolding election_inv_def by blast
qed

section \<open>One leader per term\<close>

lemma elected_by_unique: "elected_by n V (t, i) \<Longrightarrow> elected_by n V (t, j) \<Longrightarrow> i = j"
proof -
  assume "elected_by n V (t, i)" "elected_by n V (t, j)"
  then obtain Q R where "majority n Q" "\<And>v. v \<in> Q \<Longrightarrow> V t v = Some (int i)"
    "majority n R" "\<And>v. v \<in> R \<Longrightarrow> V t v = Some (int j)"
    by (auto simp: elected_by_def)
  then have "int i = int j" by (intro maj.quorum_choice [of n Q R "V t"])
  then show "i = j" by simp
qed

lemma election_inv_unique:
  assumes "election_inv n s" and "(t, i) \<in> set (elections s)" and "(t, j) \<in> set (elections s)"
  shows "i = j"
  using assms elected_by_unique unfolding election_inv_def vote_inv_def by metis

lemma election_inv_leader:
  "election_inv n s \<Longrightarrow> i < n \<Longrightarrow> state (servers s ! i) = Leader \<Longrightarrow> (currentTerm (servers s ! i), i) \<in> set (elections s)"
  unfolding election_inv_def vote_inv_def by blast

end
