(* ===== verification/Log_Matching.thy ===== *)
theory Log_Matching
  imports Election_Safety
begin

text \<open>
  The log matching property, for runs without log compaction and without erased votes: if two
  servers hold an entry of the same term at the same index, their logs are the same up to there. The
  ghost function \<open>L t\<close> is the log of the leader of term \<open>t\<close>, at its longest; it only grows, every
  log of the cluster agrees with it entry by entry, and every request carries a window of it.
\<close>

section \<open>The invariant\<close>

type_synonym leader_logs = "int \<Rightarrow> Entry list"

definition pad :: Entry where
  "pad = \<lparr>Command = IInt (-1), e_Term = 0, e_Index = 0\<rparr>"

definition agrees :: "leader_logs \<Rightarrow> Entry list \<Rightarrow> bool" where
  "agrees L es \<longleftrightarrow> es \<noteq> [] \<and> es ! 0 = pad \<and>
     (\<forall>k \<in> {1..<length es}. k < length (L (e_Term (es ! k))) \<and> take (Suc k) es = take (Suc k) (L (e_Term (es ! k))))"

definition sent_from :: "leader_logs \<Rightarrow> AppendEntriesArgs \<Rightarrow> bool" where
  "sent_from L args \<longleftrightarrow> 0 \<le> PrevLogIndex args \<and> nat (PrevLogIndex args) < length (L (ae_Term args)) \<and>
     e_Term (L (ae_Term args) ! nat (PrevLogIndex args)) = PrevLogTerm args \<and>
     take (length (ae_Entries args)) (drop (Suc (nat (PrevLogIndex args))) (L (ae_Term args))) = ae_Entries args"

fun log_flight :: "leader_logs \<Rightarrow> (int \<times> nat) set \<Rightarrow> flight \<Rightarrow> bool" where
  "log_flight L el (AppReq j c i args) \<longleftrightarrow> sent_from L args \<and> (ae_Term args, j) \<in> el"
| "log_flight L el (SnapReq j c i args) \<longleftrightarrow> LastIncludeIndex args = 0"
| "log_flight L el _ \<longleftrightarrow> True"

definition log_node :: "leader_logs \<Rightarrow> Raft \<Rightarrow> bool" where
  "log_node L rf \<longleftrightarrow> lastIncludeIndex rf = 0 \<and> lastIncludeTerm rf = 0 \<and> agrees L (Entries (log rf)) \<and>
     (state rf = Leader \<longrightarrow> Entries (log rf) = L (currentTerm rf))"

definition log_inv :: "nat \<Rightarrow> leader_logs \<Rightarrow> Cluster \<Rightarrow> bool" where
  "log_inv n L s \<longleftrightarrow> (\<forall>i < n. log_node L (servers s ! i)) \<and>
     (\<forall>t. L t \<noteq> [] \<longrightarrow> agrees L (L t) \<and> t \<in> fst ` set (elections s)) \<and>
     (\<forall>f \<in> set (flights s). log_flight L (set (elections s)) f) \<and>
     (\<forall>(t, i) \<in> set (elections s). i < n \<and> t \<le> currentTerm (servers s ! i) \<and>
        (t = currentTerm (servers s ! i) \<longrightarrow> state (servers s ! i) \<noteq> Candidate))"

lemma agreesD:
  assumes "agrees L es" and "0 < k" and "k < length es"
  shows "k < length (L (e_Term (es ! k)))" "take (Suc k) es = take (Suc k) (L (e_Term (es ! k)))"
  using assms unfolding agrees_def by (metis One_nat_def Suc_leI atLeastLessThan_iff)+

section \<open>Leader logs only grow\<close>

definition grows :: "leader_logs \<Rightarrow> leader_logs \<Rightarrow> bool" where
  "grows L L' \<longleftrightarrow> (\<forall>t. \<exists>xs. L' t = L t @ xs)"

lemma grows_refl [simp]: "grows L L"
  by (simp add: grows_def)

lemma growsD:
  assumes "grows L L'"
  shows "length (L t) \<le> length (L' t)" "k < length (L t) \<Longrightarrow> L' t ! k = L t ! k"
    "k \<le> length (L t) \<Longrightarrow> take k (L' t) = take k (L t)"
proof -
  obtain xs where "L' t = L t @ xs" using assms unfolding grows_def by blast
  then show "length (L t) \<le> length (L' t)" "k < length (L t) \<Longrightarrow> L' t ! k = L t ! k"
    "k \<le> length (L t) \<Longrightarrow> take k (L' t) = take k (L t)"
    by (simp_all add: nth_append)
qed

lemma agrees_grows:
  assumes "agrees L es" and "grows L L'"
  shows "agrees L' es"
  unfolding agrees_def
proof (intro conjI ballI)
  show "es \<noteq> []" "es ! 0 = pad" using assms(1) by (simp_all add: agrees_def)
  fix k assume "k \<in> {1..<length es}"
  then have k: "k < length (L (e_Term (es ! k)))" "take (Suc k) es = take (Suc k) (L (e_Term (es ! k)))"
    using assms(1) unfolding agrees_def by blast+
  then show "k < length (L' (e_Term (es ! k)))" "take (Suc k) es = take (Suc k) (L' (e_Term (es ! k)))"
    using growsD [OF assms(2)] by (metis order_less_le_trans, metis Suc_leI)
qed

lemma sent_from_grows:
  assumes "sent_from L args" and "grows L L'"
  shows "sent_from L' args"
proof -
  obtain xs where xs: "L' (ae_Term args) = L (ae_Term args) @ xs" using assms(2) unfolding grows_def by blast
  let ?p = "nat (PrevLogIndex args)"
  have p: "?p < length (L (ae_Term args))" using assms(1) by (simp add: sent_from_def)
  have e: "take (length (ae_Entries args)) (drop (Suc ?p) (L (ae_Term args))) = ae_Entries args"
    using assms(1) by (simp add: sent_from_def)
  then have "length (ae_Entries args) \<le> length (L (ae_Term args)) - Suc ?p"
    by (metis length_drop length_take min.cobounded1 min.commute)
  then show ?thesis using assms(1) p e by (simp add: sent_from_def xs nth_append)
qed

lemma log_flight_grows: "log_flight L el f \<Longrightarrow> grows L L' \<Longrightarrow> el \<subseteq> el' \<Longrightarrow> log_flight L' el' f"
  by (cases f) (auto intro: sent_from_grows)

text \<open>A prefix of a leader's log agrees.\<close>

lemma agrees_take:
  assumes "agrees L es" and "0 < m"
  shows "agrees L (take m es)"
  unfolding agrees_def
proof (intro conjI ballI)
  show "take m es \<noteq> []" "take m es ! 0 = pad" using assms by (simp_all add: agrees_def)
  fix k assume "k \<in> {1..<length (take m es)}"
  then have "k \<in> {1..<length es}" and m: "Suc k \<le> m" by auto
  then have k: "k < length (L (e_Term (es ! k)))" "take (Suc k) es = take (Suc k) (L (e_Term (es ! k)))"
    using assms(1) unfolding agrees_def by blast+
  then show "k < length (L (e_Term (take m es ! k)))" "take (Suc k) (take m es) = take (Suc k) (L (e_Term (take m es ! k)))"
    using m by (simp_all add: min_def)
qed

text \<open>Appending an entry of the leader's term to its log.\<close>

lemma agrees_append:
  assumes "agrees L (L t)" and "e_Term e = t"
  shows "agrees (L(t := L t @ [e])) (L t @ [e])"
  unfolding agrees_def
proof (intro conjI ballI)
  let ?L = "L(t := L t @ [e])"
  have g: "grows L ?L" by (simp add: grows_def)
  have ag: "agrees ?L (L t)" by (rule agrees_grows [OF assms(1) g])
  show "L t @ [e] \<noteq> []" "(L t @ [e]) ! 0 = pad" using assms(1) by (auto simp: agrees_def nth_append)
  fix k assume k: "k \<in> {1..<length (L t @ [e])}"
  show "k < length (?L (e_Term ((L t @ [e]) ! k)))"
    "take (Suc k) (L t @ [e]) = take (Suc k) (?L (e_Term ((L t @ [e]) ! k)))"
  proof -
    consider "k = length (L t)" | "k \<in> {1..<length (L t)}" using k by fastforce
    then have "k < length (?L (e_Term ((L t @ [e]) ! k))) \<and>
      take (Suc k) (L t @ [e]) = take (Suc k) (?L (e_Term ((L t @ [e]) ! k)))"
    proof cases
      case 1
      then show ?thesis using assms(2) by (simp add: nth_append)
    next
      case 2
      then have "k < length (?L (e_Term (L t ! k))) \<and> take (Suc k) (L t) = take (Suc k) (?L (e_Term (L t ! k)))"
        using ag unfolding agrees_def by blast
      then show ?thesis using 2 by (simp add: nth_append)
    qed
    then show "k < length (?L (e_Term ((L t @ [e]) ! k)))"
      "take (Suc k) (L t @ [e]) = take (Suc k) (?L (e_Term ((L t @ [e]) ! k)))" by blast+
  qed
qed

text \<open>Storing a request: the follower's log becomes a prefix of the leader's.\<close>

lemma stored_prefix:
  assumes es: "agrees L es" and lt: "agrees L (L (ae_Term args))" and sf: "sent_from L args"
    and p: "nat (PrevLogIndex args) < length es" and pt: "e_Term (es ! nat (PrevLogIndex args)) = PrevLogTerm args"
  shows "take (Suc (nat (PrevLogIndex args))) es @ ae_Entries args =
    take (Suc (nat (PrevLogIndex args)) + length (ae_Entries args)) (L (ae_Term args))"
proof -
  let ?p = "nat (PrevLogIndex args)" and ?l = "L (ae_Term args)"
  have lp: "?p < length ?l" "e_Term (?l ! ?p) = PrevLogTerm args" using sf by (simp_all add: sent_from_def)
  have "take (Suc ?p) es = take (Suc ?p) ?l"
  proof (cases "?p = 0")
    case True
    have "take (Suc 0) xs = [pad]" if "agrees L xs" for xs
      using that by (cases xs) (simp_all add: agrees_def)
    then show ?thesis using es lt True by simp
  next
    case False
    have "take (Suc ?p) xs = take (Suc ?p) (L (PrevLogTerm args))" if "agrees L xs" "?p < length xs" "e_Term (xs ! ?p) = PrevLogTerm args" for xs
      using agreesD(2) [OF that(1), of ?p] that(2,3) False by simp
    then show ?thesis using es lt p pt lp by metis
  qed
  moreover have "take (length (ae_Entries args)) (drop (Suc ?p) ?l) = ae_Entries args" using sf by (simp add: sent_from_def)
  ultimately show ?thesis by (metis take_add)
qed

section \<open>Steps\<close>

lemma log_inv_update:
  assumes inv: "log_inv n L s" and len: "length (servers s) = n" and g: "grows L L'"
    and srv: "servers s' = (servers s)[i := rf']"
    and node: "i < n \<Longrightarrow> log_node L' rf'"
    and others: "\<And>j. j < n \<Longrightarrow> j \<noteq> i \<Longrightarrow> state (servers s ! j) = Leader \<Longrightarrow> L' (currentTerm (servers s ! j)) = L (currentTerm (servers s ! j))"
    and leads: "\<And>t. L' t \<noteq> [] \<Longrightarrow> L' t \<noteq> L t \<Longrightarrow> agrees L' (L' t) \<and> t \<in> fst ` set (elections s')"
    and fl: "\<And>f. f \<in> set (flights s') \<Longrightarrow> f \<in> set (flights s) \<or> log_flight L' (set (elections s')) f"
    and el: "elections s' = new @ elections s" "\<And>t k. (t, k) \<in> set new \<Longrightarrow> t = currentTerm rf' \<and> k = i \<and> i < n \<and> state rf' = Leader"
    and tm: "currentTerm (servers s ! i) \<le> currentTerm rf'"
      "currentTerm rf' = currentTerm (servers s ! i) \<Longrightarrow> state rf' = Candidate \<Longrightarrow> state (servers s ! i) = Candidate"
  shows "log_inv n L' s'"
  unfolding log_inv_def
proof (intro conjI allI impI ballI)
  fix j assume j: "j < n"
  show "log_node L' (servers s' ! j)"
  proof (cases "j = i")
    case True
    then show ?thesis using node j len srv by simp
  next
    case False
    have "log_node L (servers s ! j)" using inv j by (simp add: log_inv_def)
    then have "log_node L' (servers s ! j)" using others [OF j False] agrees_grows [OF _ g] by (auto simp: log_node_def)
    then show ?thesis using False srv by simp
  qed
next
  fix t assume t: "L' t \<noteq> []"
  have "agrees L' (L' t) \<and> t \<in> fst ` set (elections s')"
  proof (cases "L' t = L t")
    case True
    then have "agrees L (L t) \<and> t \<in> fst ` set (elections s)" using inv t by (simp add: log_inv_def)
    then show ?thesis using True agrees_grows [OF _ g] el(1) by auto
  next
    case False
    then show ?thesis by (rule leads [OF t])
  qed
  then show "agrees L' (L' t)" "t \<in> fst ` set (elections s')" by blast+
next
  fix f assume f: "f \<in> set (flights s')"
  show "log_flight L' (set (elections s')) f"
  proof (cases "f \<in> set (flights s)")
    case True
    then have "log_flight L (set (elections s)) f" using inv by (simp add: log_inv_def)
    then show ?thesis by (rule log_flight_grows [OF _ g]) (simp add: el(1))
  next
    case False
    then show ?thesis using fl [OF f] by blast
  qed
next
  fix e assume "e \<in> set (elections s')"
  then have e: "e \<in> set new \<or> e \<in> set (elections s)" by (simp add: el(1))
  obtain t k where tk: "e = (t, k)" by (cases e)
  have "k < n \<and> t \<le> currentTerm (servers s' ! k) \<and> (t = currentTerm (servers s' ! k) \<longrightarrow> state (servers s' ! k) \<noteq> Candidate)"
  proof (cases "e \<in> set new")
    case True
    then show ?thesis using el(2) [of t k] tk srv len by simp
  next
    case False
    then have old: "k < n" "t \<le> currentTerm (servers s ! k)" "t = currentTerm (servers s ! k) \<longrightarrow> state (servers s ! k) \<noteq> Candidate"
      using e inv tk by (auto simp: log_inv_def)
    then show ?thesis using tm srv len by (cases "k = i") (auto simp: order_antisym)
  qed
  then show "case e of (t, k) \<Rightarrow> k < n \<and> t \<le> currentTerm (servers s' ! k) \<and>
      (t = currentTerm (servers s' ! k) \<longrightarrow> state (servers s' ! k) \<noteq> Candidate)" by (simp add: tk)
qed

text \<open>A step that leaves the log alone and makes no leader.\<close>

definition log_quiet :: "Raft \<Rightarrow> Raft \<Rightarrow> bool" where
  "log_quiet rf rf' \<longleftrightarrow> same_log rf rf' \<and> currentTerm rf \<le> currentTerm rf' \<and>
     (state rf' = Leader \<longrightarrow> state rf = Leader \<and> currentTerm rf' = currentTerm rf) \<and>
     (currentTerm rf' = currentTerm rf \<longrightarrow> state rf' = Candidate \<longrightarrow> state rf = Candidate)"

lemma log_quiet_refl [simp]: "log_quiet rf rf"
  by (simp add: log_quiet_def same_log_def)

lemma log_quiet_frame: "election_frame rf rf' \<Longrightarrow> same_log rf rf' \<Longrightarrow> log_quiet rf rf'"
  by (auto simp: log_quiet_def election_frame_def)

lemma log_node_quiet: "log_node L rf \<Longrightarrow> log_quiet rf rf' \<Longrightarrow> log_node L rf'"
  by (auto simp: log_node_def log_quiet_def same_log_def)

lemma log_inv_quiet:
  assumes inv: "log_inv n L s" and len: "length (servers s) = n"
    and srv: "servers s' = (servers s)[i := rf']" and q: "log_quiet (servers s ! i) rf'"
    and el: "elections s' = elections s"
    and fl: "\<And>f. f \<in> set (flights s') \<Longrightarrow> f \<in> set (flights s) \<or> log_flight L (set (elections s)) f"
  shows "log_inv n L s'"
proof (rule log_inv_update [OF inv len grows_refl srv, where new = "[]"])
  show "log_node L rf'" if "i < n"
    using inv that q log_node_quiet unfolding log_inv_def by blast
  show "f \<in> set (flights s) \<or> log_flight L (set (elections s')) f" if "f \<in> set (flights s')" for f
    using fl [OF that] el by simp
qed (use q el in \<open>simp_all add: log_quiet_def\<close>)

text \<open>What a leader sends is a window of its log.\<close>

lemma leader_sends:
  assumes "node_ok rf" and "lastIncludeIndex rf = 0" and "lastIncludeTerm rf = 0" and "agrees L (Entries (log rf))"
    and "Entries (log rf) = L (currentTerm rf)" and "(currentTerm rf, i) \<in> el"
    and "\<forall>a \<in> set acts. sent_ok rf a" and "f \<in> set (spawns i s acts)"
  shows "log_flight L el f"
proof -
  obtain a where a: "a \<in> set acts" "f \<in> set (spawn i (incs s ! i) (length (ballots s)) a)" using assms(8) by (auto simp: spawns_def)
  then have ok: "sent_ok rf a" using assms(7) by blast
  show ?thesis
  proof (cases a)
    case (GoSendEntries p args)
    let ?p = "nat (PrevLogIndex args)"
    have s: "ae_Term args = currentTerm rf" "0 \<le> PrevLogIndex args" "PrevLogIndex args \<le> getLastIndex rf"
      "restoreLogTerm rf (PrevLogIndex args) = Some (PrevLogTerm args)"
      "ae_Entries args = drop (Suc ?p) (Entries (log rf))"
      using ok GoSendEntries assms(2) by (simp_all add: nat_add_distrib)
    have p: "?p < length (Entries (log rf))"
      using s(2,3) assms(2,4) by (cases "Entries (log rf)") (auto simp: getLastIndex_def log_len_def agrees_def)
    have "e_Term (Entries (log rf) ! ?p) = PrevLogTerm args"
    proof (cases "PrevLogIndex args = 0")
      case True
      then show ?thesis using s(4) assms(2-4) by (simp add: restoreLogTerm_def agrees_def pad_def)
    next
      case False
      then show ?thesis using s(2,4) p assms(2) by (simp add: restoreLogTerm_def log_at_def go_nth_def split: if_split_asm)
    qed
    then have "sent_from L args" using s p assms(5) by (simp add: sent_from_def)
    then show ?thesis using a(2) GoSendEntries s(1) assms(6) by simp
  qed (use a ok in auto)
qed

section \<open>The quiet operations\<close>

lemma RequestVote_quiet:
  assumes "node_ok rf" and "RequestVote args ev rf = Some (reply, rf')"
  shows "log_quiet rf rf'"
proof -
  have wi: "well_indexed rf" using assms(1) by (simp add: node_ok_def)
  have j: "log_quiet rf (joined args rf)"
    by (rule log_quiet_frame [OF joined_frame]) (simp add: same_log_def joined_fields)
  show ?thesis
  proof (cases "grants args rf")
    case True
    then have "rf' = resetElectionTimer ev (persist ((joined args rf)\<lparr>votedFor := CandidateId args\<rparr>))"
      using assms(2) by (auto simp: RequestVote_eq [OF wi])
    then show ?thesis using j by (simp add: log_quiet_def same_log_def resetElectionTimer_eq)
  next
    case False
    then show ?thesis using assms(2) j by (auto simp: RequestVote_eq [OF wi])
  qed
qed

lemma ticker_turn_quiet:
  assumes "node_ok rf" and "ticker_turn ev1 ev2 rf = Some (rf', acts)"
  shows "log_quiet rf rf'"
proof (rule ticker_turn_elim [OF assms])
  fix t
  assume "rf' = rf\<lparr>electionTime := t\<rparr>"
  then show ?thesis by (simp add: log_quiet_def same_log_def)
next
  fix t acts2
  assume "leaderElection ev2 (rf\<lparr>electionTime := t\<rparr>) = Some (rf', acts2)" "node_ok (rf\<lparr>electionTime := t\<rparr>)"
  from leaderElection_keeps [OF this(2,1)] show ?thesis by (simp add: log_quiet_def same_log_def)
qed

lemma setNewTerm_quiet: "0 < t \<Longrightarrow> log_quiet rf (setNewTerm t rf)"
  by (cases "currentTerm rf < t") (auto simp: log_quiet_def same_log_def setNewTerm_fields, auto simp: setNewTerm_def)

lemma demoted_quiet: "currentTerm rf \<le> is_Term args \<Longrightarrow> log_quiet rf (demoted args ev rf)"
  by (simp add: log_quiet_def same_log_def demoted_def)

lemma leaderSendSnapShot_reply_quiet:
  assumes "node_ok rf" and "j < length (peers rf)" and "leaderSendSnapShot_reply j args reply ev rf = Some rf'"
  shows "log_quiet rf rf'"
proof -
  have sz: "sized rf" using assms(1) by (simp add: node_ok_def)
  show ?thesis using assms(3) unfolding leaderSendSnapShot_reply_eq [OF sz assms(2)]
    by (auto simp: log_quiet_def same_log_def split: if_split_asm)
qed

lemma ticker_sends:
  assumes ok: "node_ok rf" and ln: "log_node L rf" and t: "ticker_turn ev1 ev2 rf = Some (rf', acts)"
    and el: "state rf = Leader \<Longrightarrow> (currentTerm rf, i) \<in> el" and f: "f \<in> set (spawns i s acts)"
  shows "log_flight L el f"
proof -
  have lead: "log_flight L el f" if "\<forall>a \<in> set as. sent_ok rf a" "f \<in> set (spawns i s as)" "state rf = Leader" for as
  proof -
    have z: "lastIncludeIndex rf = 0" "lastIncludeTerm rf = 0" "agrees L (Entries (log rf))" using ln by (simp_all add: log_node_def)
    have "Entries (log rf) = L (currentTerm rf)" using ln that(3) by (simp add: log_node_def)
    from leader_sends [OF ok z this el [OF that(3)] that(1,2)] show ?thesis .
  qed
  show ?thesis
  proof (rule ticker_turn_elim [OF ok t])
    assume "\<forall>a \<in> set acts. sent_ok rf a" "state rf \<noteq> Leader \<Longrightarrow> acts = []"
    then show ?thesis using lead f by (cases "state rf = Leader") (auto simp: spawns_def)
  next
    fix u acts1 acts2
    let ?rf = "rf\<lparr>electionTime := u\<rparr>"
    assume e: "leaderElection ev2 ?rf = Some (rf', acts2)" "acts = acts1 @ acts2" "\<forall>a \<in> set acts1. sent_ok rf a" "node_ok ?rf"
      "state rf \<noteq> Leader \<Longrightarrow> acts1 = []"
    have wi: "well_indexed ?rf" using e(4) by (simp add: node_ok_def)
    have "\<forall>a \<in> set acts2. \<exists>p args. a = GoRequestVote p args"
      by (rule leaderElection_eq [OF wi, of ev2]) (use e(1) in auto)
    then have "log_flight L el f" if "f \<in> set (spawns i s acts2)"
      using that by (force simp: spawns_def)
    moreover have "f \<in> set (spawns i s acts1) \<or> f \<in> set (spawns i s acts2)" using f e(2) by (simp add: spawns_def)
    moreover have "log_flight L el f" if "f \<in> set (spawns i s acts1)"
      using lead [OF e(3) that] e(5) that by (cases "state rf = Leader") (auto simp: spawns_def)
    ultimately show ?thesis by blast
  qed
qed

section \<open>The three operations that matter\<close>

lemma log_inv_elected:
  assumes inv: "log_inv n L s" and len: "length (servers s) = n" and i: "i < n"
    and e: "election_inv n s" and e': "election_inv n s'"
    and ok: "node_ok (servers s ! i)" and cand: "state (servers s ! i) = Candidate"
    and bl: "becomeLeader ev (servers s ! i) = Some (rf', acts)"
    and srv: "servers s' = (servers s)[i := rf']" and el: "elections s' = (currentTerm rf', i) # elections s"
    and fl: "flights s' = xs @ ys @ spawns i s acts" "flights s = xs @ f # ys"
  shows "\<exists>L. log_inv n L s'"
proof -
  let ?rf = "servers s ! i" and ?t = "currentTerm (servers s ! i)"
  let ?L = "L(?t := Entries (log ?rf))"
  note k = becomeLeader_keeps [OF ok bl]
  have nodei: "log_node L ?rf" using inv i by (simp add: log_inv_def)
  have unseen: "(?t, j) \<notin> set (elections s)" for j
  proof
    assume j: "(?t, j) \<in> set (elections s)"
    then have "j = i" using election_inv_unique [OF e', of ?t j i] el k(6) by simp
    then show False using j inv cand by (auto simp: log_inv_def)
  qed
  then have "L ?t = []" using inv by (force simp: log_inv_def)
  then have g: "grows L ?L" by (simp add: grows_def)
  have ag: "agrees ?L (Entries (log ?rf))" using nodei agrees_grows [OF _ g] by (simp add: log_node_def)
  have "log_inv n ?L s'"
  proof (rule log_inv_update [OF inv len g srv, where new = "[(?t, i)]"])
    show "log_node ?L rf'" if "i < n"
      using nodei ag k(2,5,6) by (simp add: log_node_def same_log_def)
    show "?L (currentTerm (servers s ! j)) = L (currentTerm (servers s ! j))"
      if "j < n" "j \<noteq> i" "state (servers s ! j) = Leader" for j
      using election_inv_leader [OF e that(1,3)] unseen [of j] by auto
    show "agrees ?L (?L t) \<and> t \<in> fst ` set (elections s')" if "?L t \<noteq> []" "?L t \<noteq> L t" for t
      using that ag el k(6) by (auto split: if_split_asm)
    show "f \<in> set (flights s) \<or> log_flight ?L (set (elections s')) f" if f: "f \<in> set (flights s')" for f
    proof (cases "f \<in> set (flights s)")
      case False
      then have f: "f \<in> set (spawns i s acts)" using f fl by auto
      obtain l where l: "\<forall>a \<in> set acts. sent_ok (freshLeader l ?rf) a" using k(10) by blast
      have "log_flight ?L (set (elections s')) f"
        by (rule leader_sends [OF freshLeader_node_ok [OF ok] _ _ _ _ _ l f])
          (use nodei ag el k(6) in \<open>simp_all add: freshLeader_def log_node_def\<close>)
      then show ?thesis ..
    qed simp
  qed (use el k(5,6) i in simp_all)
  then show ?thesis by blast
qed

lemma log_inv_start:
  assumes inv: "log_inv n L s" and len: "length (servers s) = n" and i: "i < n"
    and e: "election_inv n s" and ok: "node_ok (servers s ! i)" and lead: "state (servers s ! i) = Leader"
    and rf': "rf' = (appended cmd (servers s ! i))\<lparr>electionTime := t\<rparr>" and acts: "\<forall>a \<in> set acts. sent_ok (appended cmd (servers s ! i)) a"
    and srv: "servers s' = (servers s)[i := rf']" and el: "elections s' = elections s"
    and fl: "flights s' = flights s @ spawns i s acts"
  shows "\<exists>L. log_inv n L s'"
proof -
  let ?rf = "servers s ! i" and ?t = "currentTerm (servers s ! i)"
  let ?e = "\<lparr>Command = cmd, e_Term = ?t, e_Index = getLastIndex ?rf + 1\<rparr>"
  let ?L = "L(?t := L ?t @ [?e])"
  have nodei: "log_node L ?rf" using inv i by (simp add: log_inv_def)
  have z: "agrees L (Entries (log ?rf))" using nodei by (simp add: log_node_def)
  have es1: "Entries (log ?rf) = L ?t" using nodei lead by (simp add: log_node_def)
  have es: "Entries (log ?rf) = L ?t" "agrees L (L ?t)" using es1 z by simp_all
  have tin: "(?t, i) \<in> set (elections s)" by (rule election_inv_leader [OF e i lead])
  have g: "grows L ?L" by (simp add: grows_def)
  have ag: "agrees ?L (L ?t @ [?e])" by (rule agrees_append [OF es(2)]) simp
  have "log_inv n ?L s'"
  proof (rule log_inv_update [OF inv len g srv, where new = "[]"])
    show "log_node ?L rf'" if "i < n"
      using nodei ag es(1) by (simp add: log_node_def rf' appended_fields)
    show "?L (currentTerm (servers s ! j)) = L (currentTerm (servers s ! j))"
      if "j < n" "j \<noteq> i" "state (servers s ! j) = Leader" for j
    proof -
      have "currentTerm (servers s ! j) \<noteq> ?t"
        using election_inv_leader [OF e that(1,3)] election_inv_unique [OF e tin] that(2) by metis
      then show ?thesis by simp
    qed
    show "agrees ?L (?L t) \<and> t \<in> fst ` set (elections s')" if "?L t \<noteq> []" "?L t \<noteq> L t" for t
      using that ag el tin by (force split: if_split_asm)
    show "f \<in> set (flights s) \<or> log_flight ?L (set (elections s')) f" if f: "f \<in> set (flights s')" for f
    proof (cases "f \<in> set (flights s)")
      case False
      then have f: "f \<in> set (spawns i s acts)" using f fl by auto
      have "log_flight ?L (set (elections s')) f"
        by (rule leader_sends [OF appended_node_ok [OF ok] _ _ _ _ _ acts f])
          (use nodei ag el es tin in \<open>simp_all add: appended_fields log_node_def\<close>)
      then show ?thesis ..
    qed simp
  qed (use el in \<open>simp_all add: rf' appended_fields\<close>)
  then show ?thesis by blast
qed

lemma log_inv_append:
  assumes inv: "log_inv n L s" and len: "length (servers s) = n" and i: "i < n" "j \<noteq> i"
    and e: "election_inv n s" and ok: "node_ok (servers s ! i)"
    and ae: "AppendEntries args ev (servers s ! i) = Some (reply, rf', acts)"
    and srv: "servers s' = (servers s)[i := rf']" and el: "elections s' = elections s"
    and fl: "flights s = xs @ AppReq j c i args # ys" "flights s' = xs @ ys @ [AppRep j c i args reply]"
  shows "log_inv n L s'"
proof -
  let ?rf = "servers s ! i"
  have nodei: "log_node L ?rf" using inv i by (simp add: log_inv_def)
  have "log_flight L (set (elections s)) (AppReq j c i args)" using inv fl(1) by (simp add: log_inv_def)
  then have sf: "sent_from L args" and jl: "(ae_Term args, j) \<in> set (elections s)" by simp_all
  have quiet: "log_inv n L s'" if "log_quiet ?rf rf'"
    by (rule log_inv_quiet [OF inv len srv that el]) (auto simp: fl)
  note fr = AppendEntries_frame [OF ok ae]
  show ?thesis
  proof (cases rule: AppendEntries_elim [OF ok, of args ev, case_names newer stale reject store])
    case (newer reply')
    then show ?thesis using ae by (intro quiet log_quiet_frame [OF fr]) (simp add: same_log_def setNewTerm_fields)
  next
    case (stale reply')
    then show ?thesis using ae by (intro quiet log_quiet_frame [OF fr]) (simp add: same_log_def)
  next
    case (reject reply')
    then show ?thesis using ae by (intro quiet log_quiet_frame [OF fr]) (simp add: same_log_def heard_eq)
  next
    case (store reply' acts')
    have rf': "rf' = stored args ev ?rf" using store(7) ae by simp
    have notL: "state ?rf \<noteq> Leader"
      using election_inv_leader [OF e i(1)] election_inv_unique [OF e jl] store(1) i(2) by auto
    have z: "lastIncludeIndex ?rf = 0" "lastIncludeTerm ?rf = 0" "agrees L (Entries (log ?rf))" using nodei by (simp_all add: log_node_def)
    let ?p = "nat (PrevLogIndex args)"
    have p: "?p < length (Entries (log ?rf))" using store(5,4) z by (cases "Entries (log ?rf)") (auto simp: getLastIndex_def log_len_def agrees_def)
    have pt: "e_Term (Entries (log ?rf) ! ?p) = PrevLogTerm args"
    proof (cases "PrevLogIndex args = 0")
      case True
      then show ?thesis using store(6) z by (simp add: restoreLogTerm_def agrees_def pad_def)
    next
      case False
      then show ?thesis using store(4,6) p z by (simp add: restoreLogTerm_def log_at_def go_nth_def split: if_split_asm)
    qed
    have "L (ae_Term args) \<noteq> []" using sf by (auto simp: sent_from_def)
    then have lt: "agrees L (L (ae_Term args))" using inv by (simp add: log_inv_def)
    have "Entries (log rf') = take (Suc ?p) (Entries (log ?rf)) @ ae_Entries args"
      using store(4) z by (simp add: rf' stored_fields nat_add_distrib)
    then have "Entries (log rf') = take (Suc ?p + length (ae_Entries args)) (L (ae_Term args))"
      using stored_prefix [OF z(3) lt sf p pt] by simp
    then have ag: "agrees L (Entries (log rf'))" using agrees_take [OF lt] by simp
    show ?thesis
    proof (rule log_inv_update [OF inv len grows_refl srv, where new = "[]"])
      show "log_node L rf'" if "i < n"
        using ag z notL by (simp add: log_node_def rf' stored_fields)
    qed (use el fl notL in \<open>auto simp: rf' stored_fields split: if_split_asm\<close>)
  qed
qed


section \<open>It is an invariant\<close>

definition plain :: "event \<Rightarrow> bool" where
  \<comment> \<open>no log compaction, and no vote of the current term is erased\<close>
  "plain e \<longleftrightarrow> keeps_votes e \<and> no_compaction e"

definition matching_inv :: "nat \<Rightarrow> Cluster \<Rightarrow> bool" where
  "matching_inv n s \<longleftrightarrow> election_inv n s \<and> (\<exists>L. log_inv n L s)"

lemma log_inv_initial:
  assumes "initial ps s"
  shows "log_inv (length ps) (\<lambda>t. []) s"
proof -
  have "log_node (\<lambda>t. []) (servers s ! i)" if "i < length ps" for i
  proof -
    have "\<exists>ev. Make ps i MakePersister ev = Some (servers s ! i)" using assms that unfolding initial_def by blast
    then obtain ev where mk: "Make ps i MakePersister ev = Some (servers s ! i)" ..
    have "raftstate MakePersister = []" by (simp add: MakePersister_def)
    from mk [unfolded Make_fresh [OF this] option.inject, symmetric] show ?thesis
      by (simp add: log_node_def agrees_def bootLog_def pad_def)
  qed
  then show ?thesis using assms by (simp add: log_inv_def initial_def)
qed

lemma log_inv_step:
  assumes e: "election_inv n s" and e': "election_inv n s'" and inv: "log_inv n L s" and st: "step s ev s'" and pl: "plain ev"
  shows "\<exists>L. log_inv n L s'"
proof -
  have ok: "cluster_ok n s" using e by (simp add: election_inv_def)
  then have len: "length (servers s) = n" by (simp add: cluster_ok_def)
  have srv: "node_ok (servers s ! i)" "me (servers s ! i) = i" "length (peers (servers s ! i)) = n" if "i < length (servers s)" for i
    using cluster_ok_server [OF ok that] by (simp_all add: server_ok_def)
  have fok: "flight_ok n (length (ballots s)) f" if "f \<in> set (flights s)" for f by (rule cluster_ok_flight [OF ok that])
  have lf: "log_flight L (set (elections s)) f" if "f \<in> set (flights s)" for f using inv that by (simp add: log_inv_def)
  have ln: "log_node L (servers s ! i)" if "i < length (servers s)" for i using inv that len by (simp add: log_inv_def)
  note quiet = log_inv_quiet [OF inv len]
  from st show ?thesis
  proof cases
    case (tick i ev1 ev2 rf' acts)
    have il: "i < n" using tick(3) len by simp
    have "log_flight L (set (elections s)) f" if "f \<in> set (spawns i s acts)" for f
      by (rule ticker_sends [OF srv(1) [OF tick(3)] ln [OF tick(3)] tick(5) _ that])
        (use election_inv_leader [OF e il] in blast)
    then have "log_inv n L s'"
      by (intro quiet [OF _ ticker_turn_quiet [OF srv(1) [OF tick(3)] tick(5)]]) (auto simp: tick(2))
    then show ?thesis by blast
  next
    case (start i cmd env res rf' acts)
    have il: "i < n" using start(3) len by simp
    show ?thesis
    proof (rule Start_elim [OF srv(1) [OF start(3)] start(4)])
      assume "rf' = servers s ! i" "acts = []"
      then have "log_inv n L s'" by (intro quiet [of _ i rf']) (auto simp: start(2) spawns_def)
      then show ?thesis by blast
    next
      fix t
      assume "state (servers s ! i) = Leader" "rf' = (appended cmd (servers s ! i))\<lparr>electionTime := t\<rparr>"
        "\<forall>a \<in> set acts. sent_ok (appended cmd (servers s ! i)) a"
      then show ?thesis
        by (rule log_inv_start [OF inv len il e srv(1) [OF start(3)]]) (simp_all add: start(2))
    qed
  next
    case (vote xs j c i args b ys env reply rf')
    have "log_inv n L s'"
      by (rule quiet [OF _ RequestVote_quiet [OF srv(1) [OF vote(4)] vote(5)]]) (auto simp: vote(2,3))
    then show ?thesis by blast
  next
    case (count xs i c j args reply b ys env bal' rf' acts)
    have il: "i < length (servers s)" using count(4) by (simp add: running_def)
    have "flight_ok n (length (ballots s)) (VoteRep i c j args reply b)" by (rule fok) (simp add: count(3))
    then have t: "0 < rv_Term args" by simp
    have same: "\<exists>L. log_inv n L s'" if "bal' = ballots s ! b \<or> bal' = (ballots s ! b)\<lparr>voteCounter := voteCounter (ballots s ! b) + 1\<rparr>"
      "acts = []" "log_quiet (servers s ! i) rf'"
    proof -
      have "log_inv n L s'" by (rule quiet [OF _ that(3)]) (use that(1,2) in \<open>auto simp: count(2,3) spawns_def\<close>)
      then show ?thesis by blast
    qed
    from count(6) show ?thesis
    proof (cases rule: candidateRequestVote_elim)
      case newer
      then show ?thesis using setNewTerm_quiet [of "rvr_Term reply" "servers s ! i"] t by (intro same) simp_all
    next
      case refused
      then show ?thesis by (intro same) simp_all
    next
      case counted
      then show ?thesis by (intro same) simp_all
    next
      case elected
      have once: "onceDone bal'" "\<not> onceDone (ballots s ! b)" and cand: "state (servers s ! i) = Candidate"
        using elected(1,2) by (simp_all add: wins_def)
      show ?thesis
        by (rule log_inv_elected [OF inv len _ e e' srv(1) [OF il] cand elected(3), where xs = xs and ys = ys])
          (use once il len in \<open>simp_all add: count(2,3)\<close>)
    qed
  next
    case (append xs j c i args ys env reply rf' acts)
    have "flight_ok n (length (ballots s)) (AppReq j c i args)" by (rule fok) (simp add: append(3))
    then have ij: "i < n" "j \<noteq> i" by auto
    have "log_inv n L s'"
      by (rule log_inv_append [OF inv len ij e srv(1) [OF append(4)] append(5) _ _ append(3)]) (simp_all add: append(2))
    then show ?thesis by blast
  next
    case (ack xs i c j args reply ys rf' acts)
    have il: "i < length (servers s)" using ack(4) by (simp add: running_def)
    have "flight_ok n (length (ballots s)) (AppRep i c j args reply)" by (rule fok) (simp add: ack(3))
    then have j: "j < length (peers (servers s ! i))" using srv(3) [OF il] by simp
    note k = leaderSendEntries_keeps [OF srv(1) [OF il] j ack(5)]
    have "log_inv n L s'"
      by (rule quiet [OF _ log_quiet_frame [OF k(2,3)]]) (auto simp: ack(2,3))
    then show ?thesis by blast
  next
    case (snapgo xs i c j ys)
    have il: "i < length (servers s)" using snapgo(4) by (simp add: running_def)
    have "log_inv n L s'"
      by (rule quiet [of _ i "servers s ! i"]) (use ln [OF il] in \<open>auto simp: snapgo(2,3) log_node_def leaderSendSnapShot_args_def\<close>)
    then show ?thesis by blast
  next
    case (install xs j c i args ys env reply rf' msg)
    have "log_flight L (set (elections s)) (SnapReq j c i args)" by (rule lf) (simp add: install(3))
    then have z: "LastIncludeIndex args = 0" by simp
    have "lastIncludeIndex (servers s ! i) = 0" using ln [OF install(4)] by (simp add: log_node_def)
    then have le: "\<not> lastIncludeIndex (servers s ! i) < LastIncludeIndex args" using z by simp
    have q: "log_quiet (servers s ! i) rf'" and m: "msg = None"
      by (rule InstallSnapShot_elim [OF srv(1) [OF install(4)] install(5)]; use le demoted_quiet in simp)+
    have "log_inv n L s'"
      by (rule quiet [OF _ q]) (auto simp: install(2,3) sendings_def m)
    then show ?thesis by blast
  next
    case (installed xs i c j args reply ys env rf')
    have il: "i < length (servers s)" using installed(4) by (simp add: running_def)
    have "flight_ok n (length (ballots s)) (SnapRep i c j args reply)" by (rule fok) (simp add: installed(3))
    then have j: "j < length (peers (servers s ! i))" using srv(3) [OF il] by simp
    have "log_inv n L s'"
      by (rule quiet [OF _ leaderSendSnapShot_reply_quiet [OF srv(1) [OF il] j installed(5)]]) (auto simp: installed(2,3))
    then show ?thesis by blast
  next
    case (snapshot i index snap rf')
    then show ?thesis using pl by (simp add: plain_def)
  next
    case (apply_next i rf' msg)
    have ap: "apply_ok (servers s ! i)" using cluster_ok_server [OF ok apply_next(3)] by (simp add: server_ok_def)
    note k = applier_turn_keeps [OF srv(1) [OF apply_next(3)] ap apply_next(6)]
    have "log_inv n L s'"
      by (rule quiet [OF _ log_quiet_frame [OF k(4,3)]]) (auto simp: apply_next(2) sendings_def split: option.splits)
    then show ?thesis by blast
  next
    case (send xs i c ap msg ys)
    have "log_inv n L s'" by (rule quiet [of _ i "servers s ! i"]) (auto simp: send(2,3))
    then show ?thesis by blast
  next
    case (lost xs f ys)
    have "log_inv n L s'" by (rule quiet [of _ 0 "servers s ! 0"]) (auto simp: lost(2,3))
    then show ?thesis by blast
  next
    case (kill i)
    have "log_inv n L s'"
      by (rule quiet [of _ i "Kill (servers s ! i)"]) (auto simp: kill(2) Kill_def log_quiet_def same_log_def)
    then show ?thesis by blast
  next
    case (restart i env rf')
    have mk: "Make (peers (servers s ! i)) (me (servers s ! i)) (Copy (persister (servers s ! i))) env = Some rf'"
      using restart(4) srv(2) [OF restart(3)] by simp
    note k = restart_elim [OF srv(1) [OF restart(3)] mk]
    have "log_inv n L s'"
      by (rule quiet [of _ i rf']) (use k(2,3,5) in \<open>auto simp: restart(2) log_quiet_def\<close>)
    then show ?thesis by blast
  qed
qed

interpretation lm: step_invariant "initial ps" step plain "matching_inv (length ps)" for ps
proof
  show "matching_inv (length ps) s" if "initial ps s" for s
    using es.inv_init [OF that] log_inv_initial [OF that] unfolding matching_inv_def by blast
  show "matching_inv (length ps) s'" if inv: "matching_inv (length ps) s" and st: "step s e s'" "plain e" for s e s'
  proof -
    have e: "election_inv (length ps) s" using inv by (simp add: matching_inv_def)
    have "election_inv (length ps) s'" using es.inv_step [OF e st(1)] st(2) by (simp add: plain_def)
    then show ?thesis using log_inv_step [OF e _ _ st] inv unfolding matching_inv_def by blast
  qed
qed

lemma agrees_match:
  assumes "agrees L xs" and "agrees L ys" and "0 < k" "k < length xs" "k < length ys" and "e_Term (xs ! k) = e_Term (ys ! k)"
  shows "take (Suc k) xs = take (Suc k) ys"
  using agreesD(2) [OF assms(1,3,4)] agreesD(2) [OF assms(2,3,5)] assms(6) by simp

lemma log_node_logmap:
  assumes "log_node L rf"
  shows "logmap rf k = (if 0 < k \<and> nat k < length (Entries (log rf)) then Some (Entries (log rf) ! nat k) else None)"
  using assms by (auto simp: log_node_def logmap_def restoreLog_def log_at_def go_nth_def nat_less_iff)

text \<open>Log matching for two logs that agree with the leaders' logs, on their maps.\<close>

lemma log_node_match:
  assumes "log_node L rf" and "log_node L rg" and "logmap rf k = Some e" and "logmap rg k = Some f" and "e_Term e = e_Term f" and "m \<le> k"
  shows "logmap rf m = logmap rg m"
proof -
  let ?xs = "Entries (log rf)" and ?ys = "Entries (log rg)"
  have k: "0 < k" "nat k < length ?xs" "e = ?xs ! nat k" "nat k < length ?ys" "f = ?ys ! nat k"
    using assms(3,4) by (auto simp: log_node_logmap [OF assms(1)] log_node_logmap [OF assms(2)] split: if_split_asm)
  have ag: "agrees L ?xs" "agrees L ?ys" using assms(1,2) by (simp_all add: log_node_def)
  have "0 < nat k" using k(1) by simp
  then have same: "take (Suc (nat k)) ?xs = take (Suc (nat k)) ?ys"
    using agrees_match [OF ag _ k(2,4)] assms(5) k(3,5) by simp
  have "nat m < Suc (nat k)" using assms(6) k(1) by simp
  then have "?xs ! nat m = ?ys ! nat m" using arg_cong [OF same, of "\<lambda>zs. zs ! nat m"] by simp
  moreover have "nat m < length ?xs" "nat m < length ?ys" using assms(6) k by linarith+
  ultimately show ?thesis by (simp add: log_node_logmap [OF assms(1)] log_node_logmap [OF assms(2)])
qed

end
