(* ===== verification/Apply_Order.thy ===== *)
theory Apply_Order
  imports Cluster_Invariant
begin

text \<open>
  What a service receives on \<open>applyCh\<close> in a run without log compaction: since its last restart,
  the commands of indices 1, 2, 3, ... with no gap and no repetition, however the server's other
  goroutines, the network, and crashes interleave with its applier.
\<close>

section \<open>The invariant\<close>

fun sends :: "nat \<Rightarrow> nat \<Rightarrow> flight \<Rightarrow> ApplyMsg list" where
  "sends i c (Sending j c' ap m) = (if j = i \<and> c' = c then [m] else [])"
| "sends i c _ = []"

definition pending :: "nat \<Rightarrow> nat \<Rightarrow> flight list \<Rightarrow> ApplyMsg list" where
  "pending i c fs = concat (map (sends i c) fs)"

fun order_flight :: "nat list \<Rightarrow> flight \<Rightarrow> bool" where
  "order_flight cs (SnapReq j c i args) \<longleftrightarrow> LastIncludeIndex args = 0"
| "order_flight cs (Sending i c ap m) \<longleftrightarrow> c \<le> cs ! i \<and> ap \<and> CommandValid m"
| "order_flight cs _ \<longleftrightarrow> True"

definition order_node :: "Cluster \<Rightarrow> nat \<Rightarrow> bool" where
  "order_node s i \<longleftrightarrow> lastIncludeIndex (servers s ! i) = 0 \<and> length (pending i (incs s ! i) (flights s)) \<le> 1 \<and>
     map CommandIndex (applied s ! i @ pending i (incs s ! i) (flights s)) = [1..lastApplied (servers s ! i)] \<and>
     (\<forall>m \<in> set (applied s ! i). CommandValid m)"

definition order_inv :: "nat \<Rightarrow> Cluster \<Rightarrow> bool" where
  "order_inv n s \<longleftrightarrow> (\<forall>i < n. order_node s i) \<and> (\<forall>f \<in> set (flights s). order_flight (incs s) f)"

lemma pending_simps [simp]:
  "pending i c [] = []" "pending i c (f # fs) = sends i c f @ pending i c fs"
  "pending i c (fs @ gs) = pending i c fs @ pending i c gs"
  by (simp_all add: pending_def)

lemma pending_Nil: "(\<And>f. f \<in> set fs \<Longrightarrow> sends i c f = []) \<Longrightarrow> pending i c fs = []"
  by (induction fs) auto

lemma not_sending_pending: "\<not> sending i s \<Longrightarrow> \<forall>f \<in> set (flights s). order_flight (incs s) f \<Longrightarrow> pending i (incs s ! i) (flights s) = []"
proof (rule pending_Nil)
  fix f
  assume "\<not> sending i s" "\<forall>f \<in> set (flights s). order_flight (incs s) f" "f \<in> set (flights s)"
  then show "sends i (incs s ! i) f = []"
    by (cases "(i, incs s ! i, f)" rule: sends.cases) (auto simp: sending_def)
qed

definition unsending :: "flight \<Rightarrow> bool" where
  "unsending f \<longleftrightarrow> (\<forall>i c. sends i c f = [])"

lemma unsending_simps [simp]:
  "unsending (VoteReq i c j a b)" "unsending (VoteRep i c j a r b)" "unsending (AppReq i c j aa)" "unsending (AppRep i c j aa ar)"
  "unsending (SnapGo i c j)" "unsending (SnapReq i c j sa)" "unsending (SnapRep i c j sa sr)"
  by (simp_all add: unsending_def)

lemma pending_unsending: "\<forall>f \<in> set fs. unsending f \<Longrightarrow> pending i c fs = []"
  by (rule pending_Nil) (simp add: unsending_def)

lemma spawns_unsending: "f \<in> set (spawns i s acts) \<Longrightarrow> unsending f \<and> order_flight cs f"
proof -
  assume "f \<in> set (spawns i s acts)"
  then obtain a where "f \<in> set (spawn i (incs s ! i) (length (ballots s)) a)" by (auto simp: spawns_def)
  then show ?thesis by (cases a) auto
qed

text \<open>A step of a server that applies nothing: one flight goes, flights that carry no command come.\<close>

lemma order_inv_still:
  assumes inv: "order_inv n s" and len: "length (servers s) = n"
    and srv: "servers s' = (servers s)[i := rf']"
    and st: "lastIncludeIndex rf' = lastIncludeIndex (servers s ! i)" "lastApplied rf' = lastApplied (servers s ! i)"
    and same: "incs s' = incs s" "applied s' = applied s"
    and fl: "flights s = xs @ gone @ ys" "flights s' = xs @ ys @ new" and g: "\<forall>f \<in> set gone. unsending f"
    and new: "\<forall>f \<in> set new. unsending f \<and> order_flight (incs s) f"
  shows "order_inv n s'"
proof -
  have p: "pending j c (flights s') = pending j c (flights s)" for j c
    using pending_unsending [of new] pending_unsending [OF g] new by (simp add: fl)
  have "order_node s' j" if j: "j < n" for j
  proof -
    have o: "order_node s j" using inv j by (simp add: order_inv_def)
    have "lastIncludeIndex (servers s' ! j) = lastIncludeIndex (servers s ! j)" "lastApplied (servers s' ! j) = lastApplied (servers s ! j)"
      using srv st j len by (cases "j = i"; simp)+
    then show ?thesis using o by (simp add: order_node_def same p)
  qed
  then show ?thesis using inv new by (auto simp: order_inv_def same fl)
qed

text \<open>The applier's turn, the send, and the two ways a flight ends with its server.\<close>

lemma order_inv_apply:
  assumes inv: "order_inv n s" and ok: "cluster_ok n s" and i: "i < n" and ns: "\<not> sending i s"
    and ap: "applier_turn (servers s ! i) = Some (rf', msg)"
    and s': "s' = s\<lparr>servers := (servers s)[i := rf'], flights := flights s @ sendings i s True msg\<rparr>"
  shows "order_inv n s'"
proof -
  have len: "length (servers s) = n" using ok by (simp add: cluster_ok_def)
  have so: "server_ok n i (servers s ! i)" using cluster_ok_server [OF ok] i len by simp
  then have wi: "well_indexed (servers s ! i)" and apo: "apply_ok (servers s ! i)" by (simp_all add: server_ok_def node_ok_def)
  have oi: "order_node s i" using inv i by (simp add: order_inv_def)
  have p0: "pending i (incs s ! i) (flights s) = []" using not_sending_pending [OF ns] inv by (simp add: order_inv_def)
  have la: "0 \<le> lastApplied (servers s ! i)" using wi apo by (simp add: well_indexed_def apply_ok_def)
  have turn: "rf' = servers s ! i \<and> msg = None \<or>
      (\<exists>m. rf' = (servers s ! i)\<lparr>lastApplied := lastApplied (servers s ! i) + 1\<rparr> \<and>
        msg = Some m \<and> CommandIndex m = lastApplied (servers s ! i) + 1 \<and> CommandValid m)"
  proof (cases "lastApplied (servers s ! i) < commitIndex (servers s ! i) \<and> lastApplied (servers s ! i) < getLastIndex (servers s ! i)")
    case True
    show ?thesis
      using ap unfolding applier_turn_eq [OF wi apo] if_P [OF True] option.inject prod.inject
      by (elim conjE) (rule disjI2, rule exI, rule conjI, erule sym, rule conjI, erule sym, simp)
  next
    case False
    show ?thesis
      using ap unfolding applier_turn_eq [OF wi apo] if_not_P [OF False] option.inject prod.inject
      by (elim conjE) (rule disjI1, rule conjI, erule sym, erule sym)
  qed
  have other: "pending j c (sendings i s True msg) = []" if "j \<noteq> i" for j c
    using that by (cases msg) (simp_all add: sendings_def)
  have "order_node s' j" if j: "j < n" for j
  proof (cases "j = i")
    case False
    have "order_node s j" using inv j by (simp add: order_inv_def)
    then show ?thesis using False other [OF False] by (simp add: order_node_def s')
  next
    case True
    have mp: "map CommandIndex (applied s ! i) = [1..lastApplied (servers s ! i)]" using oi p0 by (simp add: order_node_def)
    have up: "[1..lastApplied (servers s ! i) + 1] = [1..lastApplied (servers s ! i)] @ [lastApplied (servers s ! i) + 1]"
      using la by (simp add: upto_rec2)
    show ?thesis
      using turn oi p0 mp up i len True by (auto simp: order_node_def s' sendings_def)
  qed
  moreover have "\<forall>f \<in> set (flights s'). order_flight (incs s') f"
    using inv turn by (auto simp: order_inv_def s' sendings_def)
  ultimately show ?thesis by (simp add: order_inv_def)
qed

lemma order_inv_send:
  assumes inv: "order_inv n s" and ok: "cluster_ok n s"
    and fl: "flights s = xs @ Sending i c ap msg # ys" and run: "running i c s"
    and s': "s' = s\<lparr>flights := xs @ ys, applied := (applied s)[i := applied s ! i @ [msg]]\<rparr>"
  shows "order_inv n s'"
proof -
  have i: "i < n" "c = incs s ! i" "length (applied s) = n" using run ok by (simp_all add: running_def cluster_ok_def)
  have oi: "order_node s i" using inv i by (simp add: order_inv_def)
  then have one: "pending i c (xs @ ys) = []" using i(2) by (auto simp: order_node_def fl)
  have v: "CommandValid msg" using inv by (simp add: order_inv_def fl)
  have "order_node s' j" if j: "j < n" for j
  proof (cases "j = i")
    case False
    have "order_node s j" using inv j by (simp add: order_inv_def)
    then show ?thesis using False by (simp add: order_node_def s' fl)
  next
    case True
    then show ?thesis using oi one i v by (auto simp: order_node_def s' fl)
  qed
  then show ?thesis using inv by (auto simp: order_inv_def s' fl)
qed

lemma order_inv_lost:
  assumes inv: "order_inv n s" and ok: "cluster_ok n s" and fl: "flights s = xs @ f # ys" and l: "losable s f"
    and s': "s' = s\<lparr>flights := xs @ ys\<rparr>"
  shows "order_inv n s'"
proof -
  have len: "length (servers s) = n" using ok by (simp add: cluster_ok_def)
  have "sends j (incs s ! j) f = []" if "j < n" for j
    using l that len by (cases f) (auto simp: running_def)
  then have "pending j (incs s ! j) (flights s') = pending j (incs s ! j) (flights s)" if "j < n" for j
    using that by (simp add: s' fl)
  then show ?thesis using inv by (auto simp: order_inv_def order_node_def s' fl)
qed

lemma order_inv_restart:
  assumes inv: "order_inv n s" and ok: "cluster_ok n s" and i: "i < length (servers s)"
    and mk: "Make (peers (servers s ! i)) i (Copy (persister (servers s ! i))) ev = Some rf'"
    and s': "s' = s\<lparr>servers := (servers s)[i := rf'], incs := (incs s)[i := incs s ! i + 1], applied := (applied s)[i := []]\<rparr>"
  shows "order_inv n s'"
proof -
  have len: "length (servers s) = n" "length (incs s) = n" "length (applied s) = n" using ok by (simp_all add: cluster_ok_def)
  have so: "node_ok (servers s ! i)" "me (servers s ! i) = i" using cluster_ok_server [OF ok i] by (simp_all add: server_ok_def)
  have mk': "Make (peers (servers s ! i)) (me (servers s ! i)) (Copy (persister (servers s ! i))) ev = Some rf'" using mk so(2) by simp
  note k = restart_elim [OF so(1) mk']
  have old: "order_flight (incs s) f" if "f \<in> set (flights s)" for f using inv that by (simp add: order_inv_def)
  have fresh: "pending i (incs s ! i + 1) (flights s) = []"
  proof (rule pending_Nil)
    fix f assume "f \<in> set (flights s)"
    then have "order_flight (incs s) f" by (rule old)
    then show "sends i (incs s ! i + 1) f = []" by (cases "(i, incs s ! i + 1, f)" rule: sends.cases) auto
  qed
  have "order_node s' j" if j: "j < n" for j
  proof (cases "j = i")
    case False
    have "order_node s j" using inv j by (simp add: order_inv_def)
    then show ?thesis using False by (simp add: order_node_def s')
  next
    case True
    have "lastIncludeIndex (servers s ! i) = 0" using inv i len by (simp add: order_inv_def order_node_def)
    then show ?thesis using True k(2,7) fresh i len by (simp add: order_node_def s' same_log_def)
  qed
  moreover have "order_flight (incs s') f" if "f \<in> set (flights s')" for f
  proof -
    have "order_flight (incs s) f" using old that by (simp add: s')
    then show ?thesis using i len by (cases "(incs s', f)" rule: order_flight.cases) (auto simp: s' nth_list_update)
  qed
  ultimately show ?thesis by (simp add: order_inv_def)
qed

section \<open>It is an invariant\<close>

lemma order_inv_initial:
  assumes "initial ps s"
  shows "order_inv (length ps) s"
proof -
  have "lastIncludeIndex (servers s ! i) = 0 \<and> lastApplied (servers s ! i) = 0" if "i < length ps" for i
  proof -
    have "\<exists>ev. Make ps i MakePersister ev = Some (servers s ! i)" using assms that unfolding initial_def by blast
    then obtain ev where mk: "Make ps i MakePersister ev = Some (servers s ! i)" ..
    have "raftstate MakePersister = []" by (simp add: MakePersister_def)
    from mk [unfolded Make_fresh [OF this] option.inject, symmetric] show ?thesis by simp
  qed
  then show ?thesis using assms by (simp add: order_inv_def order_node_def initial_def)
qed

lemma order_inv_step:
  assumes ok: "cluster_ok n s" and inv: "order_inv n s" and st: "step s e s'" and pl: "no_compaction e"
  shows "order_inv n s'"
proof -
  have len: "length (servers s) = n" using ok by (simp add: cluster_ok_def)
  have srv: "node_ok (servers s ! i)" "length (peers (servers s ! i)) = n" if "i < length (servers s)" for i
    using cluster_ok_server [OF ok that] by (simp_all add: server_ok_def)
  have fok: "flight_ok n (length (ballots s)) f" if "f \<in> set (flights s)" for f by (rule cluster_ok_flight [OF ok that])
  have lii: "lastIncludeIndex (servers s ! i) = 0" if "i < length (servers s)" for i
    using inv that len by (simp add: order_inv_def order_node_def)
  have still: "order_inv n s'" if "node_still (servers s ! i) rf'" "servers s' = (servers s)[i := rf']" "incs s' = incs s" "applied s' = applied s"
    "flights s = xs @ gone @ ys" "flights s' = xs @ ys @ new" "\<forall>f \<in> set gone. unsending f" "\<forall>f \<in> set new. unsending f \<and> order_flight (incs s) f"
    for i rf' xs gone ys new
    by (rule order_inv_still [OF inv len that(2) _ _ that(3-8)]) (use that(1) in \<open>simp_all add: node_still_def\<close>)
  note sp = spawns_unsending [of _ _ s _ "incs s"]
  from st show ?thesis
  proof cases
    case (tick i ev1 ev2 rf' acts)
    show ?thesis
      by (rule still [OF ticker_turn_still [OF srv(1) [OF tick(3)] tick(5)], where xs = "flights s" and gone = "[]" and ys = "[]" and new = "spawns i s acts"])
        (use sp in \<open>simp_all add: tick(2)\<close>)
  next
    case (start i cmd env res rf' acts)
    show ?thesis
      by (rule still [OF Start_still [OF srv(1) [OF start(3)] start(4)], where xs = "flights s" and gone = "[]" and ys = "[]" and new = "spawns i s acts"])
        (use sp in \<open>simp_all add: start(2)\<close>)
  next
    case (vote xs j c i args b ys env reply rf')
    show ?thesis
      by (rule still [OF RequestVote_still [OF srv(1) [OF vote(4)] vote(5)], where xs = xs and gone = "[VoteReq j c i args b]" and ys = ys and new = "[VoteRep j c i args reply b]"])
        (simp_all add: vote(2,3))
  next
    case (count xs i c j args reply b ys env bal' rf' acts)
    have il: "i < length (servers s)" using count(4) by (simp add: running_def)
    have "flight_ok n (length (ballots s)) (VoteRep i c j args reply b)" by (rule fok) (simp add: count(3))
    then have t: "0 \<le> rv_Term args" by simp
    show ?thesis
      by (rule still [OF candidateRequestVote_still [OF srv(1) [OF il] count(6) t], where xs = xs and gone = "[VoteRep i c j args reply b]" and ys = ys and new = "spawns i s acts"])
        (use sp in \<open>simp_all add: count(2,3)\<close>)
  next
    case (append xs j c i args ys env reply rf' acts)
    have "flight_ok n (length (ballots s)) (AppReq j c i args)" by (rule fok) (simp add: append(3))
    then have num: "numbered (PrevLogIndex args) (ae_Entries args)" by simp
    show ?thesis
      by (rule still [OF AppendEntries_still [OF srv(1) [OF append(4)] append(5) num], where xs = xs and gone = "[AppReq j c i args]" and ys = ys and new = "[AppRep j c i args reply]"])
        (simp_all add: append(2,3))
  next
    case (ack xs i c j args reply ys rf' acts)
    have il: "i < length (servers s)" using ack(4) by (simp add: running_def)
    have "flight_ok n (length (ballots s)) (AppRep i c j args reply)" by (rule fok) (simp add: ack(3))
    then have j: "j < length (peers (servers s ! i))" using srv(2) [OF il] by simp
    show ?thesis
      by (rule still [OF leaderSendEntries_still [OF srv(1) [OF il] j ack(5)], where xs = xs and gone = "[AppRep i c j args reply]" and ys = ys and new = "[]"])
        (simp_all add: ack(2,3))
  next
    case (snapgo xs i c j ys)
    have il: "i < length (servers s)" using snapgo(4) by (simp add: running_def)
    show ?thesis
      by (rule still [OF node_still_refl [OF srv(1) [OF il]], where xs = xs and gone = "[SnapGo i c j]" and ys = ys
            and new = "[SnapReq i c j (leaderSendSnapShot_args (servers s ! i))]"])
        (use lii [OF il] in \<open>simp_all add: snapgo(2,3) leaderSendSnapShot_args_def\<close>)
  next
    case (install xs j c i args ys env reply rf' msg)
    have "order_flight (incs s) (SnapReq j c i args)" using inv by (simp add: order_inv_def install(3))
    then have le: "\<not> lastIncludeIndex (servers s ! i) < LastIncludeIndex args" using lii [OF install(4)] by simp
    have q: "lastIncludeIndex rf' = lastIncludeIndex (servers s ! i)" "lastApplied rf' = lastApplied (servers s ! i)" and m: "msg = None"
      by (rule InstallSnapShot_elim [OF srv(1) [OF install(4)] install(5)]; use le in \<open>simp add: demoted_fields\<close>)+
    show ?thesis
      by (rule order_inv_still [OF inv len _ q, where xs = xs and gone = "[SnapReq j c i args]" and ys = ys and new = "[SnapRep j c i args reply]"])
        (simp_all add: install(2,3) m sendings_def)
  next
    case (installed xs i c j args reply ys env rf')
    have il: "i < length (servers s)" using installed(4) by (simp add: running_def)
    have "flight_ok n (length (ballots s)) (SnapRep i c j args reply)" by (rule fok) (simp add: installed(3))
    then have j: "j < length (peers (servers s ! i))" using srv(2) [OF il] by simp
    show ?thesis
      by (rule still [OF leaderSendSnapShot_reply_still [OF srv(1) [OF il] j installed(5)], where xs = xs and gone = "[SnapRep i c j args reply]" and ys = ys and new = "[]"])
        (simp_all add: installed(2,3))
  next
    case (snapshot i index snap rf')
    then show ?thesis using pl by simp
  next
    case (apply_next i rf' msg)
    then show ?thesis using order_inv_apply [OF inv ok, of i] len by simp
  next
    case (send xs i c ap msg ys)
    show ?thesis by (rule order_inv_send [OF inv ok send(3,4,2)])
  next
    case (lost xs f ys)
    show ?thesis by (rule order_inv_lost [OF inv ok lost(3,4,2)])
  next
    case (kill i)
    show ?thesis
      by (rule still [OF Kill_still [OF srv(1) [OF kill(3)]], where xs = "flights s" and gone = "[]" and ys = "[]" and new = "[]"])
        (simp_all add: kill(2))
  next
    case (restart i env rf')
    show ?thesis by (rule order_inv_restart [OF inv ok restart(3,4,2)])
  qed
qed

interpretation ao: step_invariant "initial ps" step no_compaction "\<lambda>s. cluster_ok (length ps) s \<and> order_inv (length ps) s" for ps
  by unfold_locales (use cluster_ok_initial order_inv_initial cluster_ok_step order_inv_step in blast)+

end
