(* ===== verification/Cluster_Anomalies.thy ===== *)
theory Cluster_Anomalies
  imports Cluster_Runs
begin

text \<open>
  What can go wrong in this implementation of Raft, as runs of the cluster that end in a state the
  protocol forbids. Each run is a list of moves, evaluated by the kernel.
\<close>

section \<open>Two leaders in one term\<close>

text \<open>Server 0, leader of term 2, holds an entry server 2 lacks. Server 2 rejects the heartbeat with
  \<open>XLen = 0\<close>; server 0 takes that as the next index, and so sends a snapshot although none was ever
  taken. Installing it, server 2 forgets that it voted for server 0, and elects server 1.\<close>

definition run_two_leaders :: "move list" where
  "run_two_leaders = elect_0 @
    [MStart 0 (IInt 7) early, MRestart 0 early, MTick 0 late late, MDeliver 6 early, MDeliver 6 late,
     MDeliver 7 late, MDeliver 7 late, MTick 0 late late, MDeliver 8 late, MDeliver 8 late,
     MTick 1 late late, MDeliver 10 late, MDeliver 10 late]"

lemma two_leaders_run:
  "case simulate three early run_two_leaders of None \<Rightarrow> False | Some (es, s) \<Rightarrow>
     list_all no_compaction es \<and> elections s = [(2, 1), (2, 0), (1, 0)] \<and>
     map state (servers s) = [Leader, Leader, Follower] \<and> map currentTerm (servers s) = [2, 2, 2]"
  by code_simp

section \<open>Two services apply different commands\<close>

text \<open>Server 0 replicates a command to server 1, commits and applies it. An older heartbeat, delivered
  late, makes server 1 cut the entry off; server 1 then wins an election with server 2 and commits
  another command at the same index. No server crashes, no message is lost, no snapshot is sent.\<close>

definition run_divergence :: "move list" where
  "run_divergence = elect_0 @
    [MStart 0 (IInt 7) early, MDeliver 3 early, MDeliver 4 early, MApply 0, MDeliver 4 early,
     MDeliver 1 early, MTick 1 late late, MDeliver 5 late, MDeliver 5 late,
     MStart 1 (IInt 8) late, MDeliver 8 late, MDeliver 8 late, MApply 1, MDeliver 8 late]"

fun reordering_only :: "event \<Rightarrow> bool" where
  "reordering_only (EvTick i) = True"
| "reordering_only (EvStart i c) = True"
| "reordering_only (EvVote i) = True"
| "reordering_only (EvCount i) = True"
| "reordering_only (EvAppend i) = True"
| "reordering_only (EvAck i) = True"
| "reordering_only (EvApply i) = True"
| "reordering_only (EvSend i) = True"
| "reordering_only e = False"

lemma divergence_run:
  "case simulate three early run_divergence of None \<Rightarrow> False | Some (es, s) \<Rightarrow>
     list_all reordering_only es \<and>
     map (map (\<lambda>m. (CommandIndex m, am_Command m))) (applied s) = [[(1, IInt 7)], [(1, IInt 8)], []]"
  by code_simp

section \<open>A snapshot of applied state panics\<close>

text \<open>Server 1 has applied two commands when an old heartbeat empties its log; its service then asks
  for a snapshot of what it has applied, and \<open>restoreLogTerm\<close> reads past the end of the log.\<close>

definition run_panic :: "move list" where
  "run_panic = elect_0 @
    [MStart 0 (IInt 7) early, MDeliver 3 early, MDeliver 4 early, MStart 0 (IInt 8) early,
     MDeliver 4 early, MDeliver 5 early, MTick 0 early early, MDeliver 5 early, MApply 1,
     MDeliver 7 early, MApply 1, MDeliver 7 early, MDeliver 1 early]"

lemma panic_run:
  "case simulate three early run_panic of None \<Rightarrow> False | Some (es, s) \<Rightarrow>
     list_all reordering_only es \<and>
     map CommandIndex (applied s ! 1) = [1, 2] \<and> Snapshot 2 [] (servers s ! 1) = None"
  by code_simp

section \<open>The runs as reachable states\<close>

text \<open>C4: Without the restriction on snapshot handlers election safety fails, even in a run in which no
  service ever takes a snapshot: two servers are leaders of the same term at the same time.\<close>

theorem two_leaders_in_one_term:
  "\<exists>s. reachable three no_compaction s \<and> (2, 0) \<in> set (elections s) \<and> (2, 1) \<in> set (elections s) \<and>
       state (servers s ! 0) = Leader \<and> state (servers s ! 1) = Leader \<and>
       currentTerm (servers s ! 0) = currentTerm (servers s ! 1)"
proof -
  obtain s where s: "reachable three no_compaction s" "elections s = [(2, 1), (2, 0), (1, 0)]"
    "map state (servers s) = [Leader, Leader, Follower]" "map currentTerm (servers s) = [2, 2, 2]"
    using simulate_ex [OF two_leaders_run] by auto
  then obtain a b c where "servers s = [a, b, c]" by (auto simp: map_eq_Cons_conv)
  then show ?thesis using s by (intro exI [of _ s]) auto
qed

text \<open>C5: The replicated state machines diverge: in a run without crashes, losses or snapshots, in which
  the network only delays messages, two services receive different commands with the same index.\<close>

theorem services_diverge:
  "\<exists>s. reachable three reordering_only s \<and>
       (\<exists>m0 \<in> set (applied s ! 0). \<exists>m1 \<in> set (applied s ! 1).
          CommandIndex m0 = CommandIndex m1 \<and> am_Command m0 \<noteq> am_Command m1)"
proof -
  obtain s where s: "reachable three reordering_only s"
    "map (map (\<lambda>m. (CommandIndex m, am_Command m))) (applied s) = [[(1, IInt 7)], [(1, IInt 8)], []]"
    using simulate_ex [OF divergence_run] by auto
  then obtain m0 m1 r where "applied s = [[m0], [m1], r]" "CommandIndex m0 = 1" "CommandIndex m1 = 1"
    "am_Command m0 = IInt 7" "am_Command m1 = IInt 8"
    by (auto simp: map_eq_Cons_conv)
  then show ?thesis using s(1) by (intro exI [of _ s]) simp
qed

text \<open>C7: A service that asks for a snapshot of what it has itself applied can panic the server: a
  delayed heartbeat may have cut the log to less than that.\<close>

theorem snapshot_of_applied_panics:
  "\<exists>s. reachable three reordering_only s \<and>
       map CommandIndex (applied s ! 1) = [1, 2] \<and> Snapshot 2 [] (servers s ! 1) = None"
  using simulate_ex [OF panic_run] by blast

end
