(* ===== verification/Labgob_Check.thy ===== *)
theory Labgob_Check
  imports Labgob "HOL-Library.Multiset"
begin

text \<open>
  The checks \<open>labgob\<close> adds to \<open>encoding/gob\<close>: \<open>checkType\<close> walks the type of what is encoded or decoded
  and complains of every field whose name gob would skip, \<open>checkDefault\<close> warns when the variable to
  decode into holds something already. A \<open>reflect.Type\<close> is a position in a table of types, since a
  Go type can contain itself; the package's three variables are a record.
\<close>

section \<open>Types as a table\<close>

datatype kind =
    KBasic | KInterface | KOther
  | KStruct "(string \<times> nat) list"
  | KSlice nat | KArray nat | KPtr nat
  | KMap nat nat \<comment> \<open>key and element\<close>

type_synonym types = "(string \<times> kind) list"

definition type_kind :: "types \<Rightarrow> nat \<Rightarrow> kind" where
  "type_kind T t = (if t < length T then snd (T ! t) else KOther)"

definition type_name :: "types \<Rightarrow> nat \<Rightarrow> string" where
  "type_name T t = (if t < length T then fst (T ! t) else [])"

text \<open>\<open>unicode.IsUpper\<close> of the first character; the names are ASCII.\<close>

definition first_upper :: "string \<Rightarrow> bool" where
  "first_upper s = (case s of [] \<Rightarrow> False | c # _ \<Rightarrow> 65 \<le> (of_char c :: nat) \<and> (of_char c :: nat) \<le> 90)"

section \<open>The package's variables\<close>

datatype complaint = LowerCaseField string string | NonDefault string

record LabgobVars =
  checked :: "nat set"
  errorCount :: int
  printed :: "complaint list"

definition complain :: "complaint \<Rightarrow> LabgobVars \<Rightarrow> LabgobVars" where
  "complain c g = g\<lparr>printed := printed g @ [c], errorCount := errorCount g + 1\<rparr>"

section \<open>checkType\<close>

text \<open>The recursion stops at a type that was checked before. Its calls are nested: the second field
  is looked at with what the first one has left in \<open>checked\<close>.\<close>

function (sequential) checkType :: "types \<Rightarrow> nat \<Rightarrow> LabgobVars \<Rightarrow> LabgobVars"
  and checkFields :: "types \<Rightarrow> nat \<Rightarrow> (string \<times> nat) list \<Rightarrow> LabgobVars \<Rightarrow> LabgobVars" where
  "checkType T t g =
     (if t \<in> checked g then g
      else
        let g = g\<lparr>checked := insert t (checked g)\<rparr>
        in case type_kind T t of
             KStruct fs \<Rightarrow> checkFields T t fs g
           | KSlice e \<Rightarrow> checkType T e g
           | KArray e \<Rightarrow> checkType T e g
           | KPtr e \<Rightarrow> checkType T e g
           | KMap k e \<Rightarrow> checkType T k (checkType T e g)
           | _ \<Rightarrow> g)"
| "checkFields T t [] g = g"
| "checkFields T t ((n, f) # fs) g =
     checkFields T t fs (checkType T f (if first_upper n then g else complain (LowerCaseField n (type_name T t)) g))"
  by pat_completeness auto

lemma complain_simps [simp]:
  "checked (complain c g) = checked g" "errorCount (complain c g) = errorCount g + 1" "printed (complain c g) = printed g @ [c]"
  by (simp_all add: complain_def)

lemma checked_grows_both:
  "checkType_checkFields_dom (Inl (T, t, g)) \<Longrightarrow> checked g \<subseteq> checked (checkType T t g)"
  "checkType_checkFields_dom (Inr (T, t, fs, g)) \<Longrightarrow> checked g \<subseteq> checked (checkFields T t fs g)"
proof (induction T t g and T t fs g rule: checkType_checkFields.pinduct)
  case (1 T t g)
  show ?case
  proof (cases "t \<in> checked g")
    case False
    show ?thesis using 1 False
      by (cases "type_kind T t") (force simp: checkType.psimps [OF 1(1)] Let_def)+
  qed (simp add: checkType.psimps [OF 1(1)])
next
  case (3 T t n f fs g)
  let ?g = "if first_upper n then g else complain (LowerCaseField n (type_name T t)) g"
  have "checked g = checked ?g" by simp
  also have "\<dots> \<subseteq> checked (checkType T f ?g)" by (rule 3(2))
  also have "\<dots> \<subseteq> checked (checkFields T t fs (checkType T f ?g))" by (rule 3(3))
  finally show ?case by (simp only: checkFields.psimps(2) [OF 3(1)])
qed (simp add: checkFields.psimps)

definition unseen :: "types \<Rightarrow> LabgobVars \<Rightarrow> nat set" where
  "unseen T g = {..<length T} - checked g"

lemma unseen_visit:
  "t \<notin> checked g \<Longrightarrow> type_kind T t \<noteq> KOther \<Longrightarrow> insert t (checked g) \<subseteq> checked g' \<Longrightarrow> card (unseen T g') < card (unseen T g)"
  by (rule psubset_card_mono) (auto simp: unseen_def type_kind_def split: if_split_asm)

lemma unseen_mono: "checked g \<subseteq> checked g' \<Longrightarrow> card (unseen T g') \<le> card (unseen T g)"
  by (rule card_mono) (auto simp: unseen_def)

lemma unseen_complain [simp]: "unseen T (complain c g) = unseen T g"
  by (simp add: unseen_def)

termination checkType
proof (relation "measures [\<lambda>x. case x of Inl (T, t, g) \<Rightarrow> card (unseen T g) | Inr (T, t, fs, g) \<Rightarrow> card (unseen T g),
    \<lambda>x. case x of Inl (T, t, g) \<Rightarrow> 0 | Inr (T, t, fs, g) \<Rightarrow> Suc (length fs)]", goal_cases)
  case (7 T t g g' k e)
  then have "checked g' \<subseteq> checked (checkType T e g')" by (intro checked_grows_both(1))
  then have "card (unseen T (checkType T e g')) < card (unseen T g)" using 7 by (intro unseen_visit [of t]) auto
  then show ?case by simp
next
  case (9 T t n f fs g)
  let ?g = "if first_upper n then g else complain (LowerCaseField n (type_name T t)) g"
  have "card (unseen T (checkType T f ?g)) \<le> card (unseen T ?g)"
    using 9 by (intro unseen_mono checked_grows_both(1))
  also have "\<dots> = card (unseen T g)" by simp
  finally show ?case by (simp add: le_less split del: if_split)
qed (simp_all, (erule unseen_visit; simp)+)

declare checkType.simps [simp del]

section \<open>What checkType finds\<close>

text \<open>The types a type is made of, the complaints about its own fields, and the relation the walk follows.\<close>

definition succs :: "types \<Rightarrow> nat \<Rightarrow> nat list" where
  "succs T t = (case type_kind T t of
     KStruct fs \<Rightarrow> map snd fs | KSlice e \<Rightarrow> [e] | KArray e \<Rightarrow> [e] | KPtr e \<Rightarrow> [e] | KMap k e \<Rightarrow> [e, k] | _ \<Rightarrow> [])"

definition lower_fields :: "types \<Rightarrow> nat \<Rightarrow> (string \<times> nat) list \<Rightarrow> complaint multiset" where
  "lower_fields T t fs = mset (map (\<lambda>(n, f). LowerCaseField n (type_name T t)) (filter (\<lambda>(n, f). \<not> first_upper n) fs))"

definition faults :: "types \<Rightarrow> nat \<Rightarrow> complaint multiset" where
  "faults T t = (case type_kind T t of KStruct fs \<Rightarrow> lower_fields T t fs | _ \<Rightarrow> {#})"

definition holds :: "types \<Rightarrow> (nat \<times> nat) set" where
  "holds T = {(t, u). u \<in> set (succs T t)}"

text \<open>What a walk from the types \<open>S\<close> has done: it has marked only types these are made of, with
  everything they hold, and reported \<open>C\<close> and each fault of a newly marked type once.\<close>

definition walked :: "types \<Rightarrow> nat set \<Rightarrow> complaint multiset \<Rightarrow> LabgobVars \<Rightarrow> LabgobVars \<Rightarrow> bool" where
  "walked T S C g g' \<longleftrightarrow> checked g \<subseteq> checked g' \<and> finite (checked g' - checked g) \<and>
     checked g' - checked g \<subseteq> (holds T)\<^sup>* `` S \<and> holds T `` (checked g' - checked g) \<subseteq> checked g' \<and>
     mset (printed g') = mset (printed g) + C + (\<Sum>u \<in> checked g' - checked g. faults T u) \<and>
     errorCount g' - errorCount g = int (length (printed g')) - int (length (printed g))"

lemma walked_refl: "walked T S {#} g g"
  by (simp add: walked_def)

lemma walked_complain: "walked T S {#c#} g (complain c g)"
  by (simp add: walked_def)

lemma walked_trans:
  assumes "walked T S C g g1" and "walked T S' C' g1 g2" and "S \<subseteq> R" and "S' \<subseteq> R"
  shows "walked T R (C + C') g g2"
proof -
  have new: "checked g2 - checked g = (checked g1 - checked g) \<union> (checked g2 - checked g1)"
    using assms by (auto simp: walked_def)
  have disj: "(checked g1 - checked g) \<inter> (checked g2 - checked g1) = {}" by blast
  have sum: "(\<Sum>u \<in> checked g2 - checked g. faults T u) =
      (\<Sum>u \<in> checked g1 - checked g. faults T u) + (\<Sum>u \<in> checked g2 - checked g1. faults T u)"
    unfolding new by (rule sum.union_disjoint [OF _ _ disj]) (use assms in \<open>simp_all add: walked_def\<close>)
  have "(holds T)\<^sup>* `` S \<subseteq> (holds T)\<^sup>* `` R" "(holds T)\<^sup>* `` S' \<subseteq> (holds T)\<^sup>* `` R" using assms by blast+
  then have "checked g2 - checked g \<subseteq> (holds T)\<^sup>* `` R" using assms(1,2) unfolding new walked_def by blast
  moreover have "holds T `` (checked g2 - checked g) \<subseteq> checked g2"
    using assms(1,2) unfolding new walked_def by blast
  ultimately show ?thesis using assms(1,2) unfolding walked_def sum by (auto simp: new)
qed

text \<open>Entering a type: its faults are reported by the walk over what it holds.\<close>

lemma walked_enter:
  assumes t: "t \<notin> checked g" and w: "walked T (set (succs T t)) (faults T t) (g\<lparr>checked := insert t (checked g)\<rparr>) g'"
    and all: "set (succs T t) \<subseteq> checked g'"
  shows "walked T {t} {#} g g'"
proof -
  let ?new = "checked g' - insert t (checked g)"
  have tg: "insert t (checked g) \<subseteq> checked g'" and fin: "finite ?new" using w by (simp_all add: walked_def)
  have new: "checked g' - checked g = insert t ?new" using t tg by auto
  have sum: "(\<Sum>u \<in> checked g' - checked g. faults T u) = faults T t + (\<Sum>u \<in> ?new. faults T u)"
    unfolding new using fin by (simp add: sum.insert)
  have "(holds T)\<^sup>* `` set (succs T t) \<subseteq> (holds T)\<^sup>* `` {t}"
    by (auto simp: holds_def intro: converse_rtrancl_into_rtrancl)
  moreover have "?new \<subseteq> (holds T)\<^sup>* `` set (succs T t)" using w by (simp add: walked_def)
  ultimately have "checked g' - checked g \<subseteq> (holds T)\<^sup>* `` {t}" unfolding new by blast
  moreover have "holds T `` ?new \<subseteq> checked g'" using w by (simp add: walked_def)
  then have "holds T `` (checked g' - checked g) \<subseteq> checked g'" using all unfolding new by (auto simp: holds_def)
  moreover have "mset (printed g') = mset (printed g) + faults T t + (\<Sum>u \<in> ?new. faults T u)"
    "errorCount g' - errorCount g = int (length (printed g')) - int (length (printed g))"
    using w by (simp_all add: walked_def)
  moreover have "finite (checked g' - checked g)" unfolding new using fin by simp
  moreover have "checked g \<subseteq> checked g'" using tg by blast
  ultimately show ?thesis unfolding walked_def sum by (simp add: add.assoc)
qed

lemma checkType_old: "t \<in> checked g \<Longrightarrow> checkType T t g = g"
  by (simp add: checkType.simps)

lemma checkType_new:
  "t \<notin> checked g \<Longrightarrow> checkType T t g =
     (case type_kind T t of
        KStruct fs \<Rightarrow> checkFields T t fs (g\<lparr>checked := insert t (checked g)\<rparr>)
      | KSlice e \<Rightarrow> checkType T e (g\<lparr>checked := insert t (checked g)\<rparr>)
      | KArray e \<Rightarrow> checkType T e (g\<lparr>checked := insert t (checked g)\<rparr>)
      | KPtr e \<Rightarrow> checkType T e (g\<lparr>checked := insert t (checked g)\<rparr>)
      | KMap k e \<Rightarrow> checkType T k (checkType T e (g\<lparr>checked := insert t (checked g)\<rparr>))
      | _ \<Rightarrow> g\<lparr>checked := insert t (checked g)\<rparr>)"
  by (subst checkType.simps) (simp add: Let_def)

lemma walk_both:
  "walked T {t} {#} g (checkType T t g) \<and> t \<in> checked (checkType T t g)"
  "walked T (snd ` set fs) (lower_fields T t fs) g (checkFields T t fs g) \<and> snd ` set fs \<subseteq> checked (checkFields T t fs g)"
proof (induction T t g and T t fs g rule: checkType_checkFields.induct)
  case (1 T t g)
  show ?case
  proof (cases "t \<in> checked g")
    case True
    then show ?thesis by (simp add: checkType_old walked_refl)
  next
    case False
    let ?g = "g\<lparr>checked := insert t (checked g)\<rparr>"
    have in_t: "t \<in> checked g'" if "walked T S C ?g g'" for S C g' using that by (simp add: walked_def)
    have leaf: "walked T {t} {#} g ?g" if "succs T t = []" "faults T t = {#}"
      by (rule walked_enter [OF False]) (simp_all add: that walked_refl)
    have one: "walked T {t} {#} g (checkType T e ?g) \<and> t \<in> checked (checkType T e ?g)"
      if "succs T t = [e]" "faults T t = {#}" "walked T {e} {#} ?g (checkType T e ?g) \<and> e \<in> checked (checkType T e ?g)" for e
      using walked_enter [OF False, of T "checkType T e ?g"] that in_t [of "{e}" "{#}" "checkType T e ?g"] by simp
    note new = checkType_new [OF False]
    show ?thesis
    proof (cases "type_kind T t")
      case (KStruct fs)
      then have k: "succs T t = map snd fs" "faults T t = lower_fields T t fs" by (simp_all add: succs_def faults_def)
      have "checkType T t g = checkFields T t fs ?g" unfolding new KStruct by simp
      then show ?thesis using walked_enter [OF False, of T "checkFields T t fs ?g"] 1(1) [OF False refl KStruct] in_t
        unfolding k set_map by auto
    next
      case (KMap k e)
      then have q: "succs T t = [e, k]" "faults T t = {#}" by (simp_all add: succs_def faults_def)
      have c: "checkType T t g = checkType T k (checkType T e ?g)" unfolding new KMap by simp
      note w = 1(5) [OF False refl KMap] 1(6) [OF False refl KMap]
      have "walked T {e, k} ({#} + {#}) ?g (checkType T k (checkType T e ?g))"
        by (rule walked_trans) (use w in auto)
      moreover have "e \<in> checked (checkType T k (checkType T e ?g))" using w by (auto simp: walked_def)
      ultimately show ?thesis using walked_enter [OF False, of T "checkType T k (checkType T e ?g)"] w in_t
        by (simp add: q c)
    next
      case (KSlice e)
      have "checkType T t g = checkType T e ?g" unfolding new KSlice by simp
      then show ?thesis using one [OF _ _ 1(2) [OF False refl KSlice]] KSlice by (simp add: succs_def faults_def)
    next
      case (KArray e)
      have "checkType T t g = checkType T e ?g" unfolding new KArray by simp
      then show ?thesis using one [OF _ _ 1(3) [OF False refl KArray]] KArray by (simp add: succs_def faults_def)
    next
      case (KPtr e)
      have "checkType T t g = checkType T e ?g" unfolding new KPtr by simp
      then show ?thesis using one [OF _ _ 1(4) [OF False refl KPtr]] KPtr by (simp add: succs_def faults_def)
    qed (use leaf in \<open>simp_all add: succs_def faults_def new\<close>)
  qed
next
  case (2 T t g)
  then show ?case by (simp add: lower_fields_def walked_refl)
next
  case (3 T t n f fs g)
  let ?g = "if first_upper n then g else complain (LowerCaseField n (type_name T t)) g"
  let ?c = "if first_upper n then {#} else {#LowerCaseField n (type_name T t)#}"
  have "walked T {} ?c g ?g" by (simp add: walked_refl walked_complain)
  then have "walked T {f} (?c + {#}) g (checkType T f ?g)" by (rule walked_trans) (use 3(1) in auto)
  then have "walked T (snd ` set ((n, f) # fs)) ((?c + {#}) + lower_fields T t fs) g (checkFields T t fs (checkType T f ?g))"
    by (rule walked_trans) (use 3(2) in auto)
  moreover have "(?c + {#}) + lower_fields T t fs = lower_fields T t ((n, f) # fs)" by (simp add: lower_fields_def)
  moreover have "f \<in> checked (checkFields T t fs (checkType T f ?g))" using 3 by (auto simp: walked_def)
  ultimately show ?case using 3(2) by simp
qed

text \<open>From a state in which every checked type is checked with all it holds, the walk marks exactly
  the types \<open>t\<close> is made of.\<close>

definition complete :: "types \<Rightarrow> LabgobVars \<Rightarrow> bool" where
  "complete T g \<longleftrightarrow> holds T `` checked g \<subseteq> checked g"

lemma checkType_complete:
  assumes "complete T g"
  shows "complete T (checkType T t g)" "checked (checkType T t g) = checked g \<union> (holds T)\<^sup>* `` {t}"
proof -
  let ?g = "checkType T t g"
  have w: "checked g \<subseteq> checked ?g" "checked ?g - checked g \<subseteq> (holds T)\<^sup>* `` {t}"
    "holds T `` (checked ?g - checked g) \<subseteq> checked ?g" "t \<in> checked ?g"
    using walk_both(1) [of T t g] by (simp_all add: walked_def)
  show c: "complete T ?g" using assms w(1,3) unfolding complete_def by blast
  have "(holds T)\<^sup>* `` {t} \<subseteq> checked ?g"
    using Image_closed_trancl [of "holds T" "checked ?g"] c w(4) unfolding complete_def by blast
  then show "checked ?g = checked g \<union> (holds T)\<^sup>* `` {t}" using w(1,2) by blast
qed

section \<open>checkDefault\<close>





section \<open>The encoder and the decoder with their checks\<close>

text \<open>\<open>reflect.TypeOf(nil)\<close> is the nil interface, and asking for its kind panics.\<close>

definition checkValue :: "types \<Rightarrow> nat option \<Rightarrow> LabgobVars \<Rightarrow> LabgobVars option" where
  "checkValue T t g = (case t of None \<Rightarrow> None | Some t \<Rightarrow> Some (checkType T t g))"


definition EncodeValue :: "types \<Rightarrow> nat \<Rightarrow> goval \<Rightarrow> bytes \<Rightarrow> LabgobVars \<Rightarrow> (LabgobVars \<times> bytes \<times> bool) option" where
  "EncodeValue T t value w g = do {
     g \<leftarrow> checkValue T (Some t) g;
     let (w, ok) = Encode w value;
     Some (g, w, ok) }"


section \<open>What checkDefault finds\<close>





section \<open>The types of this program\<close>


definition no_labgob :: LabgobVars where
  "no_labgob = \<lparr>checked = {}, errorCount = 0, printed = []\<rparr>"





section \<open>Properties\<close>

text \<open>C34: \<open>checkType\<close> returns for every table of types, recursive ones included, and from a state in which
  every checked type was checked with all it holds it marks exactly the types the given one is made
  of; of the types it newly marks it reports every field whose name is not capitalised, once, and
  counts these reports.\<close>

theorem checkType_reports_each_once:
  assumes "complete T g"
  shows "let g' = checkType T t g; new = (holds T)\<^sup>* `` {t} - checked g in
    checked g' = checked g \<union> (holds T)\<^sup>* `` {t} \<and> complete T g' \<and>
    mset (printed g') = mset (printed g) + (\<Sum>u \<in> new. faults T u) \<and>
    errorCount g' = errorCount g + int (size (\<Sum>u \<in> new. faults T u))"
proof -
  note c = checkType_complete [OF assms, of t]
  have w: "walked T {t} {#} g (checkType T t g)" using walk_both(1) by blast
  have n: "checked (checkType T t g) - checked g = (holds T)\<^sup>* `` {t} - checked g" unfolding c(2) by blast
  have p: "mset (printed (checkType T t g)) = mset (printed g) + (\<Sum>u \<in> (holds T)\<^sup>* `` {t} - checked g. faults T u)"
    using w unfolding walked_def n by simp
  have e: "errorCount (checkType T t g) - errorCount g = int (length (printed (checkType T t g))) - int (length (printed g))"
    using w unfolding walked_def by blast
  have "length (printed (checkType T t g)) = length (printed g) + size (\<Sum>u \<in> (holds T)\<^sup>* `` {t} - checked g. faults T u)"
    by (metis p size_mset size_union)
  then show ?thesis unfolding Let_def using c p e by (intro conjI) linarith+
qed

text \<open>A list node with a lower-case field, which holds a pointer to a node.\<close>

definition node_types :: types where
  "node_types = [(''Node'', KStruct [(''Next'', 1), (''val'', 2)]), ([], KPtr 0), (''int'', KBasic)]"

lemma checkType_reports_each_once_witness:
  "printed (checkType node_types 1 no_labgob) = [LowerCaseField ''val'' ''Node''] \<and>
   (let g' = checkType node_types 1 no_labgob; new = (holds node_types)\<^sup>* `` {1} - checked no_labgob in
    checked g' = checked no_labgob \<union> (holds node_types)\<^sup>* `` {1} \<and> complete node_types g' \<and>
    mset (printed g') = mset (printed no_labgob) + (\<Sum>u \<in> new. faults node_types u) \<and>
    errorCount g' = errorCount no_labgob + int (size (\<Sum>u \<in> new. faults node_types u)))"
proof
  show "printed (checkType node_types 1 no_labgob) = [LowerCaseField ''val'' ''Node'']" by code_simp
  show "let g' = checkType node_types 1 no_labgob; new = (holds node_types)\<^sup>* `` {1} - checked no_labgob in
    checked g' = checked no_labgob \<union> (holds node_types)\<^sup>* `` {1} \<and> complete node_types g' \<and>
    mset (printed g') = mset (printed no_labgob) + (\<Sum>u \<in> new. faults node_types u) \<and>
    errorCount g' = errorCount no_labgob + int (size (\<Sum>u \<in> new. faults node_types u))"
    by (rule checkType_reports_each_once) (simp add: complete_def no_labgob_def)
qed



end
