(* ===== verification/Labrpc.thy ===== *)
theory Labrpc
  imports Labgob
begin

text \<open>
  \<open>labrpc/labrpc.go\<close>, the simulated network: its tables of client ends, servers and connections and
  the operations on them, the services that find and call a handler by reflection, and the counters.
  Servers are compared by identity (\<open>rn.servers[servername] != server\<close>), so the \<open>*Server\<close> values are
  addresses into a store. What a handler does is a parameter: from the receiver, the method's name,
  the arguments and the zero reply it computes the reply and the new world, or panics. So is the
  number of bytes of an encoded value.
\<close>

section \<open>Outcomes\<close>

text \<open>A computation of this package may also end the process with \<open>log.Fatalf\<close>.\<close>

datatype 'a outcome = Done 'a | Panic | Fatal string

fun and_then :: "'a outcome \<Rightarrow> ('a \<Rightarrow> 'b outcome) \<Rightarrow> 'b outcome" where
  "and_then (Done x) f = f x"
| "and_then Panic f = Panic"
| "and_then (Fatal m) f = Fatal m"

fun or_panic :: "'a option \<Rightarrow> 'a outcome" where
  "or_panic (Some x) = Done x"
| "or_panic None = Panic"

lemma and_then_Done: "and_then x f = Done y \<longleftrightarrow> (\<exists>a. x = Done a \<and> f a = Done y)"
  by (cases x) auto

section \<open>Requests and replies\<close>

record reqMsg =
  endname :: string
  svcMeth :: string
  argsType :: gotype
  args :: bytes

record replyMsg =
  ok :: bool
  reply :: bytes

definition failed :: replyMsg where
  \<comment> \<open>\<open>replyMsg{false, nil}\<close>\<close>
  "failed = \<lparr>ok = False, reply = []\<rparr>"

section \<open>Services\<close>

text \<open>What reflection tells of a method: its name, the package path (empty if exported), the types of
  its inputs, the receiver first, and the number of its outputs. A pointer is kept with what it
  points to.\<close>

datatype inType = InPtr gotype | InOther

record Method =
  mname :: string
  PkgPath :: string
  Ins :: "inType list"
  NumOut :: nat

record 'r Service =
  svc_name :: string
  rcvr :: 'r
  methods :: "string \<Rightarrow> Method option"

fun is_ptr :: "inType \<Rightarrow> bool" where
  "is_ptr (InPtr t) = True"
| "is_ptr InOther = False"

definition suitable :: "Method \<Rightarrow> bool" where
  \<comment> \<open>the negation of the test that skips a method\<close>
  "suitable m \<longleftrightarrow> \<not> (PkgPath m \<noteq> [] \<or> length (Ins m) \<noteq> 3 \<or> \<not> is_ptr (Ins m ! 2) \<or> NumOut m \<noteq> 0)"

text \<open>\<open>tname\<close> is \<open>reflect.Indirect(svc.rcvr).Type().Name()\<close>, \<open>ms\<close> the methods of the receiver's type.\<close>

fun MakeService_methods :: "Method list \<Rightarrow> (string \<Rightarrow> Method option) \<Rightarrow> (string \<Rightarrow> Method option)" where
  "MakeService_methods [] tab = tab"
| "MakeService_methods (m # ms) tab = MakeService_methods ms (if suitable m then tab(mname m \<mapsto> m) else tab)"

definition MakeService :: "string \<Rightarrow> 'r \<Rightarrow> Method list \<Rightarrow> 'r Service" where
  "MakeService tname r ms = \<lparr>svc_name = tname, rcvr = r, methods = MakeService_methods ms Map.empty\<rparr>"

type_synonym ('r, 'w) handlers = "'r \<Rightarrow> string \<Rightarrow> goval \<Rightarrow> goval \<Rightarrow> 'w \<Rightarrow> (goval \<times> 'w) option"

text \<open>Decoding errors are ignored, and leave the zero value. Calling a method with arguments of another
  type than its first parameter's panics in \<open>reflect\<close>; so does a reply that cannot be written.\<close>

definition Service_dispatch :: "('r, 'w) handlers \<Rightarrow> string \<Rightarrow> reqMsg \<Rightarrow> 'r Service \<Rightarrow> 'w \<Rightarrow> (replyMsg \<times> 'w) outcome" where
  "Service_dispatch h methname req svc w =
     (case methods svc methname of
        Some m \<Rightarrow>
          let args0 = gozero (argsType req);
              a = (case Decode (args req) (argsType req) args0 of Some (v, _) \<Rightarrow> v | None \<Rightarrow> args0)
          in (case (Ins m ! 1, Ins m ! 2) of
                (InPtr t, InPtr rt) \<Rightarrow>
                  if t = argsType req then
                    and_then (or_panic (h (rcvr svc) methname a (gozero rt) w)) (\<lambda>(replyv, w).
                      let (rb, _) = Encode [] replyv in Done (\<lparr>ok = True, reply = rb\<rparr>, w))
                  else Panic
              | _ \<Rightarrow> Panic)
      | None \<Rightarrow> Fatal ''labrpc.Service.dispatch(): unknown method'')"

section \<open>Servers\<close>

record 'r Server =
  services :: "string \<Rightarrow> 'r Service option"
  srv_count :: int

definition MakeServer :: "'r Server" where
  "MakeServer = \<lparr>services = Map.empty, srv_count = 0\<rparr>"

definition AddService :: "'r Service \<Rightarrow> 'r Server \<Rightarrow> 'r Server" where
  "AddService svc rs = rs\<lparr>services := (services rs)(svc_name svc \<mapsto> svc)\<rparr>"

text \<open>\<open>strings.LastIndex(s, ".")\<close>, -1 when there is none.\<close>

fun last_dot :: "string \<Rightarrow> int" where
  "last_dot [] = -1"
| "last_dot (c # cs) = (if last_dot cs \<ge> 0 then last_dot cs + 1 else if c = CHR ''.'' then 0 else -1)"

definition Server_dispatch :: "('r, 'w) handlers \<Rightarrow> reqMsg \<Rightarrow> 'r Server \<Rightarrow> 'w \<Rightarrow> (replyMsg \<times> 'r Server \<times> 'w) outcome" where
  "Server_dispatch h req rs w =
     (let rs = rs\<lparr>srv_count := srv_count rs + 1\<rparr>;
          dot = last_dot (svcMeth req)
      in and_then (or_panic (go_upto (svcMeth req) dot)) (\<lambda>serviceName.
         and_then (or_panic (go_from (svcMeth req) (dot + 1))) (\<lambda>methodName.
         case services rs serviceName of
           Some service \<Rightarrow>
             and_then (Service_dispatch h methodName req service w) (\<lambda>(r, w). Done (r, rs, w))
         | None \<Rightarrow> Fatal ''labrpc.Server.dispatch(): unknown service'')))"

definition Server_GetCount :: "'r Server \<Rightarrow> int" where
  "Server_GetCount rs = srv_count rs"

section \<open>The network\<close>

text \<open>Go's maps give false or nil for a missing key. \<open>store\<close> holds the \<open>Server\<close> objects;
  \<open>serving\<close> tells whether the goroutine \<open>MakeNetwork\<close> starts still runs.\<close>

record 'r Network =
  reliable :: bool
  longDelays :: bool
  longReordering :: bool
  ends :: "string list"
  enabled :: "string \<Rightarrow> bool"
  rpc_servers :: "nat \<Rightarrow> nat option"
  connections :: "string \<Rightarrow> nat option"
  closed :: bool \<comment> \<open>the channel \<open>done\<close>\<close>
  serving :: bool
  rpc_count :: "32 word"
  rpc_bytes :: "64 word"
  store :: "'r Server list"

definition MakeNetwork :: "'r Network" where
  "MakeNetwork = \<lparr>reliable = True, longDelays = False, longReordering = False, ends = [], enabled = (\<lambda>e. False),
     rpc_servers = Map.empty, connections = Map.empty, closed = False, serving = True, rpc_count = 0, rpc_bytes = 0, store = []\<rparr>"

definition Cleanup :: "'r Network \<Rightarrow> 'r Network outcome" where
  \<comment> \<open>closing a closed channel panics\<close>
  "Cleanup rn = (if closed rn then Panic else Done (rn\<lparr>closed := True\<rparr>))"

definition Reliable :: "bool \<Rightarrow> 'r Network \<Rightarrow> 'r Network" where
  "Reliable yes rn = rn\<lparr>reliable := yes\<rparr>"

definition LongReordering :: "bool \<Rightarrow> 'r Network \<Rightarrow> 'r Network" where
  "LongReordering yes rn = rn\<lparr>longReordering := yes\<rparr>"

definition LongDelays :: "bool \<Rightarrow> 'r Network \<Rightarrow> 'r Network" where
  "LongDelays yes rn = rn\<lparr>longDelays := yes\<rparr>"

definition readEndnameInfo :: "string \<Rightarrow> 'r Network \<Rightarrow> bool \<times> nat option \<times> nat option \<times> bool \<times> bool" where
  "readEndnameInfo e rn =
     (let servername = connections rn e
      in (enabled rn e, servername, (case servername of None \<Rightarrow> None | Some sn \<Rightarrow> rpc_servers rn sn),
          reliable rn, longReordering rn))"

definition isServerDead :: "string \<Rightarrow> nat \<Rightarrow> nat \<Rightarrow> 'r Network \<Rightarrow> bool" where
  "isServerDead e servername server rn \<longleftrightarrow> \<not> enabled rn e \<or> rpc_servers rn servername \<noteq> Some server"

definition MakeEnd :: "string \<Rightarrow> 'r Network \<Rightarrow> 'r Network outcome" where
  "MakeEnd e rn =
     (if e \<in> set (ends rn) then Fatal ''MakeEnd: already exists''
      else Done (rn\<lparr>ends := e # ends rn, enabled := (enabled rn)(e := False), connections := (connections rn)(e := None)\<rparr>))"

definition AddServer :: "nat \<Rightarrow> nat \<Rightarrow> 'r Network \<Rightarrow> 'r Network" where
  "AddServer servername rs rn = rn\<lparr>rpc_servers := (rpc_servers rn)(servername \<mapsto> rs)\<rparr>"

definition DeleteServer :: "nat \<Rightarrow> 'r Network \<Rightarrow> 'r Network" where
  "DeleteServer servername rn = rn\<lparr>rpc_servers := (rpc_servers rn)(servername := None)\<rparr>"

definition Connect :: "string \<Rightarrow> nat \<Rightarrow> 'r Network \<Rightarrow> 'r Network" where
  "Connect e servername rn = rn\<lparr>connections := (connections rn)(e \<mapsto> servername)\<rparr>"

definition Enable :: "string \<Rightarrow> bool \<Rightarrow> 'r Network \<Rightarrow> 'r Network" where
  "Enable e b rn = rn\<lparr>enabled := (enabled rn)(e := b)\<rparr>"

definition GetCount :: "nat \<Rightarrow> 'r Network \<Rightarrow> int outcome" where
  \<comment> \<open>the lock of a nil \<open>*Server\<close> panics\<close>
  "GetCount servername rn =
     (case rpc_servers rn servername of
        Some a \<Rightarrow> if a < length (store rn) then Done (Server_GetCount (store rn ! a)) else Panic
      | None \<Rightarrow> Panic)"

definition GetTotalCount :: "'r Network \<Rightarrow> int" where
  "GetTotalCount rn = sint (rpc_count rn)"

definition GetTotalBytes :: "'r Network \<Rightarrow> int" where
  "GetTotalBytes rn = sint (rpc_bytes rn)"

text \<open>A new \<open>*Server\<close>.\<close>

definition new_server :: "'r Server \<Rightarrow> 'r Network \<Rightarrow> nat \<times> 'r Network" where
  "new_server rs rn = (length (store rn), rn\<lparr>store := store rn @ [rs]\<rparr>)"

end
