(* ===== verification/Labrpc_Calls.thy ===== *)
theory Labrpc_Calls
  imports Labrpc
begin

text \<open>
  Remote calls through the network of \<open>Labrpc\<close>, with all their interleavings: \<open>ClientEnd.Call\<close>, the
  goroutine \<open>MakeNetwork\<close> starts, and \<open>processReq\<close> with the goroutine that runs the handler and the
  polling for a deleted server. A call is a record that says how far the two goroutines have come; one label
  is the next stretch of one of them up to the point where it can be interleaved, or an operation
  on the network. Random draws come in with the label; delays are the freedom of the schedule.
\<close>

section \<open>Calls\<close>

datatype phase =
    Offered \<comment> \<open>\<open>Call\<close> is at its \<open>select\<close>\<close>
  | Refused \<comment> \<open>\<open>Call\<close> has returned false because the network was cleaned up\<close>
  | Accepted \<comment> \<open>\<open>processReq\<close> was started\<close>
  | Waiting nat nat bool bool \<comment> \<open>in its loop: server name and address, \<open>reliable\<close>, \<open>longreordering\<close>\<close>
  | Checking "replyMsg option" nat nat bool bool \<comment> \<open>after the loop, with the reply if \<open>replyOK\<close>\<close>
  | Delayed replyMsg \<comment> \<open>in the \<open>AfterFunc\<close> of a long reordering\<close>
  | Answered replyMsg \<comment> \<open>on \<open>replyCh\<close>\<close>
  | Returned bool

datatype handling = Idle | Started nat | Ran replyMsg

record call =
  req :: reqMsg
  replyType :: gotype
  replyVar :: goval \<comment> \<open>what \<open>reply\<close> points to\<close>
  phase :: phase
  handler :: handling \<comment> \<open>the goroutine that runs the handler\<close>

text \<open>The beginning of \<open>Call\<close>: an encoding error panics.\<close>

definition Call_request :: "string \<Rightarrow> string \<Rightarrow> gotype \<Rightarrow> goval \<Rightarrow> reqMsg outcome" where
  "Call_request e m t v =
     (let (qb, err) = Encode [] v
      in if \<not> err then Panic
         else Done \<lparr>endname = e, svcMeth = m, argsType = t, args = qb\<rparr>)"

text \<open>Its end, with the reply from \<open>replyCh\<close>: the result and what \<open>reply\<close> points to.\<close>

definition Call_return :: "replyMsg \<Rightarrow> gotype \<Rightarrow> goval \<Rightarrow> (bool \<times> goval) outcome" where
  "Call_return rep t d =
     (if ok rep then
        (case Decode (reply rep) t d of
           Some (v, _) \<Rightarrow> Done (True, v)
         | None \<Rightarrow> Fatal ''ClientEnd.Call(): decode reply'')
      else Done (False, d))"

text \<open>One turn of the network's goroutine; \<open>sz\<close> is the number of bytes of the encoded arguments.\<close>

definition accept_request :: "nat \<Rightarrow> 'r Network \<Rightarrow> 'r Network" where
  "accept_request sz rn = rn\<lparr>rpc_count := rpc_count rn + 1, rpc_bytes := rpc_bytes rn + of_nat sz\<rparr>"

text \<open>\<open>processReq\<close> up to the loop; \<open>d\<close> is the draw that may drop the request of an unreliable network.\<close>

definition processReq_start :: "nat \<Rightarrow> 'r Network \<Rightarrow> reqMsg \<Rightarrow> phase \<times> handling" where
  "processReq_start d rn rq =
     (let (en, servername, server, rel, lr) = readEndnameInfo (endname rq) rn
      in case (en, servername, server) of
           (True, Some sn, Some a) \<Rightarrow>
             if \<not> rel \<and> d mod 1000 < 100 then (Answered failed, Idle)
             else (Waiting sn a rel lr, Started a)
         | _ \<Rightarrow> (Answered failed, Idle))"

text \<open>The loop's timer: is the server gone?\<close>

definition processReq_poll :: "'r Network \<Rightarrow> reqMsg \<Rightarrow> nat \<Rightarrow> nat \<Rightarrow> bool \<Rightarrow> bool \<Rightarrow> phase" where
  "processReq_poll rn rq sn a rel lr =
     (if isServerDead (endname rq) sn a rn then Checking None sn a rel lr else Waiting sn a rel lr)"

text \<open>After the loop; \<open>d\<close> may drop the reply, \<open>d'\<close> may delay it.\<close>

definition processReq_finish ::
  "(bytes \<Rightarrow> nat) \<Rightarrow> nat \<Rightarrow> nat \<Rightarrow> 'r Network \<Rightarrow> reqMsg \<Rightarrow> replyMsg option \<Rightarrow> nat \<Rightarrow> nat \<Rightarrow> bool \<Rightarrow> bool \<Rightarrow> 'r Network \<times> phase" where
  "processReq_finish size_of d d' rn rq rep sn a rel lr =
     (let serverDead = isServerDead (endname rq) sn a rn
      in case rep of
           None \<Rightarrow> (rn, Answered failed)
         | Some r \<Rightarrow>
             if serverDead then (rn, Answered failed)
             else if \<not> rel \<and> d mod 1000 < 100 then (rn, Answered failed)
             else if lr \<and> d' < 600 then (rn, Delayed r)
             else (rn\<lparr>rpc_bytes := rpc_bytes rn + of_nat (size_of (reply r))\<rparr>, Answered r))"

section \<open>Steps\<close>

datatype 'r netop =
    OpCleanup | OpReliable bool | OpLongReordering bool | OpLongDelays bool | OpMakeEnd string
  | OpNewServer "'r Server" | OpAddServer nat nat | OpDeleteServer nat | OpConnect string nat | OpEnable string bool

fun net_op :: "'r netop \<Rightarrow> 'r Network \<Rightarrow> 'r Network outcome" where
  "net_op OpCleanup rn = Cleanup rn"
| "net_op (OpReliable yes) rn = Done (Reliable yes rn)"
| "net_op (OpLongReordering yes) rn = Done (LongReordering yes rn)"
| "net_op (OpLongDelays yes) rn = Done (LongDelays yes rn)"
| "net_op (OpMakeEnd e) rn = MakeEnd e rn"
| "net_op (OpNewServer rs) rn = Done (snd (new_server rs rn))"
| "net_op (OpAddServer sn a) rn = Done (AddServer sn a rn)"
| "net_op (OpDeleteServer sn) rn = Done (DeleteServer sn rn)"
| "net_op (OpConnect e sn) rn = Done (Connect e sn rn)"
| "net_op (OpEnable e b) rn = Done (Enable e b rn)"

text \<open>\<open>world\<close> is what the handlers work on. \<open>ran\<close> is a history nothing reads: the handlers that were run, and for which
  call, with their replies.\<close>

record ('r, 'w) Rpc =
  net :: "'r Network"
  world :: 'w
  calls :: "call list"
  ran :: "(nat \<times> replyMsg) list"

datatype 'r rpc_event =
    RCall string string gotype goval gotype goval \<comment> \<open>end, method, type and value of the arguments, type and value of \<open>*reply\<close>\<close>
  | RRefuse nat | RAccept nat | RStop | RStart nat nat | RHandle nat | RGot nat | RPoll nat | RFinish nat nat nat | RFire nat
  | RReturn nat | ROp "'r netop"

definition set_call :: "nat \<Rightarrow> call \<Rightarrow> ('r, 'w) Rpc \<Rightarrow> ('r, 'w) Rpc" where
  "set_call k c s = s\<lparr>calls := (calls s)[k := c]\<rparr>"

definition at_call :: "nat \<Rightarrow> ('r, 'w) Rpc \<Rightarrow> (call \<Rightarrow> ('r, 'w) Rpc option) \<Rightarrow> ('r, 'w) Rpc option" where
  "at_call k s f = (if k < length (calls s) then f (calls s ! k) else None)"

text \<open>The next state, None if the event cannot happen, or ends the process.\<close>

fun rpc_do :: "('r, 'w) handlers \<Rightarrow> (bytes \<Rightarrow> nat) \<Rightarrow> 'r rpc_event \<Rightarrow> ('r, 'w) Rpc \<Rightarrow> ('r, 'w) Rpc option" where
  "rpc_do h size_of (RCall e m t v rt d) s =
     (case Call_request e m t v of
        Done rq \<Rightarrow> Some (s\<lparr>calls := calls s @ [\<lparr>req = rq, replyType = rt, replyVar = d, phase = Offered, handler = Idle\<rparr>]\<rparr>)
      | _ \<Rightarrow> None)"
| "rpc_do h size_of (RRefuse k) s = at_call k s (\<lambda>c.
     if phase c = Offered \<and> closed (net s) then Some (set_call k (c\<lparr>phase := Refused\<rparr>) s) else None)"
| "rpc_do h size_of (RAccept k) s = at_call k s (\<lambda>c.
     if phase c = Offered \<and> serving (net s)
     then Some (set_call k (c\<lparr>phase := Accepted\<rparr>) (s\<lparr>net := accept_request (size_of (args (req c))) (net s)\<rparr>)) else None)"
| "rpc_do h size_of RStop s = (if closed (net s) \<and> serving (net s) then Some (s\<lparr>net := (net s)\<lparr>serving := False\<rparr>\<rparr>) else None)"
| "rpc_do h size_of (RStart k d) s = at_call k s (\<lambda>c.
     if phase c = Accepted
     then let (p, g) = processReq_start d (net s) (req c) in Some (set_call k (c\<lparr>phase := p, handler := g\<rparr>) s) else None)"
| "rpc_do h size_of (RHandle k) s = at_call k s (\<lambda>c.
     case handler c of
       Started a \<Rightarrow>
         if a < length (store (net s)) then
           (case Server_dispatch h (req c) (store (net s) ! a) (world s) of
              Done (r, rs, w) \<Rightarrow>
                Some (set_call k (c\<lparr>handler := Ran r\<rparr>)
                  (s\<lparr>net := (net s)\<lparr>store := (store (net s))[a := rs]\<rparr>, world := w, ran := ran s @ [(k, r)]\<rparr>))
            | _ \<Rightarrow> None)
         else None
     | _ \<Rightarrow> None)"
| "rpc_do h size_of (RGot k) s = at_call k s (\<lambda>c.
     case (phase c, handler c) of
       (Waiting sn a rel lr, Ran r) \<Rightarrow> Some (set_call k (c\<lparr>phase := Checking (Some r) sn a rel lr\<rparr>) s)
     | _ \<Rightarrow> None)"
| "rpc_do h size_of (RPoll k) s = at_call k s (\<lambda>c.
     case phase c of
       Waiting sn a rel lr \<Rightarrow> Some (set_call k (c\<lparr>phase := processReq_poll (net s) (req c) sn a rel lr\<rparr>) s)
     | _ \<Rightarrow> None)"
| "rpc_do h size_of (RFinish k d d') s = at_call k s (\<lambda>c.
     case phase c of
       Checking rep sn a rel lr \<Rightarrow>
         let (rn, p) = processReq_finish size_of d d' (net s) (req c) rep sn a rel lr
         in Some (set_call k (c\<lparr>phase := p\<rparr>) (s\<lparr>net := rn\<rparr>))
     | _ \<Rightarrow> None)"
| "rpc_do h size_of (RFire k) s = at_call k s (\<lambda>c.
     case phase c of
       Delayed r \<Rightarrow>
         Some (set_call k (c\<lparr>phase := Answered r\<rparr>) (s\<lparr>net := (net s)\<lparr>rpc_bytes := rpc_bytes (net s) + of_nat (size_of (reply r))\<rparr>\<rparr>))
     | _ \<Rightarrow> None)"
| "rpc_do h size_of (RReturn k) s = at_call k s (\<lambda>c.
     case phase c of
       Answered r \<Rightarrow>
         (case Call_return r (replyType c) (replyVar c) of
            Done (b, v) \<Rightarrow> Some (set_call k (c\<lparr>phase := Returned b, replyVar := v\<rparr>) s)
          | _ \<Rightarrow> None)
     | _ \<Rightarrow> None)"
| "rpc_do h size_of (ROp op) s = (case net_op op (net s) of Done rn \<Rightarrow> Some (s\<lparr>net := rn\<rparr>) | _ \<Rightarrow> None)"

definition rpc_step :: "('r, 'w) handlers \<Rightarrow> (bytes \<Rightarrow> nat) \<Rightarrow> ('r, 'w) Rpc \<Rightarrow> 'r rpc_event \<Rightarrow> ('r, 'w) Rpc \<Rightarrow> bool" where
  "rpc_step h size_of s e s' \<longleftrightarrow> rpc_do h size_of e s = Some s'"

definition rpc_initial :: "'w \<Rightarrow> ('r, 'w) Rpc \<Rightarrow> bool" where
  "rpc_initial w s \<longleftrightarrow> s = \<lparr>net = MakeNetwork, world = w, calls = [], ran = []\<rparr>"

fun rpc_run :: "('r, 'w) handlers \<Rightarrow> (bytes \<Rightarrow> nat) \<Rightarrow> 'r rpc_event list \<Rightarrow> ('r, 'w) Rpc \<Rightarrow> ('r, 'w) Rpc option" where
  "rpc_run h size_of [] s = Some s"
| "rpc_run h size_of (e # es) s = (case rpc_do h size_of e s of Some s \<Rightarrow> rpc_run h size_of es s | None \<Rightarrow> None)"

lemma rpc_run_reach:
  "reach I (rpc_step h size_of) P s \<Longrightarrow> rpc_run h size_of es s = Some s' \<Longrightarrow> list_all P es \<Longrightarrow> reach I (rpc_step h size_of) P s'"
proof (induction es arbitrary: s)
  case Nil
  then show ?case by simp
next
  case (Cons e es)
  then obtain s1 where s1: "rpc_do h size_of e s = Some s1" "rpc_run h size_of es s1 = Some s'" by (auto split: option.splits)
  have "P e" using Cons.prems(3) by simp
  then have "reach I (rpc_step h size_of) P s1"
    using reach_step [OF Cons.prems(1)] s1(1) unfolding rpc_step_def by blast
  from Cons.IH [OF this s1(2)] show ?case using Cons.prems(3) by simp
qed

end
