(* ===== verification/Labrpc_Invariants.thy ===== *)
theory Labrpc_Invariants
  imports Labrpc_Calls
begin

text \<open>
  Invariants of the calls in flight through \<open>labrpc\<close>, in every interleaving of calls, handlers and network
  operations: a handler runs at most once per call and a positive answer is its reply, the counter
  counts the accepted requests, and a call routed to a server that was deleted stays unanswered.
\<close>

section \<open>Calls and their handlers\<close>

definition counted :: "call \<Rightarrow> bool" where
  "counted c \<longleftrightarrow> phase c \<noteq> Offered \<and> phase c \<noteq> Refused"

definition call_ok :: "(nat \<times> replyMsg) list \<Rightarrow> nat \<Rightarrow> call \<Rightarrow> bool" where
  "call_ok R k c \<longleftrightarrow> (\<forall>r. (k, r) \<in> set R \<longleftrightarrow> handler c = Ran r) \<and>
     (case phase c of
        Offered \<Rightarrow> handler c = Idle
      | Refused \<Rightarrow> handler c = Idle
      | Accepted \<Rightarrow> handler c = Idle
      | Waiting sn a rel lr \<Rightarrow> handler c \<noteq> Idle
      | Checking rep sn a rel lr \<Rightarrow> handler c \<noteq> Idle \<and> (\<forall>r. rep = Some r \<longrightarrow> handler c = Ran r)
      | Delayed r \<Rightarrow> handler c = Ran r
      | Answered r \<Rightarrow> ok r \<longrightarrow> handler c = Ran r
      | Returned b \<Rightarrow> b \<longrightarrow> (\<exists>r d rest. handler c = Ran r \<and> ok r \<and> Decode (reply r) (replyType c) d = Some (replyVar c, rest)))"

definition rpc_ok :: "('r, 'w) Rpc \<Rightarrow> bool" where
  "rpc_ok s \<longleftrightarrow> (\<forall>k < length (calls s). call_ok (ran s) k (calls s ! k)) \<and> distinct (map fst (ran s)) \<and>
     (\<forall>x \<in> set (ran s). fst x < length (calls s)) \<and> rpc_count (net s) = of_nat (length (filter counted (calls s)))"

lemma length_filter_update:
  "k < length xs \<Longrightarrow> P y = P (xs ! k) \<Longrightarrow> length (filter P (xs[k := y])) = length (filter P xs)"
  "k < length xs \<Longrightarrow> P y \<Longrightarrow> \<not> P (xs ! k) \<Longrightarrow> length (filter P (xs[k := y])) = Suc (length (filter P xs))"
  by (induction xs arbitrary: k; auto split: nat.split simp: nth_Cons list_update.simps)+

text \<open>A step of one call that runs no handler, and leaves the counter alone.\<close>

lemma rpc_ok_call:
  assumes "rpc_ok s" and "k < length (calls s)" and "call_ok (ran s) k c" and "counted c = counted (calls s ! k)"
    and "rpc_count (net s') = rpc_count (net s)" and "calls s' = (calls s)[k := c]" and "ran s' = ran s"
  shows "rpc_ok s'"
  using assms by (auto simp: rpc_ok_def nth_list_update length_filter_update(1))

lemma rpc_ok_handle:
  assumes inv: "rpc_ok s" and k: "k < length (calls s)" and h: "handler (calls s ! k) = Started a"
    and s': "calls s' = (calls s)[k := (calls s ! k)\<lparr>handler := Ran r\<rparr>]" "ran s' = ran s @ [(k, r)]" "rpc_count (net s') = rpc_count (net s)"
  shows "rpc_ok s'"
proof -
  let ?c = "calls s ! k"
  have c: "call_ok (ran s) k ?c" using inv k by (simp add: rpc_ok_def)
  then have "(k, r') \<notin> set (ran s)" for r' using h by (simp add: call_ok_def)
  then have fresh: "k \<notin> fst ` set (ran s)" by auto
  have "call_ok (ran s') k (?c\<lparr>handler := Ran r\<rparr>)"
    using c h fresh by (auto simp: call_ok_def s' split: phase.splits)
  moreover have "call_ok (ran s') j (calls s ! j)" if "j < length (calls s)" "j \<noteq> k" for j
    using inv that by (simp add: rpc_ok_def call_ok_def s')
  ultimately have "\<forall>j < length (calls s'). call_ok (ran s') j (calls s' ! j)" using k by (simp add: s' nth_list_update)
  moreover have "counted (?c\<lparr>handler := Ran r\<rparr>) = counted ?c" by (simp add: counted_def)
  ultimately show ?thesis using inv k fresh by (auto simp: rpc_ok_def s' length_filter_update(1))
qed

lemma at_call_Some: "at_call k s f = Some s' \<longleftrightarrow> k < length (calls s) \<and> f (calls s ! k) = Some s'"
  by (simp add: at_call_def)

lemma set_call_simps [simp]:
  "calls (set_call k c s) = (calls s)[k := c]" "ran (set_call k c s) = ran s" "net (set_call k c s) = net s" "world (set_call k c s) = world s"
  by (simp_all add: set_call_def)

lemma net_op_count: "net_op op rn = Done rn' \<Longrightarrow> rpc_count rn' = rpc_count rn"
  by (cases op) (auto simp: Cleanup_def Reliable_def LongReordering_def LongDelays_def MakeEnd_def new_server_def AddServer_def
      DeleteServer_def Connect_def Enable_def split: if_splits)

lemma processReq_start_cases:
  assumes "processReq_start d rn rq = (p, g)"
  obtains "p = Answered failed" "g = Idle"
  | sn a where "p = Waiting sn a (reliable rn) (longReordering rn)" "g = Started a" "enabled rn (endname rq)"
      "connections rn (endname rq) = Some sn" "rpc_servers rn sn = Some a"
proof (cases "connections rn (endname rq)")
  case None
  then have "p = Answered failed" "g = Idle" using assms by (auto simp: processReq_start_def readEndnameInfo_def split: bool.split_asm)
  then show ?thesis by (rule that(1))
next
  case (Some sn)
  note S = this
  show ?thesis
  proof (cases "rpc_servers rn sn")
    case None
    then have "p = Answered failed" "g = Idle" using assms S by (auto simp: processReq_start_def readEndnameInfo_def split: bool.split_asm)
    then show ?thesis by (rule that(1))
  next
    case (Some a)
    show ?thesis
    proof (cases "enabled rn (endname rq) \<and> (reliable rn \<or> \<not> d mod 1000 < 100)")
      case True
      then have "p = Waiting sn a (reliable rn) (longReordering rn)" "g = Started a"
        using assms S Some by (auto simp: processReq_start_def readEndnameInfo_def)
      then show ?thesis using True S Some by (intro that(2)) auto
    next
      case False
      then have "p = Answered failed" "g = Idle"
        using assms S Some by (auto simp: processReq_start_def readEndnameInfo_def split: bool.split_asm)
      then show ?thesis by (rule that(1))
    qed
  qed
qed

lemma processReq_finish_cases:
  assumes "processReq_finish size_of d d' rn rq rep sn a rel lr = (rn', p)"
  obtains "p = Answered failed" "rn' = rn"
  | r where "rep = Some r" "\<not> isServerDead (endname rq) sn a rn" "p = Delayed r \<and> rn' = rn \<or> p = Answered r \<and> rn' = rn\<lparr>rpc_bytes := rpc_bytes rn + of_nat (size_of (reply r))\<rparr>"
proof (cases "rep = None \<or> isServerDead (endname rq) sn a rn \<or> \<not> rel \<and> d mod 1000 < 100")
  case True
  then have "p = Answered failed" "rn' = rn"
    using assms by (auto simp: processReq_finish_def split: option.split_asm if_split_asm)
  then show ?thesis by (rule that(1))
next
  case False
  then obtain r where r: "rep = Some r" by auto
  have "p = Delayed r \<and> rn' = rn \<or> p = Answered r \<and> rn' = rn\<lparr>rpc_bytes := rpc_bytes rn + of_nat (size_of (reply r))\<rparr>"
    using assms False r by (auto simp: processReq_finish_def split: if_split_asm)
  then show ?thesis using False r by (intro that(2)) auto
qed

lemma rpc_ok_step:
  assumes inv: "rpc_ok s" and st: "rpc_do h size_of e s = Some s'"
  shows "rpc_ok s'"
proof -
  have c: "call_ok (ran s) k (calls s ! k)" if "k < length (calls s)" for k using inv that by (simp add: rpc_ok_def)
  show ?thesis
  proof (cases e)
    case (RCall e m t v rt d)
    then obtain rq where s': "s' = s\<lparr>calls := calls s @ [\<lparr>req = rq, replyType = rt, replyVar = d, phase = Offered, handler = Idle\<rparr>]\<rparr>"
      using st by (auto split: outcome.splits)
    have "(length (calls s), r) \<notin> set (ran s)" for r using inv by (force simp: rpc_ok_def)
    then show ?thesis using inv by (auto simp: rpc_ok_def s' nth_append call_ok_def counted_def)
  next
    case (RRefuse k)
    then show ?thesis using st rpc_ok_call [OF inv, of k "(calls s ! k)\<lparr>phase := Refused\<rparr>" s'] c [of k]
      by (auto simp: at_call_Some call_ok_def counted_def split: if_split_asm)
  next
    case (RAccept k)
    then have k: "k < length (calls s)" "phase (calls s ! k) = Offered"
      and s': "s' = set_call k ((calls s ! k)\<lparr>phase := Accepted\<rparr>) (s\<lparr>net := accept_request (size_of (args (req (calls s ! k)))) (net s)\<rparr>)"
      using st by (auto simp: at_call_Some split: if_split_asm)
    have "length (filter counted (calls s')) = Suc (length (filter counted (calls s)))"
      unfolding s' by (simp add: length_filter_update(2) [OF k(1)] counted_def k(2))
    moreover have "call_ok (ran s) k ((calls s ! k)\<lparr>phase := Accepted\<rparr>)" using c [OF k(1)] k(2) by (simp add: call_ok_def)
    ultimately show ?thesis using inv k(1) by (auto simp: rpc_ok_def s' nth_list_update accept_request_def)
  next
    case RStop
    then have "s' = s\<lparr>net := (net s)\<lparr>serving := False\<rparr>\<rparr>" using st by (simp split: if_split_asm)
    then show ?thesis using inv by (simp add: rpc_ok_def)
  next
    case (RStart k d)
    obtain p g where pg: "processReq_start d (net s) (req (calls s ! k)) = (p, g)" by (cases "processReq_start d (net s) (req (calls s ! k))")
    from RStart have k: "k < length (calls s)" "phase (calls s ! k) = Accepted"
      and s': "s' = set_call k ((calls s ! k)\<lparr>phase := p, handler := g\<rparr>) s"
      using st by (auto simp: at_call_Some pg split: if_split_asm)
    from pg have "call_ok (ran s) k ((calls s ! k)\<lparr>phase := p, handler := g\<rparr>) \<and> counted ((calls s ! k)\<lparr>phase := p, handler := g\<rparr>)"
      by (rule processReq_start_cases) (use c [OF k(1)] k(2) in \<open>simp_all add: call_ok_def counted_def failed_def\<close>)
    then show ?thesis using rpc_ok_call [OF inv k(1), of "(calls s ! k)\<lparr>phase := p, handler := g\<rparr>" s'] k(2) by (simp add: s' counted_def)
  next
    case (RHandle k)
    then obtain a r rs w where k: "k < length (calls s)" "handler (calls s ! k) = Started a"
      and "s' = set_call k ((calls s ! k)\<lparr>handler := Ran r\<rparr>) (s\<lparr>net := (net s)\<lparr>store := (store (net s))[a := rs]\<rparr>, world := w, ran := ran s @ [(k, r)]\<rparr>)"
      using st by (auto simp: at_call_Some split: handling.splits if_split_asm outcome.splits)
    then show ?thesis by (intro rpc_ok_handle [OF inv k, of s' r]) simp_all
  next
    case (RGot k)
    then obtain sn a rel lr r where k: "k < length (calls s)" "phase (calls s ! k) = Waiting sn a rel lr" "handler (calls s ! k) = Ran r"
      and "s' = set_call k ((calls s ! k)\<lparr>phase := Checking (Some r) sn a rel lr\<rparr>) s"
      using st by (auto simp: at_call_Some split: phase.splits handling.splits)
    then show ?thesis using c [OF k(1)] by (intro rpc_ok_call [OF inv k(1)]) (simp_all add: call_ok_def counted_def)
  next
    case (RPoll k)
    then obtain sn a rel lr where k: "k < length (calls s)" "phase (calls s ! k) = Waiting sn a rel lr"
      and "s' = set_call k ((calls s ! k)\<lparr>phase := processReq_poll (net s) (req (calls s ! k)) sn a rel lr\<rparr>) s"
      using st by (auto simp: at_call_Some split: phase.splits)
    then show ?thesis using c [OF k(1)] by (intro rpc_ok_call [OF inv k(1)]) (simp_all add: call_ok_def counted_def processReq_poll_def)
  next
    case (RFinish k d d')
    then obtain rep sn a rel lr rn p where k: "k < length (calls s)" "phase (calls s ! k) = Checking rep sn a rel lr"
      and fin: "processReq_finish size_of d d' (net s) (req (calls s ! k)) rep sn a rel lr = (rn, p)"
      and s': "s' = set_call k ((calls s ! k)\<lparr>phase := p\<rparr>) (s\<lparr>net := rn\<rparr>)"
      using st by (auto simp: at_call_Some split: phase.splits prod.splits)
    from fin have "call_ok (ran s) k ((calls s ! k)\<lparr>phase := p\<rparr>) \<and> counted ((calls s ! k)\<lparr>phase := p\<rparr>) \<and> rpc_count rn = rpc_count (net s)"
      by (rule processReq_finish_cases) (use c [OF k(1)] k(2) in \<open>auto simp: call_ok_def counted_def failed_def\<close>)
    then show ?thesis using k by (intro rpc_ok_call [OF inv k(1), of "(calls s ! k)\<lparr>phase := p\<rparr>"]) (simp_all add: s' counted_def)
  next
    case (RFire k)
    then obtain r where k: "k < length (calls s)" "phase (calls s ! k) = Delayed r"
      and "s' = set_call k ((calls s ! k)\<lparr>phase := Answered r\<rparr>) (s\<lparr>net := (net s)\<lparr>rpc_bytes := rpc_bytes (net s) + of_nat (size_of (reply r))\<rparr>\<rparr>)"
      using st by (auto simp: at_call_Some split: phase.splits)
    then show ?thesis using c [OF k(1)] by (intro rpc_ok_call [OF inv k(1)]) (simp_all add: call_ok_def counted_def)
  next
    case (RReturn k)
    then obtain r b v where k: "k < length (calls s)" "phase (calls s ! k) = Answered r"
      and ret: "Call_return r (replyType (calls s ! k)) (replyVar (calls s ! k)) = Done (b, v)"
      and s': "s' = set_call k ((calls s ! k)\<lparr>phase := Returned b, replyVar := v\<rparr>) s"
      using st by (auto simp: at_call_Some split: phase.splits outcome.splits)
    from ret have "b \<Longrightarrow> ok r \<and> (\<exists>rest. Decode (reply r) (replyType (calls s ! k)) (replyVar (calls s ! k)) = Some (v, rest))"
      by (auto simp: Call_return_def split: if_split_asm option.splits)
    then have "call_ok (ran s) k ((calls s ! k)\<lparr>phase := Returned b, replyVar := v\<rparr>)"
      using c [OF k(1)] k(2) by (auto simp: call_ok_def)
    then show ?thesis using k by (intro rpc_ok_call [OF inv k(1), of "(calls s ! k)\<lparr>phase := Returned b, replyVar := v\<rparr>"]) (simp_all add: s' counted_def)
  next
    case (ROp op)
    then obtain rn where "net_op op (net s) = Done rn" "s' = s\<lparr>net := rn\<rparr>" using st by (auto split: outcome.splits)
    then show ?thesis using inv net_op_count [of op "net s" rn] by (simp add: rpc_ok_def)
  qed
qed

lemma rpc_ok_initial: "rpc_initial w s \<Longrightarrow> rpc_ok s"
  by (simp add: rpc_initial_def rpc_ok_def MakeNetwork_def)

interpretation rc: step_invariant "rpc_initial w" "rpc_step h size_of" "\<lambda>e. True" rpc_ok for w h size_of
  by unfold_locales (auto simp: rpc_step_def intro: rpc_ok_initial rpc_ok_step)

section \<open>A deleted server\<close>

text \<open>The call was routed to the server object \<open>a\<close>, which is no longer the server \<open>sn\<close>.\<close>

definition call_dead :: "nat \<Rightarrow> nat \<Rightarrow> nat \<Rightarrow> ('r, 'w) Rpc \<Rightarrow> bool" where
  "call_dead k sn a s \<longleftrightarrow> k < length (calls s) \<and> rpc_servers (net s) sn \<noteq> Some a \<and>
     (case phase (calls s ! k) of
        Waiting sn' a' rel lr \<Rightarrow> sn' = sn \<and> a' = a
      | Checking rep sn' a' rel lr \<Rightarrow> sn' = sn \<and> a' = a
      | Answered r \<Rightarrow> \<not> ok r
      | Returned b \<Rightarrow> \<not> b
      | _ \<Rightarrow> False)"

lemma call_dead_other:
  "call_dead k sn a s \<Longrightarrow> k' \<noteq> k \<Longrightarrow> calls s' = (calls s)[k' := c] \<Longrightarrow> rpc_servers (net s') = rpc_servers (net s) \<Longrightarrow> call_dead k sn a s'"
  by (simp add: call_dead_def)

lemma net_op_servers:
  "net_op op rn = Done rn' \<Longrightarrow> op \<noteq> OpAddServer sn a \<Longrightarrow> rpc_servers rn sn \<noteq> Some a \<Longrightarrow> rpc_servers rn' sn \<noteq> Some a"
  by (cases op) (auto simp: Cleanup_def Reliable_def LongReordering_def LongDelays_def MakeEnd_def new_server_def AddServer_def
      DeleteServer_def Connect_def Enable_def split: if_split_asm)

lemma rpc_servers_accept [simp]: "rpc_servers (accept_request n rn) = rpc_servers rn"
  by (simp add: accept_request_def)

text \<open>What an event of call \<open>k\<close> can change: that call, and the network but for its server table.\<close>

fun event_call :: "'r rpc_event \<Rightarrow> nat option" where
  "event_call (RRefuse k) = Some k"
| "event_call (RAccept k) = Some k"
| "event_call (RStart k d) = Some k"
| "event_call (RHandle k) = Some k"
| "event_call (RGot k) = Some k"
| "event_call (RPoll k) = Some k"
| "event_call (RFinish k d d') = Some k"
| "event_call (RFire k) = Some k"
| "event_call (RReturn k) = Some k"
| "event_call _ = None"

lemma rpc_do_call:
  assumes "rpc_do h size_of e s = Some s'" and "event_call e = Some k"
  obtains c where "k < length (calls s)" "calls s' = (calls s)[k := c]" "rpc_servers (net s') = rpc_servers (net s)"
proof (cases e)
  case (RFinish k' d d')
  then obtain rep sn a rel lr rn p where k: "k < length (calls s)"
    and fin: "processReq_finish size_of d d' (net s) (req (calls s ! k)) rep sn a rel lr = (rn, p)"
    and s': "s' = set_call k ((calls s ! k)\<lparr>phase := p\<rparr>) (s\<lparr>net := rn\<rparr>)"
    using assms by (auto simp: at_call_Some split: phase.splits prod.splits)
  from fin have "rpc_servers rn = rpc_servers (net s)" by (rule processReq_finish_cases) auto
  then show ?thesis using k by (intro that) (simp_all add: s')
qed (use assms that in \<open>auto simp: at_call_Some split: if_split_asm phase.splits handling.splits outcome.splits prod.splits\<close>)

lemma call_dead_step:
  assumes dead: "call_dead k sn a s" and st: "rpc_do h size_of e s = Some s'" and ne: "e \<noteq> ROp (OpAddServer sn a)"
  shows "call_dead k sn a s'"
proof (cases "event_call e = Some k")
  case False
  show ?thesis
  proof (cases "event_call e")
    case None
    then show ?thesis
    proof (cases e)
      case (ROp op)
      then obtain rn where "net_op op (net s) = Done rn" "s' = s\<lparr>net := rn\<rparr>" using st by (auto split: outcome.splits)
      then show ?thesis using dead net_op_servers [of op "net s" rn sn a] ne ROp by (simp add: call_dead_def)
    qed (use dead st in \<open>auto simp: call_dead_def nth_append split: outcome.splits if_split_asm\<close>)
  next
    case (Some k')
    then obtain c where "calls s' = (calls s)[k' := c]" "rpc_servers (net s') = rpc_servers (net s)"
      using rpc_do_call [OF st] by metis
    then show ?thesis using call_dead_other [OF dead] False Some by metis
  qed
next
  case True
  have k: "k < length (calls s)" and gone: "rpc_servers (net s) sn \<noteq> Some a" using dead by (simp_all add: call_dead_def)
  have late: "phase (calls s ! k) \<noteq> Offered" "phase (calls s ! k) \<noteq> Accepted" "phase (calls s ! k) \<noteq> Delayed r" for r
    using dead by (auto simp: call_dead_def)
  have ph: "call_dead k sn a s'"
    if "calls s' = (calls s)[k := (calls s ! k)\<lparr>phase := p\<rparr>]" "rpc_servers (net s') = rpc_servers (net s)"
      "case p of Waiting sn' a' rel lr \<Rightarrow> sn' = sn \<and> a' = a | Checking rep sn' a' rel lr \<Rightarrow> sn' = sn \<and> a' = a
        | Answered r \<Rightarrow> \<not> ok r | Returned b \<Rightarrow> \<not> b | _ \<Rightarrow> False" for p
    using that k gone by (simp add: call_dead_def)
  show ?thesis
  proof (cases e)
    case (RHandle k')
    then show ?thesis using True st dead
      by (auto simp: at_call_Some call_dead_def split: handling.splits if_split_asm outcome.splits)
  next
    case (RGot k')
    then obtain sn' a' rel lr r where w: "phase (calls s ! k) = Waiting sn' a' rel lr"
      and s': "s' = set_call k ((calls s ! k)\<lparr>phase := Checking (Some r) sn' a' rel lr\<rparr>) s"
      using True st by (auto simp: at_call_Some split: phase.splits handling.splits)
    show ?thesis by (rule ph [of "Checking (Some r) sn' a' rel lr"]) (use dead w in \<open>simp_all add: s' call_dead_def\<close>)
  next
    case (RPoll k')
    then obtain sn' a' rel lr where w: "phase (calls s ! k) = Waiting sn' a' rel lr"
      and s': "s' = set_call k ((calls s ! k)\<lparr>phase := processReq_poll (net s) (req (calls s ! k)) sn' a' rel lr\<rparr>) s"
      using True st by (auto simp: at_call_Some split: phase.splits)
    show ?thesis
      by (rule ph [of "processReq_poll (net s) (req (calls s ! k)) sn' a' rel lr"]) (use dead w in \<open>simp_all add: s' call_dead_def processReq_poll_def\<close>)
  next
    case (RFinish k' d d')
    then obtain rep sn' a' rel lr rn p where w: "phase (calls s ! k) = Checking rep sn' a' rel lr"
      and fin: "processReq_finish size_of d d' (net s) (req (calls s ! k)) rep sn' a' rel lr = (rn, p)"
      and s': "s' = set_call k ((calls s ! k)\<lparr>phase := p\<rparr>) (s\<lparr>net := rn\<rparr>)"
      using True st by (auto simp: at_call_Some split: phase.splits prod.splits)
    have "sn' = sn" "a' = a" using dead w by (simp_all add: call_dead_def)
    then have "isServerDead (endname (req (calls s ! k))) sn' a' (net s)" using gone by (simp add: isServerDead_def)
    then have "p = Answered failed \<and> rn = net s" using fin by (auto simp: processReq_finish_def split: option.splits)
    then show ?thesis by (intro ph [of p]) (simp_all add: s' failed_def)
  next
    case (RReturn k')
    then obtain r b v where w: "phase (calls s ! k) = Answered r"
      and ret: "Call_return r (replyType (calls s ! k)) (replyVar (calls s ! k)) = Done (b, v)"
      and s': "s' = set_call k ((calls s ! k)\<lparr>phase := Returned b, replyVar := v\<rparr>) s"
      using True st by (auto simp: at_call_Some split: phase.splits outcome.splits)
    have "\<not> ok r" using dead w by (simp add: call_dead_def)
    then have "\<not> b" using ret by (simp add: Call_return_def)
    then show ?thesis using k gone by (simp add: s' call_dead_def)
  qed (use True st late in \<open>auto simp: at_call_Some split: if_split_asm phase.splits\<close>)
qed

interpretation dd: step_invariant "call_dead k sn a" "rpc_step h size_of" "\<lambda>e. e \<noteq> ROp (OpAddServer sn a)" "call_dead k sn a" for k sn a h size_of
  by unfold_locales (auto simp: rpc_step_def intro: call_dead_step)

end
