(* ===== verification/Rpc_Messages.thy ===== *)
theory Rpc_Messages
  imports Labrpc_Invariants
begin

text \<open>
  The contract of the network as the Raft servers see it, and as the cluster of \<open>Raft_Cluster\<close>
  assumes it: a request is executed once or lost, its reply is delivered once or lost, in any order.
  The calls of \<open>Labrpc_Calls\<close>, with their goroutines, timers and checks, refine it.
\<close>

section \<open>Refinement\<close>

text \<open>A concrete step is any number of abstract ones, on reachable states.\<close>

locale refinement = step_invariant I T P Inv
  for I :: "'s \<Rightarrow> bool" and T :: "'s \<Rightarrow> 'e \<Rightarrow> 's \<Rightarrow> bool" and P Inv +
  fixes abstr :: "'s \<Rightarrow> 'a" and J :: "'a \<Rightarrow> bool" and A :: "'a \<Rightarrow> 'a \<Rightarrow> bool"
  assumes start: "I s \<Longrightarrow> J (abstr s)"
    and simulates: "Inv s \<Longrightarrow> T s e s' \<Longrightarrow> P e \<Longrightarrow> A\<^sup>*\<^sup>* (abstr s) (abstr s')"
begin

lemma reach_abstr: "reach I T P s \<Longrightarrow> \<exists>l. J l \<and> A\<^sup>*\<^sup>* l (abstr s)"
proof (induction rule: reach.induct)
  case (reach_init s)
  then show ?case using start by blast
next
  case (reach_step s e s')
  then show ?case using simulates [OF inv_reach] by (meson rtranclp_trans)
qed

end

section \<open>The abstract network\<close>

datatype message = Request reqMsg | Reply reqMsg replyMsg | Gone

text \<open>\<open>delivered\<close> are the replies handed to callers, each with the position of its message.\<close>

record 'w Link =
  state_of :: 'w
  messages :: "message list"
  delivered :: "(nat \<times> replyMsg) set"

inductive link_step :: "(reqMsg \<Rightarrow> 'w \<Rightarrow> replyMsg \<Rightarrow> 'w \<Rightarrow> bool) \<Rightarrow> 'w Link \<Rightarrow> 'w Link \<Rightarrow> bool" for E where
  send: "link_step E l (l\<lparr>messages := messages l @ [Request rq]\<rparr>)"
| execute: "k < length (messages l) \<Longrightarrow> messages l ! k = Request rq \<Longrightarrow> E rq (state_of l) r w \<Longrightarrow>
    link_step E l (l\<lparr>state_of := w, messages := (messages l)[k := Reply rq r]\<rparr>)"
| lose: "k < length (messages l) \<Longrightarrow> link_step E l (l\<lparr>messages := (messages l)[k := Gone]\<rparr>)"
| deliver: "k < length (messages l) \<Longrightarrow> messages l ! k = Reply rq r \<Longrightarrow>
    link_step E l (l\<lparr>messages := (messages l)[k := Gone], delivered := insert (k, r) (delivered l)\<rparr>)"

text \<open>Executing a request is running its handler on some server object.\<close>

definition executes :: "('r, 'w) handlers \<Rightarrow> reqMsg \<Rightarrow> 'w \<Rightarrow> replyMsg \<Rightarrow> 'w \<Rightarrow> bool" where
  "executes h rq w r w' \<longleftrightarrow> (\<exists>rs rs'. Server_dispatch h rq rs w = Done (r, rs', w'))"

section \<open>Calls as messages\<close>

definition abs_call :: "call \<Rightarrow> message" where
  "abs_call c = (case handler c of
     Started a \<Rightarrow> Request (req c)
   | Idle \<Rightarrow> (if phase c = Offered \<or> phase c = Accepted then Request (req c) else Gone)
   | Ran r \<Rightarrow> (case phase c of
         Waiting sn a rel lr \<Rightarrow> Reply (req c) r
       | Checking rep sn a rel lr \<Rightarrow> if rep = None then Gone else Reply (req c) r
       | Delayed r' \<Rightarrow> Reply (req c) r
       | Answered r' \<Rightarrow> if ok r' then Reply (req c) r else Gone
       | _ \<Rightarrow> Gone))"

definition abs_rpc :: "('r, 'w) Rpc \<Rightarrow> 'w Link" where
  "abs_rpc s = \<lparr>state_of = world s, messages = map abs_call (calls s),
     delivered = {(k, r). k < length (calls s) \<and> phase (calls s ! k) = Returned True \<and> handler (calls s ! k) = Ran r}\<rparr>"

lemma abs_rpc_simps [simp]:
  "state_of (abs_rpc s) = world s" "messages (abs_rpc s) = map abs_call (calls s)"
  by (simp_all add: abs_rpc_def)

lemma abs_rpc_call:
  assumes "k < length (calls s)" and "calls s' = (calls s)[k := c]" and "world s' = world s"
    and "phase c \<noteq> Returned True" and "phase (calls s ! k) \<noteq> Returned True"
  shows "abs_rpc s' = (abs_rpc s)\<lparr>messages := (map abs_call (calls s))[k := abs_call c]\<rparr>"
proof -
  have "phase (calls s' ! j) = Returned True \<and> handler (calls s' ! j) = Ran r \<longleftrightarrow>
      phase (calls s ! j) = Returned True \<and> handler (calls s ! j) = Ran r" if "j < length (calls s)" for j r
    using assms that by (cases "j = k") auto
  then show ?thesis using assms(2,3) by (auto simp: abs_rpc_def map_update)
qed

text \<open>One call moves on, and as a message stays as it is or is lost.\<close>

lemma abs_move:
  assumes "k < length (calls s)" and "calls s' = (calls s)[k := c]" and "world s' = world s"
    and "phase c \<noteq> Returned True" and "phase (calls s ! k) \<noteq> Returned True"
    and "abs_call c = abs_call (calls s ! k) \<or> abs_call c = Gone"
  shows "(link_step E)\<^sup>*\<^sup>* (abs_rpc s) (abs_rpc s')"
proof -
  note eq = abs_rpc_call [OF assms(1-5)]
  show ?thesis
  proof (cases "abs_call c = abs_call (calls s ! k)")
    case True
    have "(map abs_call (calls s))[k := abs_call c] = map abs_call (calls s)"
      unfolding True by (metis map_update list_update_id)
    then have "abs_rpc s' = abs_rpc s" unfolding eq by (metis abs_rpc_simps(2) Link.surjective Link.update_convs(2) old.unit.exhaust)
    then show ?thesis by simp
  next
    case False
    then have "abs_rpc s' = (abs_rpc s)\<lparr>messages := (messages (abs_rpc s))[k := Gone]\<rparr>" using assms(6) by (simp add: eq)
    then have "link_step E (abs_rpc s) (abs_rpc s')" using link_step.lose [of k "abs_rpc s" E] assms(1) by simp
    then show ?thesis by blast
  qed
qed

lemma abs_same: "calls s' = calls s \<Longrightarrow> world s' = world s \<Longrightarrow> (link_step E)\<^sup>*\<^sup>* (abs_rpc s) (abs_rpc s')"
  by (simp add: abs_rpc_def)

lemma abs_handle:
  assumes k: "k < length (calls s)" and h: "handler (calls s ! k) = Started a" and nr: "phase (calls s ! k) \<noteq> Returned True"
    and ex: "E (req (calls s ! k)) (world s) r (world s')"
    and s': "calls s' = (calls s)[k := (calls s ! k)\<lparr>handler := Ran r\<rparr>]"
    and ph: "\<And>x. phase (calls s ! k) \<noteq> Delayed x"
  shows "(link_step E)\<^sup>*\<^sup>* (abs_rpc s) (abs_rpc s')"
proof -
  let ?c = "(calls s ! k)\<lparr>handler := Ran r\<rparr>" and ?l = "(abs_rpc s)\<lparr>state_of := world s', messages := (messages (abs_rpc s))[k := Reply (req (calls s ! k)) r]\<rparr>"
  have "messages (abs_rpc s) ! k = Request (req (calls s ! k))" using k h by (simp add: abs_call_def)
  then have one: "link_step E (abs_rpc s) ?l" using link_step.execute [of k "abs_rpc s" _ E] k ex by simp
  have "phase (calls s' ! j) = Returned True \<and> handler (calls s' ! j) = Ran x \<longleftrightarrow>
      phase (calls s ! j) = Returned True \<and> handler (calls s ! j) = Ran x" if "j < length (calls s)" for j x
    using nr that k by (cases "j = k") (auto simp: s')
  then have eq: "abs_rpc s' = ?l\<lparr>messages := (messages (abs_rpc s))[k := abs_call ?c]\<rparr>"
    by (auto simp: abs_rpc_def s' map_update)
  have "abs_call ?c = Reply (req (calls s ! k)) r \<or> abs_call ?c = Gone"
    by (auto simp: abs_call_def split: phase.splits)
  then show ?thesis
  proof
    assume "abs_call ?c = Reply (req (calls s ! k)) r"
    then have "abs_rpc s' = ?l" unfolding eq by simp
    then show ?thesis using one by auto
  next
    assume "abs_call ?c = Gone"
    then have "abs_rpc s' = ?l\<lparr>messages := (messages ?l)[k := Gone]\<rparr>" unfolding eq by simp
    then have "link_step E ?l (abs_rpc s')" using link_step.lose [of k ?l E] k by simp
    then show ?thesis using one by (meson converse_rtranclp_into_rtranclp rtranclp.rtrancl_refl)
  qed
qed

lemma abs_return:
  assumes k: "k < length (calls s)" and p: "phase (calls s ! k) = Answered r" and ok: "ok r" "handler (calls s ! k) = Ran r"
    and s': "calls s' = (calls s)[k := (calls s ! k)\<lparr>phase := Returned True, replyVar := v\<rparr>]" "world s' = world s"
  shows "(link_step E)\<^sup>*\<^sup>* (abs_rpc s) (abs_rpc s')"
proof -
  have m: "messages (abs_rpc s) ! k = Reply (req (calls s ! k)) r" using k p ok by (simp add: abs_call_def)
  have "phase (calls s' ! j) = Returned True \<and> handler (calls s' ! j) = Ran x \<longleftrightarrow>
      phase (calls s ! j) = Returned True \<and> handler (calls s ! j) = Ran x \<or> j = k \<and> x = r" if "j < length (calls s)" for j x
    using that k p ok by (cases "j = k") (auto simp: s')
  then have "delivered (abs_rpc s') = insert (k, r) (delivered (abs_rpc s))" using k by (auto simp: abs_rpc_def s')
  moreover have "messages (abs_rpc s') = (messages (abs_rpc s))[k := Gone]" by (simp add: s' map_update abs_call_def ok)
  ultimately have "abs_rpc s' = (abs_rpc s)\<lparr>messages := (messages (abs_rpc s))[k := Gone], delivered := insert (k, r) (delivered (abs_rpc s))\<rparr>"
    using s'(2) by (simp add: abs_rpc_def)
  then have "link_step E (abs_rpc s) (abs_rpc s')" using link_step.deliver [of k "abs_rpc s" _ r E] k m by simp
  then show ?thesis by blast
qed

section \<open>The calls refine the messages\<close>

lemma rpc_simulates:
  assumes inv: "rpc_ok s" and st: "rpc_do h size_of e s = Some s'"
  shows "(link_step (executes h))\<^sup>*\<^sup>* (abs_rpc s) (abs_rpc s')"
proof -
  have c: "call_ok (ran s) k (calls s ! k)" if "k < length (calls s)" for k using inv that by (simp add: rpc_ok_def)
  show ?thesis
  proof (cases e)
    case (RCall ep m t v rt d)
    then obtain rq where s': "s' = s\<lparr>calls := calls s @ [\<lparr>req = rq, replyType = rt, replyVar = d, phase = Offered, handler = Idle\<rparr>]\<rparr>"
      using st by (auto split: outcome.splits)
    have "abs_rpc s' = (abs_rpc s)\<lparr>messages := messages (abs_rpc s) @ [Request rq]\<rparr>"
      by (auto simp: abs_rpc_def s' abs_call_def nth_append less_Suc_eq split: if_split_asm)
    then show ?thesis using link_step.send [of "executes h" "abs_rpc s" rq] by simp
  next
    case (RRefuse k)
    then have k: "k < length (calls s)" "phase (calls s ! k) = Offered" and s': "s' = set_call k ((calls s ! k)\<lparr>phase := Refused\<rparr>) s"
      using st by (auto simp: at_call_Some split: if_split_asm)
    have "handler (calls s ! k) = Idle" using c [OF k(1)] k(2) by (simp add: call_ok_def)
    then show ?thesis by (intro abs_move [OF k(1), of s' "(calls s ! k)\<lparr>phase := Refused\<rparr>"]) (use k(2) in \<open>simp_all add: s' abs_call_def\<close>)
  next
    case (RAccept k)
    then have k: "k < length (calls s)" "phase (calls s ! k) = Offered"
      and s': "s' = set_call k ((calls s ! k)\<lparr>phase := Accepted\<rparr>) (s\<lparr>net := accept_request (size_of (args (req (calls s ! k)))) (net s)\<rparr>)"
      using st by (auto simp: at_call_Some split: if_split_asm)
    have "handler (calls s ! k) = Idle" using c [OF k(1)] k(2) by (simp add: call_ok_def)
    then show ?thesis by (intro abs_move [OF k(1), of s' "(calls s ! k)\<lparr>phase := Accepted\<rparr>"]) (use k(2) in \<open>simp_all add: s' abs_call_def\<close>)
  next
    case RStop
    then show ?thesis using st by (intro abs_same) (auto split: if_split_asm)
  next
    case (RStart k d)
    obtain p g where pg: "processReq_start d (net s) (req (calls s ! k)) = (p, g)" by (cases "processReq_start d (net s) (req (calls s ! k))")
    from RStart have k: "k < length (calls s)" "phase (calls s ! k) = Accepted"
      and s': "s' = set_call k ((calls s ! k)\<lparr>phase := p, handler := g\<rparr>) s"
      using st by (auto simp: at_call_Some pg split: if_split_asm)
    from pg show ?thesis
      by (rule processReq_start_cases; intro abs_move [OF k(1), of s' "(calls s ! k)\<lparr>phase := p, handler := g\<rparr>"]) (use c [OF k(1)] k(2) in \<open>simp_all add: s' abs_call_def call_ok_def\<close>)
  next
    case (RHandle k)
    then obtain a r rs w where k: "k < length (calls s)" "handler (calls s ! k) = Started a"
      and ex: "Server_dispatch h (req (calls s ! k)) (store (net s) ! a) (world s) = Done (r, rs, w)"
      and s': "s' = set_call k ((calls s ! k)\<lparr>handler := Ran r\<rparr>) (s\<lparr>net := (net s)\<lparr>store := (store (net s))[a := rs]\<rparr>, world := w, ran := ran s @ [(k, r)]\<rparr>)"
      using st by (auto simp: at_call_Some split: handling.splits if_split_asm outcome.splits)
    show ?thesis
      by (rule abs_handle [OF k]) (use c [OF k(1)] k(2) ex in \<open>auto simp: s' call_ok_def executes_def\<close>)
  next
    case (RGot k)
    then obtain sn a rel lr r where k: "k < length (calls s)" "phase (calls s ! k) = Waiting sn a rel lr" "handler (calls s ! k) = Ran r"
      and s': "s' = set_call k ((calls s ! k)\<lparr>phase := Checking (Some r) sn a rel lr\<rparr>) s"
      using st by (auto simp: at_call_Some split: phase.splits handling.splits)
    show ?thesis by (rule abs_move [OF k(1), of s' "(calls s ! k)\<lparr>phase := Checking (Some r) sn a rel lr\<rparr>"]) (use k(2,3) in \<open>simp_all add: s' abs_call_def\<close>)
  next
    case (RPoll k)
    then obtain sn a rel lr where k: "k < length (calls s)" "phase (calls s ! k) = Waiting sn a rel lr"
      and s': "s' = set_call k ((calls s ! k)\<lparr>phase := processReq_poll (net s) (req (calls s ! k)) sn a rel lr\<rparr>) s"
      using st by (auto simp: at_call_Some split: phase.splits)
    show ?thesis
      by (rule abs_move [OF k(1), of s' "(calls s ! k)\<lparr>phase := processReq_poll (net s) (req (calls s ! k)) sn a rel lr\<rparr>"]) (use c [OF k(1)] k(2) in \<open>auto simp: s' abs_call_def processReq_poll_def call_ok_def split: handling.splits\<close>)
  next
    case (RFinish k d d')
    then obtain rep sn a rel lr rn p where k: "k < length (calls s)" "phase (calls s ! k) = Checking rep sn a rel lr"
      and fin: "processReq_finish size_of d d' (net s) (req (calls s ! k)) rep sn a rel lr = (rn, p)"
      and s': "s' = set_call k ((calls s ! k)\<lparr>phase := p\<rparr>) (s\<lparr>net := rn\<rparr>)"
      using st by (auto simp: at_call_Some split: phase.splits prod.splits)
    have "phase ((calls s ! k)\<lparr>phase := p\<rparr>) \<noteq> Returned True \<and>
        (abs_call ((calls s ! k)\<lparr>phase := p\<rparr>) = abs_call (calls s ! k) \<or> abs_call ((calls s ! k)\<lparr>phase := p\<rparr>) = Gone)"
      by (rule processReq_finish_cases [OF fin])
        (use c [OF k(1)] k(2) in \<open>auto simp: abs_call_def call_ok_def failed_def split: handling.splits if_split_asm\<close>)
    then show ?thesis using k by (intro abs_move [OF k(1), of s' "(calls s ! k)\<lparr>phase := p\<rparr>"]) (simp_all add: s')
  next
    case (RFire k)
    then obtain r where k: "k < length (calls s)" "phase (calls s ! k) = Delayed r"
      and s': "s' = set_call k ((calls s ! k)\<lparr>phase := Answered r\<rparr>) (s\<lparr>net := (net s)\<lparr>rpc_bytes := rpc_bytes (net s) + of_nat (size_of (reply r))\<rparr>\<rparr>)"
      using st by (auto simp: at_call_Some split: phase.splits)
    show ?thesis by (rule abs_move [OF k(1), of s' "(calls s ! k)\<lparr>phase := Answered r\<rparr>"]) (use c [OF k(1)] k(2) in \<open>simp_all add: s' abs_call_def call_ok_def\<close>)
  next
    case (RReturn k)
    then obtain r b v where k: "k < length (calls s)" "phase (calls s ! k) = Answered r"
      and ret: "Call_return r (replyType (calls s ! k)) (replyVar (calls s ! k)) = Done (b, v)"
      and s': "s' = set_call k ((calls s ! k)\<lparr>phase := Returned b, replyVar := v\<rparr>) s"
      using st by (auto simp: at_call_Some split: phase.splits outcome.splits)
    show ?thesis
    proof (cases "ok r")
      case True
      then have "b" using ret by (auto simp: Call_return_def split: option.splits)
      then show ?thesis
        using c [OF k(1)] k True by (intro abs_return [OF k True]) (simp_all add: s' call_ok_def)
    next
      case False
      then have "\<not> b" using ret by (simp add: Call_return_def)
      then show ?thesis
        by (intro abs_move [OF k(1), of s' "(calls s ! k)\<lparr>phase := Returned b, replyVar := v\<rparr>"]) (use k(2) False in \<open>auto simp: s' abs_call_def split: handling.splits\<close>)
    qed
  next
    case (ROp op)
    then show ?thesis using st by (intro abs_same) (auto split: outcome.splits)
  qed
qed

definition link_initial :: "'w \<Rightarrow> 'w Link \<Rightarrow> bool" where
  "link_initial w l \<longleftrightarrow> l = \<lparr>state_of = w, messages = [], delivered = {}\<rparr>"

interpretation rm: refinement "rpc_initial w" "rpc_step h size_of" "\<lambda>e. True" rpc_ok abs_rpc "link_initial w" "link_step (executes h)"
  for w h size_of
proof
  show "link_initial w (abs_rpc s)" if "rpc_initial w s" for s
    using that by (simp add: rpc_initial_def link_initial_def abs_rpc_def)
  show "(link_step (executes h))\<^sup>*\<^sup>* (abs_rpc s) (abs_rpc s')" if "rpc_ok s" "rpc_step h size_of s e s'" "True" for s e s'
    using rpc_simulates that by (simp add: rpc_step_def)
qed

end
