(* ===== verification/Raft_Wire.thy ===== *)
theory Raft_Wire
  imports Raft_Server Labrpc_Calls
begin

text \<open>
  Raft over \<open>labrpc\<close>: the RPC structs as gob values and back, the methods reflection finds on
  \<open>*Raft\<close> and the service made of them, the handlers of a cluster as the parameter \<open>labrpc\<close> takes,
  and the three senders (\<open>sendRequestVote\<close>, \<open>sendAppendEntries\<close>, \<open>sendSnapShot\<close>) as calls.
\<close>

section \<open>Structs as values\<close>

definition RequestVoteReply_type :: gotype where
  "RequestVoteReply_type = TStruct [(''Term'', TInt), (''VoteGranted'', TBool)]"

definition RequestVoteReply_val :: "RequestVoteReply \<Rightarrow> goval" where
  "RequestVoteReply_val r = VStruct [(''Term'', VInt (rvr_Term r)), (''VoteGranted'', VBool (VoteGranted r))]"

definition InstallSnapshotArgs_type :: gotype where
  "InstallSnapshotArgs_type = TStruct [(''Term'', TInt), (''LeaderId'', TInt), (''LastIncludeIndex'', TInt),
     (''LastIncludeTerm'', TInt), (''Data'', TBytes)]"

definition InstallSnapshotArgs_val :: "InstallSnapshotArgs \<Rightarrow> goval" where
  "InstallSnapshotArgs_val a = VStruct [(''Term'', VInt (is_Term a)), (''LeaderId'', VInt (is_LeaderId a)),
     (''LastIncludeIndex'', VInt (LastIncludeIndex a)), (''LastIncludeTerm'', VInt (LastIncludeTerm a)), (''Data'', VBytes (Data a))]"

definition InstallSnapshotReply_type :: gotype where
  "InstallSnapshotReply_type = TStruct [(''Term'', TInt)]"

definition InstallSnapshotReply_val :: "InstallSnapshotReply \<Rightarrow> goval" where
  "InstallSnapshotReply_val r = VStruct [(''Term'', VInt (isr_Term r))]"

text \<open>The struct a value of its type stands for.\<close>

fun val_field :: "goval \<Rightarrow> nat \<Rightarrow> goval option" where
  "val_field (VStruct fs) k = (if k < length fs then Some (snd (fs ! k)) else None)"
| "val_field _ k = None"

definition val_int_field :: "goval \<Rightarrow> nat \<Rightarrow> int option" where
  "val_int_field v k = do { x \<leftarrow> val_field v k; val_int x }"

fun val_Entries :: "goval \<Rightarrow> Entry list option" where
  "val_Entries (VSlice es) = those (map val_Entry es)"
| "val_Entries _ = None"

fun val_bytes :: "goval \<Rightarrow> bytes option" where
  "val_bytes (VBytes b) = Some b"
| "val_bytes _ = None"

definition val_RequestVoteArgs :: "goval \<Rightarrow> RequestVoteArgs option" where
  "val_RequestVoteArgs v = do {
     t \<leftarrow> val_int_field v 0; c \<leftarrow> val_int_field v 1; i \<leftarrow> val_int_field v 2; lt \<leftarrow> val_int_field v 3;
     Some \<lparr>rv_Term = t, CandidateId = c, LastLogIndex = i, LastLogTerm = lt\<rparr> }"

definition val_AppendEntriesArgs :: "goval \<Rightarrow> AppendEntriesArgs option" where
  "val_AppendEntriesArgs v = do {
     t \<leftarrow> val_int_field v 0; l \<leftarrow> val_int_field v 1; p \<leftarrow> val_int_field v 2; pt \<leftarrow> val_int_field v 3;
     es \<leftarrow> val_field v 4; entries \<leftarrow> val_Entries es; c \<leftarrow> val_int_field v 5;
     Some \<lparr>ae_Term = t, LeaderId = l, PrevLogIndex = p, PrevLogTerm = pt, ae_Entries = entries, LeaderCommit = c\<rparr> }"

definition val_InstallSnapshotArgs :: "goval \<Rightarrow> InstallSnapshotArgs option" where
  "val_InstallSnapshotArgs v = do {
     t \<leftarrow> val_int_field v 0; l \<leftarrow> val_int_field v 1; i \<leftarrow> val_int_field v 2; it \<leftarrow> val_int_field v 3;
     d \<leftarrow> val_field v 4; b \<leftarrow> val_bytes d;
     Some \<lparr>is_Term = t, is_LeaderId = l, LastIncludeIndex = i, LastIncludeTerm = it, Data = b\<rparr> }"

lemma those_val_Entry: "those (map val_Entry (map Entry_val es)) = Some es"
  by (induction es) (simp_all add: val_Entry_val)

lemma struct_vals:
  "val_RequestVoteArgs (RequestVoteArgs_val a) = Some a"
  "val_AppendEntriesArgs (AppendEntriesArgs_val b) = Some b"
  "val_InstallSnapshotArgs (InstallSnapshotArgs_val c) = Some c"
  using those_val_Entry [of "ae_Entries b"]
  by (simp_all add: RequestVoteArgs_val_def AppendEntriesArgs_val_def InstallSnapshotArgs_val_def val_RequestVoteArgs_def
      val_AppendEntriesArgs_def val_InstallSnapshotArgs_def val_int_field_def)

lemma struct_vals_typed:
  "has_type RequestVoteArgs_type (RequestVoteArgs_val a)" "has_type RequestVoteReply_type (RequestVoteReply_val b)"
  "has_type AppendEntriesArgs_type (AppendEntriesArgs_val c)" "has_type AppendEntriesReply_type (AppendEntriesReply_val d)"
  "has_type InstallSnapshotArgs_type (InstallSnapshotArgs_val e)" "has_type InstallSnapshotReply_type (InstallSnapshotReply_val f)"
  by (simp_all add: rpc_vals_typed) (simp_all add: RequestVoteReply_type_def RequestVoteReply_val_def InstallSnapshotArgs_type_def
      InstallSnapshotArgs_val_def InstallSnapshotReply_type_def InstallSnapshotReply_val_def)

section \<open>The service\<close>

text \<open>The exported methods of \<open>*Raft\<close> in the order of \<open>reflect\<close>, by name. Each takes the receiver
  first.\<close>

definition raft_methods :: "Method list" where
  "raft_methods =
     [\<lparr>mname = ''AppendEntries'', PkgPath = [], Ins = [InOther, InPtr AppendEntriesArgs_type, InPtr AppendEntriesReply_type], NumOut = 0\<rparr>,
      \<lparr>mname = ''CondInstallSnapshot'', PkgPath = [], Ins = [InOther, InOther, InOther, InOther], NumOut = 1\<rparr>,
      \<lparr>mname = ''GetState'', PkgPath = [], Ins = [InOther], NumOut = 2\<rparr>,
      \<lparr>mname = ''InstallSnapShot'', PkgPath = [], Ins = [InOther, InPtr InstallSnapshotArgs_type, InPtr InstallSnapshotReply_type], NumOut = 0\<rparr>,
      \<lparr>mname = ''Kill'', PkgPath = [], Ins = [InOther], NumOut = 0\<rparr>,
      \<lparr>mname = ''RequestVote'', PkgPath = [], Ins = [InOther, InPtr RequestVoteArgs_type, InPtr RequestVoteReply_type], NumOut = 0\<rparr>,
      \<lparr>mname = ''Snapshot'', PkgPath = [], Ins = [InOther, InOther, InOther], NumOut = 0\<rparr>,
      \<lparr>mname = ''Start'', PkgPath = [], Ins = [InOther, InOther], NumOut = 3\<rparr>]"

definition raft_server :: "nat \<Rightarrow> nat Server" where
  "raft_server i = AddService (MakeService ''Raft'' i raft_methods) MakeServer"

section \<open>The handlers\<close>

text \<open>What the handlers of a cluster work on: the servers, the reading of clock and random numbers the
  next handler makes, and what they have set going: goroutines and wake-ups, messages to services.\<close>

record RaftWorld =
  nodes :: "Raft list"
  reading :: env
  started :: "(nat \<times> action) list"
  outbox :: "(nat \<times> ApplyMsg) list"

definition raft_handlers :: "(nat, RaftWorld) handlers" where
  "raft_handlers i m a zero w =
     (if i < length (nodes w) then
        if m = ''RequestVote'' then do {
          args \<leftarrow> val_RequestVoteArgs a;
          (r, rf) \<leftarrow> RequestVote args (reading w) (nodes w ! i);
          Some (RequestVoteReply_val r, w\<lparr>nodes := (nodes w)[i := rf]\<rparr>) }
        else if m = ''AppendEntries'' then do {
          args \<leftarrow> val_AppendEntriesArgs a;
          (r, rf, acts) \<leftarrow> AppendEntries args (reading w) (nodes w ! i);
          Some (AppendEntriesReply_val r, w\<lparr>nodes := (nodes w)[i := rf], started := started w @ map (Pair i) acts\<rparr>) }
        else if m = ''InstallSnapShot'' then do {
          args \<leftarrow> val_InstallSnapshotArgs a;
          (r, rf, msg) \<leftarrow> InstallSnapShot args (reading w) (nodes w ! i);
          Some (InstallSnapshotReply_val r,
            w\<lparr>nodes := (nodes w)[i := rf], outbox := outbox w @ (case msg of None \<Rightarrow> [] | Some x \<Rightarrow> [(i, x)])\<rparr>) }
        else None
      else None)"

section \<open>The senders\<close>

text \<open>Each is a call through the end of the peer, with a pointer to the caller's reply.\<close>

definition sendRequestVote :: "string list \<Rightarrow> nat \<Rightarrow> RequestVoteArgs \<Rightarrow> RequestVoteReply \<Rightarrow> nat rpc_event" where
  "sendRequestVote peer_ends server a r =
     RCall (peer_ends ! server) ''Raft.RequestVote'' RequestVoteArgs_type (RequestVoteArgs_val a) RequestVoteReply_type (RequestVoteReply_val r)"

definition sendAppendEntries :: "string list \<Rightarrow> nat \<Rightarrow> AppendEntriesArgs \<Rightarrow> AppendEntriesReply \<Rightarrow> nat rpc_event" where
  "sendAppendEntries peer_ends server a r =
     RCall (peer_ends ! server) ''Raft.AppendEntries'' AppendEntriesArgs_type (AppendEntriesArgs_val a) AppendEntriesReply_type (AppendEntriesReply_val r)"

definition sendSnapShot :: "string list \<Rightarrow> nat \<Rightarrow> InstallSnapshotArgs \<Rightarrow> InstallSnapshotReply \<Rightarrow> nat rpc_event" where
  "sendSnapShot peer_ends server a r =
     RCall (peer_ends ! server) ''Raft.InstallSnapShot'' InstallSnapshotArgs_type (InstallSnapshotArgs_val a) InstallSnapshotReply_type (InstallSnapshotReply_val r)"

text \<open>The reply variable of a caller, \<open>XReply{}\<close>.\<close>

lemma zero_replies:
  "gozero RequestVoteReply_type = RequestVoteReply_val \<lparr>rvr_Term = 0, VoteGranted = False\<rparr>"
  "gozero AppendEntriesReply_type = AppendEntriesReply_val zeroAppendEntriesReply"
  "gozero InstallSnapshotReply_type = InstallSnapshotReply_val \<lparr>isr_Term = 0\<rparr>"
  by (simp_all add: RequestVoteReply_type_def RequestVoteReply_val_def AppendEntriesReply_type_def AppendEntriesReply_val_def
      zeroAppendEntriesReply_def InstallSnapshotReply_type_def InstallSnapshotReply_val_def)

end
