(* ===== verification/Labrpc_Properties.thy ===== *)
theory Labrpc_Properties
  imports Rpc_Messages Raft_Wire Node_Properties
begin

text \<open>
  What \<open>labrpc\<close> promises its callers, as theorems about the calls of \<open>Labrpc_Calls\<close>, with the handlers of
  the Raft servers in the witnesses.
\<close>

section \<open>One call, start to end\<close>






text \<open>A network with one Raft server connected, and the vote it is asked for.\<close>

definition wire_world :: RaftWorld where
  "wire_world = \<lparr>nodes = (case boot three early of Some s \<Rightarrow> servers s | None \<Rightarrow> []), reading = early, started = [], outbox = []\<rparr>"

definition connect_1 :: "nat rpc_event list" where
  "connect_1 = [ROp (OpNewServer (raft_server 1)), ROp (OpAddServer 1 0), ROp (OpMakeEnd ''e''), ROp (OpConnect ''e'' 1), ROp (OpEnable ''e'' True)]"

definition rpc_boot :: "(nat, RaftWorld) Rpc" where
  "rpc_boot = \<lparr>net = MakeNetwork, world = wire_world, calls = [], ran = []\<rparr>"

definition ask :: RequestVoteArgs where
  "ask = \<lparr>rv_Term = 1, CandidateId = 0, LastLogIndex = 0, LastLogTerm = 0\<rparr>"

definition granted :: RequestVoteReply where
  "granted = \<lparr>rvr_Term = 1, VoteGranted = True\<rparr>"

definition ready :: "(nat, RaftWorld) Rpc" where
  "ready = rpc_boot\<lparr>net := MakeNetwork\<lparr>ends := [''e''], enabled := (\<lambda>e. False)(''e'' := True), connections := [''e'' \<mapsto> 1],
     rpc_servers := [1 \<mapsto> 0], store := [raft_server 1]\<rparr>\<rparr>"

lemma ready_run: "rpc_run h size_of connect_1 rpc_boot = Some ready"
  by (simp add: connect_1_def rpc_boot_def ready_def MakeNetwork_def new_server_def AddServer_def MakeEnd_def Connect_def Enable_def)

lemma ready_reach: "reach (rpc_initial wire_world) (rpc_step h size_of) (\<lambda>e. True) ready"
proof (rule rpc_run_reach [OF _ ready_run])
  show "reach (rpc_initial wire_world) (rpc_step h size_of) (\<lambda>e. True) rpc_boot"
    by (rule reach_init) (simp add: rpc_initial_def rpc_boot_def)
qed (simp add: connect_1_def)





section \<open>Every interleaving\<close>

text \<open>C29: In every interleaving of calls with each other and with operations on the network, a call's
  handler runs at most once, and a call that has returned true did run its handler and left in the
  caller's variable what that handler replied.\<close>

theorem calls_run_once:
  assumes "reach (rpc_initial w) (rpc_step h size_of) (\<lambda>e. True) s"
  shows "distinct (map fst (ran s)) \<and>
    (\<forall>k < length (calls s). phase (calls s ! k) = Returned True \<longrightarrow>
       (\<exists>r d rest. (k, r) \<in> set (ran s) \<and> ok r \<and> Decode (reply r) (replyType (calls s ! k)) d = Some (replyVar (calls s ! k), rest)))"
  using rc.inv_reach [OF assms] by (force simp: rpc_ok_def call_ok_def)

definition ask_run :: "nat rpc_event list" where
  "ask_run = [sendRequestVote [''d'', ''e''] 1 ask \<lparr>rvr_Term = 0, VoteGranted = False\<rparr>, RAccept 0, RStart 0 5, RHandle 0, RGot 0, RFinish 0 7 9, RReturn 0]"

lemma ask_run_result:
  "case rpc_run raft_handlers length ask_run ready of None \<Rightarrow> False | Some s \<Rightarrow>
     map phase (calls s) = [Returned True] \<and> map replyVar (calls s) = [RequestVoteReply_val granted]"
  by code_simp

lemma calls_run_once_witness:
  "\<exists>s :: (nat, RaftWorld) Rpc. map phase (calls s) = [Returned True] \<and> distinct (map fst (ran s)) \<and>
    (\<forall>k < length (calls s). phase (calls s ! k) = Returned True \<longrightarrow>
       (\<exists>r d rest. (k, r) \<in> set (ran s) \<and> ok r \<and> Decode (reply r) (replyType (calls s ! k)) d = Some (replyVar (calls s ! k), rest)))"
proof -
  obtain s where s: "rpc_run raft_handlers length ask_run ready = Some s" "map phase (calls s) = [Returned True]"
    using ask_run_result by (auto split: option.splits)
  have "reach (rpc_initial wire_world) (rpc_step raft_handlers length) (\<lambda>e. True) s"
    by (rule rpc_run_reach [OF ready_reach s(1)]) (simp add: list_all_iff)
  then show ?thesis by (intro exI [of _ s] conjI [OF s(2)] calls_run_once)
qed






text \<open>C31: Seen from the servers and the callers, the calls with all their goroutines, timers and checks are
  no more than messages: a request is executed once or lost, and its reply delivered once or lost.\<close>

theorem calls_refine_messages:
  assumes "reach (rpc_initial w) (rpc_step h size_of) (\<lambda>e. True) s"
  shows "(link_step (executes h))\<^sup>*\<^sup>* \<lparr>state_of = w, messages = [], delivered = {}\<rparr> (abs_rpc s)"
  using rm.reach_abstr [OF assms] by (simp add: link_initial_def)

lemma calls_refine_messages_witness:
  "\<exists>s :: (nat, RaftWorld) Rpc. map phase (calls s) = [Returned True] \<and>
     (link_step (executes raft_handlers))\<^sup>*\<^sup>* \<lparr>state_of = wire_world, messages = [], delivered = {}\<rparr> (abs_rpc s)"
proof -
  obtain s where s: "rpc_run raft_handlers length ask_run ready = Some s" "map phase (calls s) = [Returned True]"
    using ask_run_result by (auto split: option.splits)
  have "reach (rpc_initial wire_world) (rpc_step raft_handlers length) (\<lambda>e. True) s"
    by (rule rpc_run_reach [OF ready_reach s(1)]) (simp add: list_all_iff)
  then show ?thesis by (intro exI [of _ s] conjI [OF s(2)] calls_refine_messages)
qed

text \<open>C32: The network's statistics count the requests it has accepted modulo \<open>2 ^ 32\<close>, read as a signed
  number: below \<open>2 ^ 31\<close> requests \<open>GetTotalCount\<close> is their number, after that it turns negative.\<close>

theorem total_count_wraps:
  assumes "reach (rpc_initial w) (rpc_step h size_of) (\<lambda>e. True) s"
  shows "let n = length (filter counted (calls s)) in
    GetTotalCount (net s) = (int n + 2 ^ 31) mod 2 ^ 32 - 2 ^ 31 \<and> (n < 2 ^ 31 \<longrightarrow> GetTotalCount (net s) = int n)"
proof -
  have "rpc_count (net s) = of_nat (length (filter counted (calls s)))" using rc.inv_reach [OF assms] by (simp add: rpc_ok_def)
  then have "GetTotalCount (net s) = signed_take_bit 31 (int (length (filter counted (calls s))))"
    by (simp add: GetTotalCount_def signed_of_nat)
  then have "GetTotalCount (net s) = (int (length (filter counted (calls s))) + 2 ^ 31) mod 2 ^ 32 - 2 ^ 31"
    by (simp add: signed_take_bit_eq_take_bit_shift take_bit_eq_mod)
  then show ?thesis unfolding Let_def by (intro conjI impI) (simp_all add: mod_pos_pos_trivial)
qed

lemma total_count_wraps_witness:
  "\<exists>s :: (nat, RaftWorld) Rpc. map phase (calls s) = [Returned True] \<and> (let n = length (filter counted (calls s)) in
    GetTotalCount (net s) = (int n + 2 ^ 31) mod 2 ^ 32 - 2 ^ 31 \<and> (n < 2 ^ 31 \<longrightarrow> GetTotalCount (net s) = int n))"
proof -
  obtain s where s: "rpc_run raft_handlers length ask_run ready = Some s" "map phase (calls s) = [Returned True]"
    using ask_run_result by (auto split: option.splits)
  have "reach (rpc_initial wire_world) (rpc_step raft_handlers length) (\<lambda>e. True) s"
    by (rule rpc_run_reach [OF ready_reach s(1)]) (simp add: list_all_iff)
  then show ?thesis by (intro exI [of _ s] conjI [OF s(2)] total_count_wraps)
qed

section \<open>The Raft service\<close>



end
