(* ===== verification/Config.thy ===== *)
theory Config
  imports Raft_Wire
begin

text \<open>
  \<open>raft/config.go\<close>, the harness that runs a cluster: it builds the network and the servers, cuts and
  restores connections, crashes and restarts servers, and checks what they report. Rafts and
  persisters are pointers there, and a crashed instance goes on using its own; so both are addresses
  into stores, and \<open>pers_of\<close> tells which persister each instance was made with. Random strings,
  clock readings and what \<open>GetState\<close> and the services report come in as arguments.
\<close>

section \<open>Loops\<close>

fun each :: "(nat \<Rightarrow> 'a \<Rightarrow> 'a outcome) \<Rightarrow> nat list \<Rightarrow> 'a \<Rightarrow> 'a outcome" where
  "each f [] s = Done s"
| "each f (j # js) s = and_then (f j s) (each f js)"

section \<open>The state\<close>

text \<open>The fields of the struct, but for the mutex, the test object and the clock readings \<open>start\<close> and
  \<open>t0\<close>; then the two stores.\<close>

record config =
  cfg_net :: "nat Network"
  cfg_n :: nat
  rafts :: "nat option list"
  applyErr :: "string list"
  connected :: "bool list"
  cfg_saved :: "nat option list"
  endnames :: "string list option list"
  logs :: "(int \<Rightarrow> iface option) list"
  rpcs0 :: int
  cmds0 :: int
  bytes0 :: int
  maxIndex :: int
  maxIndex0 :: int
  raft_objs :: "Raft list"
  pers_of :: "nat list"
  pers :: "Persister list"

text \<open>A new \<open>Persister\<close> becomes the saved one of server \<open>i\<close>.\<close>

definition new_saved :: "nat \<Rightarrow> Persister \<Rightarrow> config \<Rightarrow> config" where
  "new_saved i p cfg = cfg\<lparr>pers := pers cfg @ [p], cfg_saved := (cfg_saved cfg)[i := Some (length (pers cfg))]\<rparr>"

section \<open>Connections\<close>

definition enable_end :: "bool \<Rightarrow> string \<Rightarrow> config \<Rightarrow> config" where
  "enable_end b e cfg = cfg\<lparr>cfg_net := Enable e b (cfg_net cfg)\<rparr>"

text \<open>The end that leads from server \<open>i\<close> to server \<open>j\<close>; an index into a nil slice panics.\<close>

definition end_name :: "config \<Rightarrow> nat \<Rightarrow> nat \<Rightarrow> string outcome" where
  "end_name cfg i j =
     (case endnames cfg ! i of
        Some ns \<Rightarrow> if j < length ns then Done (ns ! j) else Panic
      | None \<Rightarrow> Panic)"

definition connect_out :: "nat \<Rightarrow> nat \<Rightarrow> config \<Rightarrow> config outcome" where
  "connect_out i j cfg = (if connected cfg ! j then and_then (end_name cfg i j) (\<lambda>e. Done (enable_end True e cfg)) else Done cfg)"

definition connect_in :: "nat \<Rightarrow> nat \<Rightarrow> config \<Rightarrow> config outcome" where
  "connect_in i j cfg = (if connected cfg ! j then and_then (end_name cfg j i) (\<lambda>e. Done (enable_end True e cfg)) else Done cfg)"

definition connect :: "nat \<Rightarrow> config \<Rightarrow> config outcome" where
  "connect i cfg =
     (if i < cfg_n cfg then
        let cfg = cfg\<lparr>connected := (connected cfg)[i := True]\<rparr>
        in and_then (each (connect_out i) [0..<cfg_n cfg] cfg) (each (connect_in i) [0..<cfg_n cfg])
      else Panic)"

definition disconnect_out :: "nat \<Rightarrow> nat \<Rightarrow> config \<Rightarrow> config outcome" where
  "disconnect_out i j cfg =
     (if endnames cfg ! i \<noteq> None then and_then (end_name cfg i j) (\<lambda>e. Done (enable_end False e cfg)) else Done cfg)"

definition disconnect_in :: "nat \<Rightarrow> nat \<Rightarrow> config \<Rightarrow> config outcome" where
  "disconnect_in i j cfg =
     (if endnames cfg ! j \<noteq> None then and_then (end_name cfg j i) (\<lambda>e. Done (enable_end False e cfg)) else Done cfg)"

definition disconnect :: "nat \<Rightarrow> config \<Rightarrow> config outcome" where
  "disconnect i cfg =
     (if i < cfg_n cfg then
        let cfg = cfg\<lparr>connected := (connected cfg)[i := False]\<rparr>
        in and_then (each (disconnect_out i) [0..<cfg_n cfg] cfg) (each (disconnect_in i) [0..<cfg_n cfg])
      else Panic)"

section \<open>Crash and restart\<close>

definition crash1 :: "nat \<Rightarrow> config \<Rightarrow> config outcome" where
  "crash1 i cfg = and_then (disconnect i cfg) (\<lambda>cfg.
     let cfg = cfg\<lparr>cfg_net := DeleteServer i (cfg_net cfg)\<rparr>;
         cfg = (case cfg_saved cfg ! i of Some a \<Rightarrow> new_saved i (Copy (pers cfg ! a)) cfg | None \<Rightarrow> cfg);
         cfg = (case rafts cfg ! i of
                  Some r \<Rightarrow> cfg\<lparr>raft_objs := (raft_objs cfg)[r := Kill (raft_objs cfg ! r)], rafts := (rafts cfg)[i := None]\<rparr>
                | None \<Rightarrow> cfg);
         cfg = (case cfg_saved cfg ! i of
                  Some a \<Rightarrow>
                    let raftlog = ReadRaftState (pers cfg ! a);
                        snap = ReadSnapshot (pers cfg ! a)
                    in new_saved i (SaveStateAndSnapshot raftlog snap \<lparr>raftstate = [], snapshot = []\<rparr>) cfg
                | None \<Rightarrow> cfg)
     in Done cfg)"

text \<open>\<open>start1\<close> with the names \<open>randstring\<close> yields. The first loop makes and connects the ends.\<close>

definition make_end :: "string list \<Rightarrow> nat \<Rightarrow> config \<Rightarrow> config outcome" where
  "make_end names j cfg = and_then (MakeEnd (names ! j) (cfg_net cfg)) (\<lambda>rn. Done (cfg\<lparr>cfg_net := Connect (names ! j) j rn\<rparr>))"

definition start1 :: "nat \<Rightarrow> string list \<Rightarrow> env \<Rightarrow> config \<Rightarrow> config outcome" where
  "start1 i names ev cfg = and_then (crash1 i cfg) (\<lambda>cfg.
     let cfg = cfg\<lparr>endnames := (endnames cfg)[i := Some names]\<rparr>
     in and_then (each (make_end names) [0..<cfg_n cfg] cfg) (\<lambda>cfg.
     let cfg = new_saved i (case cfg_saved cfg ! i of Some a \<Rightarrow> Copy (pers cfg ! a) | None \<Rightarrow> MakePersister) cfg;
         a = length (pers cfg) - 1
     in case Make names i (pers cfg ! a) ev of
          None \<Rightarrow> Fatal ''failed to read persist''
        | Some rf \<Rightarrow>
            let r = length (raft_objs cfg);
                cfg = cfg\<lparr>raft_objs := raft_objs cfg @ [rf], pers_of := pers_of cfg @ [a], rafts := (rafts cfg)[i := Some r]\<rparr>;
                svc = MakeService ''Raft'' r raft_methods;
                srv = AddService svc MakeServer;
                (b, rn) = new_server srv (cfg_net cfg)
            in Done (cfg\<lparr>cfg_net := AddServer i b rn\<rparr>)))"

text \<open>\<open>make_config\<close>: the struct, then \<open>start1\<close> and \<open>connect\<close> for every server.\<close>

definition setunreliable :: "bool \<Rightarrow> config \<Rightarrow> config" where
  "setunreliable unrel cfg = cfg\<lparr>cfg_net := Reliable (\<not> unrel) (cfg_net cfg)\<rparr>"

definition setlongreordering :: "bool \<Rightarrow> config \<Rightarrow> config" where
  "setlongreordering longrel cfg = cfg\<lparr>cfg_net := LongReordering longrel (cfg_net cfg)\<rparr>"

definition blank :: "nat \<Rightarrow> config" where
  "blank n = \<lparr>cfg_net = MakeNetwork, cfg_n = n, rafts = replicate n None, applyErr = replicate n [],
     connected = replicate n False, cfg_saved = replicate n None, endnames = replicate n None, logs = replicate n Map.empty,
     rpcs0 = 0, cmds0 = 0, bytes0 = 0, maxIndex = 0, maxIndex0 = 0, raft_objs = [], pers_of = [], pers = []\<rparr>"

definition make_config :: "nat \<Rightarrow> bool \<Rightarrow> (nat \<Rightarrow> string list) \<Rightarrow> (nat \<Rightarrow> env) \<Rightarrow> config outcome" where
  "make_config n unreliable names evs =
     (let cfg = setunreliable unreliable (blank n);
          cfg = cfg\<lparr>cfg_net := LongDelays True (cfg_net cfg)\<rparr>
      in and_then (each (\<lambda>i. start1 i (names i) (evs i)) [0..<n] cfg) (each connect [0..<n]))"

fun kill_raft :: "nat \<Rightarrow> config \<Rightarrow> config" where
  "kill_raft i cfg =
     (case rafts cfg ! i of Some r \<Rightarrow> cfg\<lparr>raft_objs := (raft_objs cfg)[r := Kill (raft_objs cfg ! r)]\<rparr> | None \<Rightarrow> cfg)"

text \<open>Two minutes of real time per test; \<open>failed\<close> is \<open>t.Failed()\<close>.\<close>

definition checkTimeout :: "bool \<Rightarrow> int \<Rightarrow> unit outcome" where
  "checkTimeout has_failed seconds = (if \<not> has_failed \<and> seconds > 120 then Fatal ''test took longer than 120 seconds'' else Done ())"

definition cleanup :: "bool \<Rightarrow> int \<Rightarrow> config \<Rightarrow> config outcome" where
  "cleanup has_failed seconds cfg = (
     let cfg = fold kill_raft [0..<length (rafts cfg)] cfg
     in and_then (Labrpc.Cleanup (cfg_net cfg)) (\<lambda>rn.
        and_then (checkTimeout has_failed seconds) (\<lambda>_. Done (cfg\<lparr>cfg_net := rn\<rparr>))))"

section \<open>Statistics\<close>

definition rpcCount :: "nat \<Rightarrow> config \<Rightarrow> int outcome" where
  "rpcCount server cfg = GetCount server (cfg_net cfg)"

definition rpcTotal :: "config \<Rightarrow> int" where
  "rpcTotal cfg = GetTotalCount (cfg_net cfg)"

definition bytesTotal :: "config \<Rightarrow> int" where
  "bytesTotal cfg = GetTotalBytes (cfg_net cfg)"

definition begin_test :: "config \<Rightarrow> config" where
  "begin_test cfg = cfg\<lparr>rpcs0 := rpcTotal cfg, bytes0 := bytesTotal cfg, cmds0 := 0, maxIndex0 := maxIndex cfg\<rparr>"

text \<open>What \<open>end\<close> prints of a test that passed: the numbers of peers, RPCs, bytes and commands.\<close>

definition end_test :: "bool \<Rightarrow> int \<Rightarrow> config \<Rightarrow> (nat \<times> int \<times> int \<times> int) option outcome" where
  "end_test has_failed seconds cfg = and_then (checkTimeout has_failed seconds) (\<lambda>_.
     Done (if \<not> has_failed
           then Some (cfg_n cfg, rpcTotal cfg - rpcs0 cfg, bytesTotal cfg - bytes0 cfg, maxIndex cfg - maxIndex0 cfg)
           else None))"

fun LogSize_loop :: "config \<Rightarrow> nat list \<Rightarrow> nat \<Rightarrow> nat outcome" where
  "LogSize_loop cfg [] logsize = Done logsize"
| "LogSize_loop cfg (i # is) logsize =
     (case cfg_saved cfg ! i of
        Some a \<Rightarrow> let k = RaftStateSize (pers cfg ! a) in LogSize_loop cfg is (if k > logsize then k else logsize)
      | None \<Rightarrow> Panic)"

definition LogSize :: "config \<Rightarrow> nat outcome" where
  "LogSize cfg = LogSize_loop cfg [0..<cfg_n cfg] 0"

end
