(* ===== verification/Config_Checks.thy ===== *)
theory Config_Checks
  imports Config
begin

text \<open>
  The checks of \<open>raft/config.go\<close>: what a server's service compares of the messages it receives (with
  and without snapshots), and what a test asks about leaders, terms and committed commands. A
  failed check ends the test (\<open>Fatalf\<close>).
\<close>

section \<open>Messages received\<close>

datatype apply_error = Mismatch int nat iface nat iface | OutOfOrder nat int

fun checkLogs_loop :: "nat \<Rightarrow> ApplyMsg \<Rightarrow> config \<Rightarrow> nat list \<Rightarrow> apply_error option \<Rightarrow> apply_error option" where
  "checkLogs_loop i m cfg [] err = err"
| "checkLogs_loop i m cfg (j # js) err =
     checkLogs_loop i m cfg js
       (case (logs cfg ! j) (CommandIndex m) of
          Some old \<Rightarrow> if old \<noteq> am_Command m then Some (Mismatch (CommandIndex m) i (am_Command m) j old) else err
        | None \<Rightarrow> err)"

definition checkLogs :: "nat \<Rightarrow> ApplyMsg \<Rightarrow> config \<Rightarrow> apply_error option \<times> bool \<times> config" where
  "checkLogs i m cfg =
     (let v = am_Command m;
          err = checkLogs_loop i m cfg [0..<length (logs cfg)] None;
          prevok = (logs cfg ! i) (CommandIndex m - 1) \<noteq> None;
          cfg = cfg\<lparr>logs := (logs cfg)[i := (logs cfg ! i)(CommandIndex m \<mapsto> v)]\<rparr>;
          cfg = (if CommandIndex m > maxIndex cfg then cfg\<lparr>maxIndex := CommandIndex m\<rparr> else cfg)
      in (err, prevok, cfg))"

text \<open>On an error both loops print every Raft, which panics at one that has crashed, and exit.\<close>

definition report_error :: "config \<Rightarrow> 'a outcome" where
  "report_error cfg = (if None \<in> set (rafts cfg) then Panic else Fatal ''apply error'')"

text \<open>\<open>applier\<close>, one message.\<close>

definition applier :: "nat \<Rightarrow> ApplyMsg \<Rightarrow> config \<Rightarrow> config outcome" where
  "applier i m cfg =
     (if \<not> CommandValid m then Done cfg
      else
        let (err, prevok, cfg) = checkLogs i m cfg;
            err = (if CommandIndex m > 1 \<and> \<not> prevok then Some (OutOfOrder i (CommandIndex m)) else err)
        in if err \<noteq> None then report_error cfg else Done cfg)"

text \<open>A command handed to \<open>Encode\<close>, whose check panics at nil.\<close>

fun command_val :: "iface \<Rightarrow> goval outcome" where
  "command_val INil = Panic"
| "command_val (IInt i) = Done (VInt i)"
| "command_val (IString s) = Done (VString s)"

definition SnapShotInterval :: int where
  "SnapShotInterval = 10"

text \<open>A critical section of the instance \<open>r\<close> that leaves it as \<open>rf\<close>; what it persists goes to its own
  persister.\<close>

definition raft_write :: "nat \<Rightarrow> Raft \<Rightarrow> config \<Rightarrow> config" where
  "raft_write r rf cfg = cfg\<lparr>raft_objs := (raft_objs cfg)[r := rf], pers := (pers cfg)[pers_of cfg ! r := persister rf]\<rparr>"

text \<open>\<open>applierSnap\<close>, one message; the number is its variable \<open>lastApplied\<close>.\<close>

definition applierSnap :: "nat \<Rightarrow> ApplyMsg \<Rightarrow> config \<times> int \<Rightarrow> (config \<times> int) outcome" where
  "applierSnap i m = (\<lambda>(cfg, last).
     if SnapshotValid m then
       if CondInstallSnapshot (SnapshotTerm m) (SnapshotIndex m) (am_Snapshot m) then
         (case Decode (am_Snapshot m) TInt (VInt 0) of
            Some (VInt v, _) \<Rightarrow> Done (cfg\<lparr>logs := (logs cfg)[i := [SnapshotIndex m \<mapsto> IInt v]]\<rparr>, SnapshotIndex m)
          | _ \<Rightarrow> Fatal ''decode error'')
       else Done (cfg, last)
     else if CommandValid m \<and> CommandIndex m > last then
       let (err, prevok, cfg) = checkLogs i m cfg;
           err = (if CommandIndex m > 1 \<and> \<not> prevok then Some (OutOfOrder i (CommandIndex m)) else err)
       in if err \<noteq> None then report_error cfg
          else
            let last = CommandIndex m
            in if (CommandIndex m + 1) mod SnapShotInterval = 0 then
                 and_then (command_val (am_Command m)) (\<lambda>v.
                 let (w, _) = Encode [] v
                 in case rafts cfg ! i of
                      None \<Rightarrow> Panic
                    | Some r \<Rightarrow>
                        and_then (or_panic (Snapshot (CommandIndex m) w (raft_objs cfg ! r))) (\<lambda>rf.
                        Done (raft_write r rf cfg, last)))
               else Done (cfg, last)
     else Done (cfg, last))"

section \<open>Leaders and terms\<close>

text \<open>\<open>st i\<close> is what \<open>GetState\<close> of server \<open>i\<close> returns when the loop gets there; asking a crashed one panics. A Go map from terms to
  servers is an association list; the order in which \<open>range\<close> visits it does not matter.\<close>

fun add_leader :: "int \<Rightarrow> nat \<Rightarrow> (int \<times> nat list) list \<Rightarrow> (int \<times> nat list) list" where
  "add_leader t i [] = [(t, [i])]"
| "add_leader t i ((t', is) # ls) = (if t' = t then (t', is @ [i]) # ls else (t', is) # add_leader t i ls)"

fun collect_leaders :: "config \<Rightarrow> (nat \<Rightarrow> int \<times> bool) \<Rightarrow> nat list \<Rightarrow> (int \<times> nat list) list \<Rightarrow> (int \<times> nat list) list outcome" where
  "collect_leaders cfg st [] ls = Done ls"
| "collect_leaders cfg st (i # is) ls =
     (if connected cfg ! i then
        if rafts cfg ! i = None then Panic
        else let (term, leader) = st i in collect_leaders cfg st is (if leader then add_leader term i ls else ls)
      else collect_leaders cfg st is ls)"

fun last_term :: "(int \<times> nat list) list \<Rightarrow> int \<Rightarrow> int outcome" where
  "last_term [] lastTermWithLeader = Done lastTermWithLeader"
| "last_term ((term, is) # ls) lastTermWithLeader =
     (if length is > 1 then Fatal ''more than one leader in a term''
      else last_term ls (if term > lastTermWithLeader then term else lastTermWithLeader))"

text \<open>One of the ten attempts; None if there is no leader yet.\<close>

definition checkOneLeader_try :: "config \<Rightarrow> (nat \<Rightarrow> int \<times> bool) \<Rightarrow> nat option outcome" where
  "checkOneLeader_try cfg st =
     and_then (collect_leaders cfg st [0..<cfg_n cfg] []) (\<lambda>leaders.
       and_then (last_term leaders (-1)) (\<lambda>t.
         if leaders \<noteq> [] then
           (case map_of leaders t of Some (i # _) \<Rightarrow> Done (Some i) | _ \<Rightarrow> Panic)
         else Done None))"

fun checkOneLeader_loop :: "config \<Rightarrow> (nat \<Rightarrow> nat \<Rightarrow> int \<times> bool) \<Rightarrow> nat list \<Rightarrow> nat outcome" where
  "checkOneLeader_loop cfg sts [] = Fatal ''expected one leader, got none''"
| "checkOneLeader_loop cfg sts (k # ks) =
     and_then (checkOneLeader_try cfg (sts k)) (\<lambda>r.
       case r of Some i \<Rightarrow> Done i | None \<Rightarrow> checkOneLeader_loop cfg sts ks)"

definition checkOneLeader :: "config \<Rightarrow> (nat \<Rightarrow> nat \<Rightarrow> int \<times> bool) \<Rightarrow> nat outcome" where
  "checkOneLeader cfg sts = checkOneLeader_loop cfg sts [0..<10]"

fun checkTerms_loop :: "config \<Rightarrow> (nat \<Rightarrow> int \<times> bool) \<Rightarrow> nat list \<Rightarrow> int \<Rightarrow> int outcome" where
  "checkTerms_loop cfg st [] term = Done term"
| "checkTerms_loop cfg st (i # is) term =
     (if connected cfg ! i then
        if rafts cfg ! i = None then Panic
        else let (xterm, _) = st i
        in if term = -1 then checkTerms_loop cfg st is xterm
           else if term \<noteq> xterm then Fatal ''servers disagree on term''
           else checkTerms_loop cfg st is term
      else checkTerms_loop cfg st is term)"

definition checkTerms :: "config \<Rightarrow> (nat \<Rightarrow> int \<times> bool) \<Rightarrow> int outcome" where
  "checkTerms cfg st = checkTerms_loop cfg st [0..<cfg_n cfg] (-1)"

definition checkNoLeader :: "config \<Rightarrow> (nat \<Rightarrow> int \<times> bool) \<Rightarrow> unit outcome" where
  "checkNoLeader cfg st =
     each (\<lambda>i u.
       if connected cfg ! i then
         if rafts cfg ! i = None then Panic
         else let (_, is_leader) = st i in if is_leader then Fatal ''expected no leader'' else Done u
       else Done u) [0..<cfg_n cfg] ()"

section \<open>Committed commands\<close>

fun nCommitted_loop :: "int \<Rightarrow> config \<Rightarrow> nat list \<Rightarrow> nat \<times> iface \<Rightarrow> (nat \<times> iface) outcome" where
  "nCommitted_loop index cfg [] acc = Done acc"
| "nCommitted_loop index cfg (i # is) (count, cmd) =
     (if applyErr cfg ! i \<noteq> [] then Fatal (applyErr cfg ! i)
      else case (logs cfg ! i) index of
             Some cmd1 \<Rightarrow>
               if count > 0 \<and> cmd \<noteq> cmd1 then Fatal ''committed values do not match''
               else nCommitted_loop index cfg is (count + 1, cmd1)
           | None \<Rightarrow> nCommitted_loop index cfg is (count, cmd))"

definition nCommitted :: "int \<Rightarrow> config \<Rightarrow> (nat \<times> iface) outcome" where
  "nCommitted index cfg = nCommitted_loop index cfg [0..<length (rafts cfg)] (0, INil)"

text \<open>\<open>wait\<close>: at most 30 turns. A turn sees the harness as it is then, and the term of every Raft
  (None at a crashed one, where the call panics); \<open>final\<close> is the harness after the loop.\<close>

fun moved_on :: "int \<Rightarrow> int option list \<Rightarrow> bool outcome" where
  "moved_on startTerm [] = Done False"
| "moved_on startTerm (t # ts) = (case t of None \<Rightarrow> Panic | Some t \<Rightarrow> if t > startTerm then Done True else moved_on startTerm ts)"

fun wait_loop :: "int \<Rightarrow> nat \<Rightarrow> int \<Rightarrow> (config \<times> int option list) list \<Rightarrow> bool outcome" where
  "wait_loop index need startTerm [] = Done True"
| "wait_loop index need startTerm ((cfg, terms) # turns) =
     and_then (nCommitted index cfg) (\<lambda>(nd, _).
       if nd \<ge> need then Done True
       else and_then (if startTerm > -1 then moved_on startTerm terms else Done False) (\<lambda>gone.
         if gone then Done False else wait_loop index need startTerm turns))"

definition wait_for :: "int \<Rightarrow> nat \<Rightarrow> int \<Rightarrow> (config \<times> int option list) list \<Rightarrow> config \<Rightarrow> iface outcome" where
  "wait_for index need startTerm turns final =
     and_then (wait_loop index need startTerm (take 30 turns)) (\<lambda>waited.
       if \<not> waited then Done (IInt (-1))
       else and_then (nCommitted index final) (\<lambda>(nd, cmd).
         if nd < need then Fatal ''too few servers decided'' else Done cmd))"

text \<open>\<open>one\<close>, the inner loop: the next servers in turn, until one takes the command; index -1 if none
  does. \<open>k\<close> turns are left. The goroutines the leader starts come last.\<close>

fun one_start :: "iface \<Rightarrow> env \<Rightarrow> nat \<Rightarrow> nat \<Rightarrow> config \<Rightarrow> (int \<times> nat \<times> config \<times> action list) outcome" where
  "one_start cmd ev 0 starts cfg = Done (-1, starts, cfg, [])"
| "one_start cmd ev (Suc k) starts cfg =
     (let starts = (starts + 1) mod cfg_n cfg
      in case (if connected cfg ! starts then rafts cfg ! starts else None) of
           None \<Rightarrow> one_start cmd ev k starts cfg
         | Some r \<Rightarrow>
             and_then (or_panic (Start cmd ev (raft_objs cfg ! r))) (\<lambda>((index1, _, started), rf, acts).
               if started then Done (index1, starts, raft_write r rf cfg, acts)
               else one_start cmd ev k starts (raft_write r rf cfg)))"

text \<open>Its test whether the command is in: on enough servers, and the same.\<close>

definition one_agreed :: "iface \<Rightarrow> nat \<Rightarrow> int \<Rightarrow> config \<Rightarrow> bool outcome" where
  "one_agreed cmd expectedServers index cfg =
     and_then (nCommitted index cfg) (\<lambda>(nd, cmd1). Done (nd > 0 \<and> nd \<ge> expectedServers \<and> cmd1 = cmd))"

text \<open>\<open>one\<close>, for as many polls and rounds as two and ten seconds hold. A poll sees the harness as it is
  then; a round starts with the harness it finds, which the servers have changed since the last.\<close>

fun one_polls :: "iface \<Rightarrow> nat \<Rightarrow> int \<Rightarrow> config list \<Rightarrow> bool outcome" where
  "one_polls cmd expectedServers index [] = Done False"
| "one_polls cmd expectedServers index (cfg # polls) =
     and_then (one_agreed cmd expectedServers index cfg) (\<lambda>agreed.
       if agreed then Done True else one_polls cmd expectedServers index polls)"

fun one_rounds ::
  "iface \<Rightarrow> nat \<Rightarrow> bool \<Rightarrow> config \<Rightarrow> nat \<Rightarrow> int \<Rightarrow> (config \<times> env \<times> config list) list \<Rightarrow> int outcome" where
  "one_rounds cmd expectedServers retry final starts index [] =
     and_then (nCommitted index final) (\<lambda>_.
       if None \<in> set (rafts final) then Panic else Fatal ''failed to reach agreement'')"
| "one_rounds cmd expectedServers retry final starts index ((cfg, ev, polls) # rounds) =
     and_then (one_start cmd ev (cfg_n cfg) starts cfg) (\<lambda>(index, starts, _).
       if index \<noteq> -1 then
         and_then (one_polls cmd expectedServers index polls) (\<lambda>agreed.
           if agreed then Done index
           else if \<not> retry then Fatal ''failed to reach agreement''
           else one_rounds cmd expectedServers retry final starts index rounds)
       else one_rounds cmd expectedServers retry final starts index rounds)"

definition one :: "iface \<Rightarrow> nat \<Rightarrow> bool \<Rightarrow> (config \<times> env \<times> config list) list \<Rightarrow> config \<Rightarrow> int outcome" where
  "one cmd expectedServers retry rounds final = one_rounds cmd expectedServers retry final 0 0 rounds"

end
