(* ===== verification/Config_Invariant.thy ===== *)
theory Config_Invariant
  imports Config_Checks
begin

text \<open>
  Steps of the harness: its own operations, the writes of every Raft instance ever made, and the
  traffic on its network. The topology is invariant: an end is enabled exactly if both its servers
  are connected, and belongs to a living incarnation.
\<close>

section \<open>Steps of the harness\<close>

datatype cfg_event =
    CConnect nat | CDisconnect nat | CCrash nat | CStart nat "string list" env
  | CUnreliable bool | CReordering bool
  | CWrite nat Raft \<comment> \<open>a critical section of an instance\<close>
  | CTraffic "32 word" "64 word" "int list" \<comment> \<open>the counters of the network and of its servers after some calls\<close>
  | CApply nat ApplyMsg | CApplySnap nat ApplyMsg int

fun cfg_do :: "cfg_event \<Rightarrow> config \<Rightarrow> config outcome" where
  "cfg_do (CConnect i) cfg = connect i cfg"
| "cfg_do (CDisconnect i) cfg = disconnect i cfg"
| "cfg_do (CCrash i) cfg = crash1 i cfg"
| "cfg_do (CStart i names ev) cfg = (if length names = cfg_n cfg then start1 i names ev cfg else Panic)"
| "cfg_do (CUnreliable b) cfg = Done (setunreliable b cfg)"
| "cfg_do (CReordering b) cfg = Done (setlongreordering b cfg)"
| "cfg_do (CWrite r rf) cfg = (if r < length (raft_objs cfg) then Done (raft_write r rf cfg) else Panic)"
| "cfg_do (CTraffic c b ks) cfg =
     (if length ks = length (store (cfg_net cfg))
      then Done (cfg\<lparr>cfg_net := (cfg_net cfg)\<lparr>rpc_count := c, rpc_bytes := b,
             store := map2 (\<lambda>rs k. rs\<lparr>srv_count := k\<rparr>) (store (cfg_net cfg)) ks\<rparr>\<rparr>) else Panic)"
| "cfg_do (CApply i m) cfg = (if i < cfg_n cfg then applier i m cfg else Panic)"
| "cfg_do (CApplySnap i m k) cfg =
     (if i < cfg_n cfg then and_then (applierSnap i m (cfg, k)) (\<lambda>(cfg, _). Done cfg) else Panic)"

definition cfg_step :: "config \<Rightarrow> cfg_event \<Rightarrow> config \<Rightarrow> bool" where
  "cfg_step cfg e cfg' \<longleftrightarrow> cfg_do e cfg = Done cfg'"

definition cfg_initial :: "nat \<Rightarrow> config \<Rightarrow> bool" where
  "cfg_initial n cfg \<longleftrightarrow> cfg = blank n"

section \<open>The topology\<close>

text \<open>\<open>e\<close> is the end from server \<open>i\<close> to server \<open>j\<close> of the living incarnation of \<open>i\<close>.\<close>

definition leads :: "config \<Rightarrow> string \<Rightarrow> nat \<Rightarrow> nat \<Rightarrow> bool" where
  "leads cfg e i j \<longleftrightarrow> i < cfg_n cfg \<and> j < cfg_n cfg \<and> (\<exists>ns. endnames cfg ! i = Some ns \<and> ns ! j = e)"

definition sized_cfg :: "config \<Rightarrow> bool" where
  "sized_cfg cfg \<longleftrightarrow> length (connected cfg) = cfg_n cfg \<and> length (endnames cfg) = cfg_n cfg \<and> length (rafts cfg) = cfg_n cfg \<and>
     length (cfg_saved cfg) = cfg_n cfg \<and> length (logs cfg) = cfg_n cfg \<and>
     (\<forall>i < cfg_n cfg. \<forall>ns. endnames cfg ! i = Some ns \<longrightarrow> length ns = cfg_n cfg)"

definition topology :: "config \<Rightarrow> bool" where
  "topology cfg \<longleftrightarrow> sized_cfg cfg \<and>
     (\<forall>e i j. leads cfg e i j \<longrightarrow> e \<in> set (ends (cfg_net cfg)) \<and> connections (cfg_net cfg) e = Some j \<and>
        (enabled (cfg_net cfg) e \<longleftrightarrow> connected cfg ! i \<and> connected cfg ! j)) \<and>
     (\<forall>e i j i' j'. leads cfg e i j \<longrightarrow> leads cfg e i' j' \<longrightarrow> i' = i \<and> j' = j) \<and>
     (\<forall>e. enabled (cfg_net cfg) e \<longrightarrow> (\<exists>i j. leads cfg e i j)) \<and>
     (\<forall>i < cfg_n cfg. connected cfg ! i \<longrightarrow> endnames cfg ! i \<noteq> None)"

text \<open>What the topology looks at.\<close>

definition same_topology :: "config \<Rightarrow> config \<Rightarrow> bool" where
  "same_topology cfg cfg' \<longleftrightarrow> cfg_n cfg' = cfg_n cfg \<and> connected cfg' = connected cfg \<and> endnames cfg' = endnames cfg \<and>
     length (rafts cfg') = length (rafts cfg) \<and> length (cfg_saved cfg') = length (cfg_saved cfg) \<and> length (logs cfg') = length (logs cfg) \<and>
     ends (cfg_net cfg') = ends (cfg_net cfg) \<and> connections (cfg_net cfg') = connections (cfg_net cfg) \<and>
     enabled (cfg_net cfg') = enabled (cfg_net cfg)"

lemma topology_same: "topology cfg \<Longrightarrow> same_topology cfg cfg' \<Longrightarrow> topology cfg'"
proof -
  assume t: "topology cfg" and e: "same_topology cfg cfg'"
  have "leads cfg' = leads cfg" using e by (simp add: same_topology_def leads_def fun_eq_iff)
  moreover have "sized_cfg cfg' = sized_cfg cfg" using e by (simp add: same_topology_def sized_cfg_def)
  ultimately show "topology cfg'" using t e unfolding topology_def same_topology_def by simp
qed

text \<open>Setting the flags of some ends: what \<open>connect\<close> and \<open>disconnect\<close> do.\<close>

definition flagged :: "bool \<Rightarrow> string set \<Rightarrow> config \<Rightarrow> config" where
  "flagged b E cfg = cfg\<lparr>cfg_net := (cfg_net cfg)\<lparr>enabled := (\<lambda>e. if e \<in> E then b else enabled (cfg_net cfg) e)\<rparr>\<rparr>"

lemma flagged_empty [simp]: "flagged b {} cfg = cfg"
  by (simp add: flagged_def)

lemma flagged_flagged [simp]: "flagged b E (flagged b F cfg) = flagged b (E \<union> F) cfg"
  by (simp add: flagged_def fun_eq_iff)

lemma enable_end_flagged: "enable_end b e cfg = flagged b {e} cfg"
  by (simp add: enable_end_def flagged_def Enable_def fun_upd_def)

lemma flagged_simps [simp]:
  "connected (flagged b E cfg) = connected cfg" "endnames (flagged b E cfg) = endnames cfg" "cfg_n (flagged b E cfg) = cfg_n cfg"
  "rafts (flagged b E cfg) = rafts cfg" "cfg_saved (flagged b E cfg) = cfg_saved cfg" "logs (flagged b E cfg) = logs cfg"
  "pers (flagged b E cfg) = pers cfg" "pers_of (flagged b E cfg) = pers_of cfg" "raft_objs (flagged b E cfg) = raft_objs cfg"
  "ends (cfg_net (flagged b E cfg)) = ends (cfg_net cfg)" "connections (cfg_net (flagged b E cfg)) = connections (cfg_net cfg)"
  "enabled (cfg_net (flagged b E cfg)) e = (if e \<in> E then b else enabled (cfg_net cfg) e)"
  by (simp_all add: flagged_def)

text \<open>A loop each of whose turns flags the ends \<open>F j\<close>, which do not depend on the flags.\<close>

lemma each_flagged:
  assumes "each f js cfg = Done cfg'"
    and "\<And>j E c. f j (flagged b E cfg) = Done c \<Longrightarrow> j \<in> set js \<Longrightarrow> c = flagged b (F j \<union> E) cfg"
  shows "cfg' = flagged b (\<Union>j \<in> set js. F j) cfg"
proof -
  have gen: "cfg' = flagged b ((\<Union>j \<in> set js'. F j) \<union> E) cfg"
    if "each f js' (flagged b E cfg) = Done cfg'" "set js' \<subseteq> set js" for js' E
    using that
  proof (induction js' arbitrary: E)
    case Nil
    then show ?case by simp
  next
    case (Cons j js')
    then obtain c where c: "f j (flagged b E cfg) = Done c" "each f js' c = Done cfg'" by (auto simp: and_then_Done)
    have "c = flagged b (F j \<union> E) cfg" using assms(2) [OF c(1)] Cons.prems(2) by simp
    then have "cfg' = flagged b ((\<Union>j \<in> set js'. F j) \<union> (F j \<union> E)) cfg" using Cons.IH [of "F j \<union> E"] c(2) Cons.prems(2) by simp
    moreover have "(\<Union>j \<in> set js'. F j) \<union> (F j \<union> E) = (\<Union>j \<in> set (j # js'). F j) \<union> E" by auto
    ultimately show ?case by simp
  qed
  show ?thesis using gen [of js "{}"] assms(1) by simp
qed

lemma end_name_Done: "end_name cfg i j = Done e \<longleftrightarrow> (\<exists>ns. endnames cfg ! i = Some ns \<and> j < length ns \<and> e = ns ! j)"
  by (auto simp: end_name_def split: option.splits)

lemma end_name_leads: "sized_cfg cfg \<Longrightarrow> i < cfg_n cfg \<Longrightarrow> end_name cfg i j = Done e \<longleftrightarrow> leads cfg e i j"
  by (auto simp: end_name_Done leads_def sized_cfg_def)

text \<open>The ends between \<open>i\<close> and the servers of \<open>A\<close>.\<close>

definition ends_with :: "config \<Rightarrow> nat \<Rightarrow> (nat \<Rightarrow> bool) \<Rightarrow> string set" where
  "ends_with cfg i A = {e. \<exists>j. A j \<and> (leads cfg e i j \<or> leads cfg e j i)}"

lemma sized_connected: "sized_cfg cfg \<Longrightarrow> sized_cfg (cfg\<lparr>connected := (connected cfg)[i := b]\<rparr>)"
  by (simp add: sized_cfg_def)

lemma leads_connected [simp]: "leads (cfg\<lparr>connected := xs\<rparr>) e i j = leads cfg e i j"
  by (simp add: leads_def)

lemma leads_flagged [simp]: "leads (flagged b E cfg) e i j = leads cfg e i j"
  by (simp add: leads_def)

lemma sized_flagged [simp]: "sized_cfg (flagged b E cfg) = sized_cfg cfg"
  by (simp add: sized_cfg_def)

lemma connect_flags:
  assumes "connect i cfg = Done cfg'" and sz: "sized_cfg cfg"
  shows "i < cfg_n cfg" "cfg' = flagged True (ends_with cfg i (\<lambda>j. j < cfg_n cfg \<and> (j = i \<or> connected cfg ! j))) (cfg\<lparr>connected := (connected cfg)[i := True]\<rparr>)"
    "endnames cfg ! i \<noteq> None"
proof -
  let ?cfg = "cfg\<lparr>connected := (connected cfg)[i := True]\<rparr>"
  show i: "i < cfg_n cfg" using assms(1) by (simp add: connect_def split: if_split_asm)
  have sz': "sized_cfg ?cfg" using sz by (rule sized_connected)
  have conn: "connected ?cfg ! j \<longleftrightarrow> j = i \<or> connected cfg ! j" if "j < cfg_n cfg" for j
    using that i sz by (auto simp: sized_cfg_def nth_list_update)
  obtain c where c: "each (connect_out i) [0..<cfg_n cfg] ?cfg = Done c" "each (connect_in i) [0..<cfg_n cfg] c = Done cfg'"
    using assms(1) i by (auto simp: connect_def Let_def and_then_Done)
  let ?F = "\<lambda>j. {e. connected ?cfg ! j \<and> leads cfg e i j}" and ?G = "\<lambda>j. {e. connected ?cfg ! j \<and> leads cfg e j i}"
  have c1: "c = flagged True (\<Union>j \<in> set [0..<cfg_n cfg]. ?F j) ?cfg"
  proof (rule each_flagged [OF c(1)])
    fix j E d assume d: "connect_out i j (flagged True E ?cfg) = Done d" and "j \<in> set [0..<cfg_n cfg]"
    then have j: "j < cfg_n cfg" by simp
    show "d = flagged True (?F j \<union> E) ?cfg"
    proof (cases "connected ?cfg ! j")
      case True
      then obtain e where e: "end_name (flagged True E ?cfg) i j = Done e" "d = flagged True {e} (flagged True E ?cfg)"
        using d by (auto simp: connect_out_def and_then_Done enable_end_flagged)
      then have "leads cfg e i j" using end_name_leads [of "flagged True E ?cfg" i j e] sz' i by simp
      then have "?F j = {e}" using True by (auto simp: leads_def)
      then show ?thesis using e by simp
    qed (use d in \<open>simp add: connect_out_def\<close>)
  qed
  have "cfg' = flagged True (\<Union>j \<in> set [0..<cfg_n cfg]. ?G j) c"
  proof (rule each_flagged [OF c(2)])
    fix j E d assume d: "connect_in i j (flagged True E c) = Done d" and "j \<in> set [0..<cfg_n cfg]"
    then have j: "j < cfg_n cfg" by simp
    show "d = flagged True (?G j \<union> E) c"
    proof (cases "connected ?cfg ! j")
      case True
      then obtain e where e: "end_name (flagged True E c) j i = Done e" "d = flagged True {e} (flagged True E c)"
        using d by (auto simp: connect_in_def and_then_Done enable_end_flagged c1)
      then have "leads cfg e j i" using end_name_leads [of "flagged True E c" j i e] sz' j c1 by simp
      then have "?G j = {e}" using True by (auto simp: leads_def)
      then show ?thesis using e by simp
    qed (use d in \<open>simp add: connect_in_def c1\<close>)
  qed
  then have "cfg' = flagged True ((\<Union>j \<in> set [0..<cfg_n cfg]. ?G j) \<union> (\<Union>j \<in> set [0..<cfg_n cfg]. ?F j)) ?cfg" by (simp add: c1)
  moreover have "(\<Union>j \<in> set [0..<cfg_n cfg]. ?G j) \<union> (\<Union>j \<in> set [0..<cfg_n cfg]. ?F j) =
      ends_with cfg i (\<lambda>j. j < cfg_n cfg \<and> (j = i \<or> connected cfg ! j))"
    using conn by (auto simp: ends_with_def)
  ultimately show "cfg' = flagged True (ends_with cfg i (\<lambda>j. j < cfg_n cfg \<and> (j = i \<or> connected cfg ! j))) ?cfg" by simp
  show "endnames cfg ! i \<noteq> None"
  proof
    assume none: "endnames cfg ! i = None"
    have "each (connect_out i) js (flagged True E ?cfg) \<noteq> Done c" if "i \<in> set js" for js E
      using that
    proof (induction js arbitrary: E)
      case (Cons j js)
      show ?case
      proof (cases "connected ?cfg ! j")
        case True
        then show ?thesis using none by (simp add: connect_out_def end_name_def)
      next
        case False
        then have "j \<noteq> i" using conn [OF i] by auto
        then show ?thesis using False Cons by (simp add: connect_out_def)
      qed
    qed simp
    from this [of "[0..<cfg_n cfg]" "{}"] show False using c(1) i by simp
  qed
qed

lemma disconnect_flags:
  assumes "disconnect i cfg = Done cfg'" and sz: "sized_cfg cfg"
  shows "i < cfg_n cfg" "cfg' = flagged False (ends_with cfg i (\<lambda>j. j < cfg_n cfg)) (cfg\<lparr>connected := (connected cfg)[i := False]\<rparr>)"
proof -
  let ?cfg = "cfg\<lparr>connected := (connected cfg)[i := False]\<rparr>"
  show i: "i < cfg_n cfg" using assms(1) by (simp add: disconnect_def split: if_split_asm)
  have sz': "sized_cfg ?cfg" using sz by (rule sized_connected)
  obtain c where c: "each (disconnect_out i) [0..<cfg_n cfg] ?cfg = Done c" "each (disconnect_in i) [0..<cfg_n cfg] c = Done cfg'"
    using assms(1) i by (auto simp: disconnect_def Let_def and_then_Done)
  let ?F = "\<lambda>j. {e. leads cfg e i j}" and ?G = "\<lambda>j. {e. leads cfg e j i}"
  have c1: "c = flagged False (\<Union>j \<in> set [0..<cfg_n cfg]. ?F j) ?cfg"
  proof (rule each_flagged [OF c(1)])
    fix j E d assume d: "disconnect_out i j (flagged False E ?cfg) = Done d"
    show "d = flagged False (?F j \<union> E) ?cfg"
    proof (cases "endnames cfg ! i = None")
      case True
      then show ?thesis using d by (simp add: disconnect_out_def leads_def)
    next
      case False
      then obtain e where e: "end_name (flagged False E ?cfg) i j = Done e" "d = flagged False {e} (flagged False E ?cfg)"
        using d by (auto simp: disconnect_out_def and_then_Done enable_end_flagged)
      then have "leads cfg e i j" using end_name_leads [of "flagged False E ?cfg" i j e] sz' i by simp
      then have "?F j = {e}" by (auto simp: leads_def)
      then show ?thesis using e by simp
    qed
  qed
  have "cfg' = flagged False (\<Union>j \<in> set [0..<cfg_n cfg]. ?G j) c"
  proof (rule each_flagged [OF c(2)])
    fix j E d assume d: "disconnect_in i j (flagged False E c) = Done d" and "j \<in> set [0..<cfg_n cfg]"
    then have j: "j < cfg_n cfg" by simp
    show "d = flagged False (?G j \<union> E) c"
    proof (cases "endnames cfg ! j = None")
      case True
      then show ?thesis using d by (simp add: disconnect_in_def leads_def c1)
    next
      case False
      then obtain e where e: "end_name (flagged False E c) j i = Done e" "d = flagged False {e} (flagged False E c)"
        using d by (auto simp: disconnect_in_def and_then_Done enable_end_flagged c1)
      then have "leads cfg e j i" using end_name_leads [of "flagged False E c" j i e] sz' j c1 by simp
      then have "?G j = {e}" by (auto simp: leads_def)
      then show ?thesis using e by simp
    qed
  qed
  then have "cfg' = flagged False ((\<Union>j \<in> set [0..<cfg_n cfg]. ?G j) \<union> (\<Union>j \<in> set [0..<cfg_n cfg]. ?F j)) ?cfg" by (simp add: c1)
  moreover have "(\<Union>j \<in> set [0..<cfg_n cfg]. ?G j) \<union> (\<Union>j \<in> set [0..<cfg_n cfg]. ?F j) = ends_with cfg i (\<lambda>j. j < cfg_n cfg)"
    by (auto simp: ends_with_def)
  ultimately show "cfg' = flagged False (ends_with cfg i (\<lambda>j. j < cfg_n cfg)) ?cfg" by simp
qed

lemma leads_bound: "leads cfg e i j \<Longrightarrow> i < cfg_n cfg \<and> j < cfg_n cfg"
  by (simp add: leads_def)

lemma topologyD:
  assumes "topology cfg"
  shows "sized_cfg cfg" "leads cfg e i j \<Longrightarrow> e \<in> set (ends (cfg_net cfg)) \<and> connections (cfg_net cfg) e = Some j"
    "leads cfg e i j \<Longrightarrow> enabled (cfg_net cfg) e \<longleftrightarrow> connected cfg ! i \<and> connected cfg ! j"
    "leads cfg e i j \<Longrightarrow> leads cfg e i' j' \<Longrightarrow> i' = i \<and> j' = j"
    "enabled (cfg_net cfg) e \<Longrightarrow> \<exists>i j. leads cfg e i j"
    "i < cfg_n cfg \<Longrightarrow> connected cfg ! i \<Longrightarrow> endnames cfg ! i \<noteq> None"
  using assms unfolding topology_def by blast+

lemma topologyI:
  assumes "sized_cfg cfg" and "\<And>e i j. leads cfg e i j \<Longrightarrow> e \<in> set (ends (cfg_net cfg)) \<and> connections (cfg_net cfg) e = Some j"
    and "\<And>e i j. leads cfg e i j \<Longrightarrow> enabled (cfg_net cfg) e \<longleftrightarrow> connected cfg ! i \<and> connected cfg ! j"
    and "\<And>e i j i' j'. leads cfg e i j \<Longrightarrow> leads cfg e i' j' \<Longrightarrow> i' = i \<and> j' = j"
    and "\<And>e. enabled (cfg_net cfg) e \<Longrightarrow> \<exists>i j. leads cfg e i j"
    and "\<And>i. i < cfg_n cfg \<Longrightarrow> connected cfg ! i \<Longrightarrow> endnames cfg ! i \<noteq> None"
  shows "topology cfg"
  using assms unfolding topology_def by blast

text \<open>Either operation sets the flag of server \<open>i\<close> and, accordingly, those of its ends.\<close>

lemma topology_flagged:
  assumes t: "topology cfg" and i: "i < cfg_n cfg" and some: "b \<longrightarrow> endnames cfg ! i \<noteq> None"
    and A: "\<And>j. j < cfg_n cfg \<Longrightarrow> A j \<longleftrightarrow> \<not> b \<or> j = i \<or> connected cfg ! j" "\<And>j. A j \<Longrightarrow> j < cfg_n cfg"
  shows "topology (flagged b (ends_with cfg i A) (cfg\<lparr>connected := (connected cfg)[i := b]\<rparr>))"
proof -
  let ?c = "flagged b (ends_with cfg i A) (cfg\<lparr>connected := (connected cfg)[i := b]\<rparr>)"
  note T = topologyD [OF t]
  have len: "length (connected cfg) = cfg_n cfg" using T(1) by (simp add: sized_cfg_def)
  have L: "leads ?c = leads cfg" by (simp add: fun_eq_iff)
  have mem: "e \<in> ends_with cfg i A \<longleftrightarrow> p = i \<and> A q \<or> q = i \<and> A p" if l: "leads cfg e p q" for e p q
  proof -
    have "leads cfg e x y \<longleftrightarrow> x = p \<and> y = q" for x y using T(4) [OF l] l by blast
    then show ?thesis unfolding ends_with_def by auto
  qed
  show ?thesis
  proof (rule topologyI; (unfold L)?)
    show "sized_cfg ?c" using sized_connected [OF T(1)] by simp
    show "e \<in> set (ends (cfg_net ?c)) \<and> connections (cfg_net ?c) e = Some q" if "leads cfg e p q" for e p q
      using T(2) [OF that] by simp
    show "enabled (cfg_net ?c) e \<longleftrightarrow> connected ?c ! p \<and> connected ?c ! q" if l: "leads cfg e p q" for e p q
    proof -
      have pq: "p < cfg_n cfg" "q < cfg_n cfg" using leads_bound [OF l] by simp_all
      show ?thesis using T(3) [OF l] mem [OF l] A(1) [OF pq(1)] A(1) [OF pq(2)] pq len
        by (cases b; cases "p = i"; cases "q = i") auto
    qed
    show "p' = p \<and> q' = q" if "leads cfg e p q" "leads cfg e p' q'" for e p q p' q' using T(4) that by blast
    show "\<exists>p q. leads cfg e p q" if "enabled (cfg_net ?c) e" for e
      using that T(5) [of e] by (auto simp: ends_with_def split: if_split_asm)
    show "endnames ?c ! p \<noteq> None" if "p < cfg_n ?c" "connected ?c ! p" for p
      using that T(6) [of p] some len by (cases "p = i") auto
  qed
qed

lemma topology_connect: "topology cfg \<Longrightarrow> connect i cfg = Done cfg' \<Longrightarrow> topology cfg'"
  using connect_flags [of i cfg cfg'] topologyD(1) [of cfg] by (auto intro: topology_flagged)

lemma topology_disconnect: "topology cfg \<Longrightarrow> disconnect i cfg = Done cfg' \<Longrightarrow> topology cfg' \<and> \<not> connected cfg' ! i"
  using disconnect_flags [of i cfg cfg'] topologyD(1) [of cfg] by (auto intro: topology_flagged simp: sized_cfg_def)

lemma same_topology_refl [simp]: "same_topology cfg cfg"
  by (simp add: same_topology_def)

lemma same_topology_trans: "same_topology a b \<Longrightarrow> same_topology b c \<Longrightarrow> same_topology a c"
  by (simp add: same_topology_def)

lemma new_saved_same [simp]: "same_topology cfg (new_saved i p cfg)"
  by (simp add: same_topology_def new_saved_def)

lemma new_saved_simps [simp]:
  "pers (new_saved i p cfg) = pers cfg @ [p]" "cfg_saved (new_saved i p cfg) = (cfg_saved cfg)[i := Some (length (pers cfg))]"
  "pers_of (new_saved i p cfg) = pers_of cfg" "raft_objs (new_saved i p cfg) = raft_objs cfg" "rafts (new_saved i p cfg) = rafts cfg"
  "cfg_net (new_saved i p cfg) = cfg_net cfg" "cfg_n (new_saved i p cfg) = cfg_n cfg"
  by (simp_all add: new_saved_def)

text \<open>The part of \<open>crash1\<close> after the disconnection.\<close>

lemma crash1_elim:
  assumes "crash1 i cfg = Done cfg'"
  obtains c c1 c2 c3 where "disconnect i cfg = Done c" "c1 = c\<lparr>cfg_net := DeleteServer i (cfg_net c)\<rparr>"
    "c2 = (case cfg_saved c1 ! i of Some a \<Rightarrow> new_saved i (Copy (pers c1 ! a)) c1 | None \<Rightarrow> c1)"
    "c3 = (case rafts c2 ! i of
        Some r \<Rightarrow> c2\<lparr>raft_objs := (raft_objs c2)[r := Kill (raft_objs c2 ! r)], rafts := (rafts c2)[i := None]\<rparr> | None \<Rightarrow> c2)"
    "cfg' = (case cfg_saved c3 ! i of Some a \<Rightarrow> new_saved i (SaveStateAndSnapshot (ReadRaftState (pers c3 ! a)) (ReadSnapshot (pers c3 ! a))
        \<lparr>raftstate = [], snapshot = []\<rparr>) c3 | None \<Rightarrow> c3)"
  using assms unfolding crash1_def and_then_Done Let_def by (elim exE conjE) (rule that; blast dest: outcome.inject [THEN iffD1])

lemma topology_crash:
  assumes "topology cfg" and "crash1 i cfg = Done cfg'"
  shows "topology cfg' \<and> \<not> connected cfg' ! i"
proof (rule crash1_elim [OF assms(2)])
  fix c c1 c2 c3
  assume c: "disconnect i cfg = Done c" and s: "c1 = c\<lparr>cfg_net := DeleteServer i (cfg_net c)\<rparr>"
    "c2 = (case cfg_saved c1 ! i of Some a \<Rightarrow> new_saved i (Copy (pers c1 ! a)) c1 | None \<Rightarrow> c1)"
    "c3 = (case rafts c2 ! i of
        Some r \<Rightarrow> c2\<lparr>raft_objs := (raft_objs c2)[r := Kill (raft_objs c2 ! r)], rafts := (rafts c2)[i := None]\<rparr> | None \<Rightarrow> c2)"
    "cfg' = (case cfg_saved c3 ! i of Some a \<Rightarrow> new_saved i (SaveStateAndSnapshot (ReadRaftState (pers c3 ! a)) (ReadSnapshot (pers c3 ! a))
        \<lparr>raftstate = [], snapshot = []\<rparr>) c3 | None \<Rightarrow> c3)"
  have "same_topology c c1" by (simp add: s(1) same_topology_def DeleteServer_def)
  moreover have "same_topology c1 c2" by (simp add: s(2) split: option.splits)
  moreover have "same_topology c2 c3" by (simp add: s(3) same_topology_def split: option.splits)
  moreover have "same_topology c3 cfg'" by (simp add: s(4) split: option.splits)
  ultimately have "same_topology c cfg'" using same_topology_trans by blast
  moreover have "topology c" "\<not> connected c ! i" using topology_disconnect [OF assms(1) c] by simp_all
  ultimately show ?thesis using topology_same by (auto simp: same_topology_def)
qed

lemma crash1_n: "crash1 i cfg = Done c \<Longrightarrow> sized_cfg cfg \<Longrightarrow> cfg_n c = cfg_n cfg \<and> i < cfg_n cfg"
proof (erule crash1_elim)
  fix c0 c1 c2 c3
  assume sz: "sized_cfg cfg" and c: "disconnect i cfg = Done c0" and s: "c1 = c0\<lparr>cfg_net := DeleteServer i (cfg_net c0)\<rparr>"
    "c2 = (case cfg_saved c1 ! i of Some a \<Rightarrow> new_saved i (Copy (pers c1 ! a)) c1 | None \<Rightarrow> c1)"
    "c3 = (case rafts c2 ! i of
        Some r \<Rightarrow> c2\<lparr>raft_objs := (raft_objs c2)[r := Kill (raft_objs c2 ! r)], rafts := (rafts c2)[i := None]\<rparr> | None \<Rightarrow> c2)"
    "c = (case cfg_saved c3 ! i of Some a \<Rightarrow> new_saved i (SaveStateAndSnapshot (ReadRaftState (pers c3 ! a)) (ReadSnapshot (pers c3 ! a))
        \<lparr>raftstate = [], snapshot = []\<rparr>) c3 | None \<Rightarrow> c3)"
  have "cfg_n c = cfg_n c0" unfolding s by (simp add: new_saved_def split: option.split)
  then show ?thesis using disconnect_flags [OF c sz] by simp
qed

text \<open>The loop of \<open>start1\<close> stops at a name that exists; so the names are new and differ.\<close>

lemma make_ends:
  assumes "each (make_end names) js c = Done d"
  shows "d = c\<lparr>cfg_net := cfg_net d\<rparr>" "distinct (map ((!) names) js)" "set (map ((!) names) js) \<inter> set (ends (cfg_net c)) = {}"
    "set (ends (cfg_net d)) = set (map ((!) names) js) \<union> set (ends (cfg_net c))"
    "enabled (cfg_net d) e \<longleftrightarrow> e \<notin> set (map ((!) names) js) \<and> enabled (cfg_net c) e"
    "j \<in> set js \<Longrightarrow> connections (cfg_net d) (names ! j) = Some j"
    "e \<notin> set (map ((!) names) js) \<Longrightarrow> connections (cfg_net d) e = connections (cfg_net c) e"
    "rpc_servers (cfg_net d) = rpc_servers (cfg_net c)" "store (cfg_net d) = store (cfg_net c)"
proof -
  have "d = c\<lparr>cfg_net := cfg_net d\<rparr> \<and> distinct (map ((!) names) js) \<and> set (map ((!) names) js) \<inter> set (ends (cfg_net c)) = {} \<and>
      set (ends (cfg_net d)) = set (map ((!) names) js) \<union> set (ends (cfg_net c)) \<and>
      (\<forall>e. enabled (cfg_net d) e \<longleftrightarrow> e \<notin> set (map ((!) names) js) \<and> enabled (cfg_net c) e) \<and>
      (\<forall>j \<in> set js. connections (cfg_net d) (names ! j) = Some j) \<and>
      (\<forall>e. e \<notin> set (map ((!) names) js) \<longrightarrow> connections (cfg_net d) e = connections (cfg_net c) e) \<and>
      rpc_servers (cfg_net d) = rpc_servers (cfg_net c) \<and> store (cfg_net d) = store (cfg_net c)"
    using assms
  proof (induction js arbitrary: c)
    case (Cons j js)
    then obtain c1 where c1: "make_end names j c = Done c1" "each (make_end names) js c1 = Done d" by (auto simp: and_then_Done)
    then have m: "names ! j \<notin> set (ends (cfg_net c))" and
      e: "c1 = c\<lparr>cfg_net := Connect (names ! j) j ((cfg_net c)\<lparr>ends := names ! j # ends (cfg_net c),
          enabled := (enabled (cfg_net c))(names ! j := False), connections := (connections (cfg_net c))(names ! j := None)\<rparr>)\<rparr>"
      by (auto simp: make_end_def MakeEnd_def and_then_Done split: if_split_asm)
    note IH = Cons.IH [OF c1(2)]
    have "names ! j \<notin> set (map ((!) names) js)" using IH by (auto simp: e Connect_def)
    then show ?case using IH m by (auto simp: e Connect_def)
  qed simp
  then show "d = c\<lparr>cfg_net := cfg_net d\<rparr>" "distinct (map ((!) names) js)" "set (map ((!) names) js) \<inter> set (ends (cfg_net c)) = {}"
    "set (ends (cfg_net d)) = set (map ((!) names) js) \<union> set (ends (cfg_net c))"
    "enabled (cfg_net d) e \<longleftrightarrow> e \<notin> set (map ((!) names) js) \<and> enabled (cfg_net c) e"
    "j \<in> set js \<Longrightarrow> connections (cfg_net d) (names ! j) = Some j"
    "e \<notin> set (map ((!) names) js) \<Longrightarrow> connections (cfg_net d) e = connections (cfg_net c) e"
    "rpc_servers (cfg_net d) = rpc_servers (cfg_net c)" "store (cfg_net d) = store (cfg_net c)" by blast+
qed

lemma start1_elim:
  assumes "start1 i names ev cfg = Done cfg'"
  obtains c d f rf where "crash1 i cfg = Done c" "each (make_end names) [0..<cfg_n c] (c\<lparr>endnames := (endnames c)[i := Some names]\<rparr>) = Done d"
    "f = new_saved i (case cfg_saved d ! i of Some a \<Rightarrow> Copy (pers d ! a) | None \<Rightarrow> MakePersister) d"
    "Make names i (pers f ! length (pers d)) ev = Some rf"
    "cfg' = f\<lparr>raft_objs := raft_objs f @ [rf], pers_of := pers_of f @ [length (pers d)], rafts := (rafts f)[i := Some (length (raft_objs f))],
       cfg_net := AddServer i (length (store (cfg_net f))) (snd (new_server (AddService (MakeService ''Raft'' (length (raft_objs f)) raft_methods) MakeServer) (cfg_net f)))\<rparr>"
proof -
  obtain c where c: "crash1 i cfg = Done c" using assms by (auto simp: start1_def and_then_Done)
  obtain d where d: "each (make_end names) [0..<cfg_n c] (c\<lparr>endnames := (endnames c)[i := Some names]\<rparr>) = Done d"
    using assms c by (auto simp: start1_def Let_def and_then_Done)
  define p where "p = (case cfg_saved d ! i of Some a \<Rightarrow> Copy (pers d ! a) | None \<Rightarrow> MakePersister)"
  note st = assms [unfolded start1_def Let_def c d and_then.simps, folded p_def]
  obtain rf where rf: "Make names i p ev = Some rf"
    using st c d by (cases "Make names i p ev") (simp_all add: p_def)
  show thesis
  proof (rule that [OF c d refl], unfold p_def [symmetric])
    show "Make names i (pers (new_saved i p d) ! length (pers d)) ev = Some rf" using rf by simp
  qed (rule sym, use st rf c d in \<open>simp add: p_def [symmetric] new_server_def split_def\<close>)
qed

lemma topology_start:
  assumes t: "topology cfg" and st: "start1 i names ev cfg = Done cfg'" and ln: "length names = cfg_n cfg"
  shows "topology cfg'"
proof (rule start1_elim [OF st])
  fix c d f rf
  assume c: "crash1 i cfg = Done c" and d: "each (make_end names) [0..<cfg_n c] (c\<lparr>endnames := (endnames c)[i := Some names]\<rparr>) = Done d"
    and f: "f = new_saved i (case cfg_saved d ! i of Some a \<Rightarrow> Copy (pers d ! a) | None \<Rightarrow> MakePersister) d"
    and cfg': "cfg' = f\<lparr>raft_objs := raft_objs f @ [rf], pers_of := pers_of f @ [length (pers d)], rafts := (rafts f)[i := Some (length (raft_objs f))],
       cfg_net := AddServer i (length (store (cfg_net f))) (snd (new_server (AddService (MakeService ''Raft'' (length (raft_objs f)) raft_methods) MakeServer) (cfg_net f)))\<rparr>"
  have tc: "topology c" "\<not> connected c ! i" using topology_crash [OF t c] by simp_all
  note T = topologyD [OF tc(1)]
  have n: "cfg_n c = cfg_n cfg" "i < cfg_n c" using crash1_n [OF c topologyD(1) [OF t]] by simp_all
  note E = make_ends [OF d]
  have "map ((!) names) [0..<cfg_n c] = names" unfolding n(1) ln [symmetric] by (rule map_nth)
  then have names: "set (map ((!) names) [0..<cfg_n c]) = set names" "distinct names" using E(2) by simp_all
  have en: "cfg_n d = cfg_n c" "connected d = connected c" "endnames d = (endnames c)[i := Some names]" "rafts d = rafts c"
      "cfg_saved d = cfg_saved c" "logs d = logs c"
    by (subst E(1), simp)+
  have sz: "sized_cfg d" using T(1) ln n unfolding sized_cfg_def en by (auto simp: nth_list_update)
  have L: "leads d e p q \<longleftrightarrow> (if p = i then q < cfg_n c \<and> names ! q = e else leads c e p q)" for e p q
    using T(1) n(2) unfolding leads_def sized_cfg_def en by (auto simp: nth_list_update)
  have old: "e \<notin> set names" if "leads c e p q" for e p q using T(2) [OF that] E(3) names(1) by auto
  have td: "topology d"
  proof (rule topologyI [OF sz])
    show "e \<in> set (ends (cfg_net d)) \<and> connections (cfg_net d) e = Some q" if "leads d e p q" for e p q
      using that T(2) [of e p q] old [of e p q] E(4,6,7) names(1) ln n by (auto simp: L split: if_split_asm)
    show "enabled (cfg_net d) e \<longleftrightarrow> connected d ! p \<and> connected d ! q" if l: "leads d e p q" for e p q
    proof -
      show ?thesis using en(2) l T(3) [of e p q] old [of e p q] tc(2) names(1) ln n
        by (cases "p = i") (auto simp: L E(5))
    qed
    show "p' = p \<and> q' = q" if l: "leads d e p q" "leads d e p' q'" for e p q p' q'
    proof -
      have "p = i \<Longrightarrow> p' = i" "p' = i \<Longrightarrow> p = i" using l old [of e p q] old [of e p' q'] ln n by (auto simp: L split: if_split_asm)
      then show ?thesis using l T(4) [of e p q p' q'] names(2) ln n by (cases "p = i") (auto simp: L nth_eq_iff_index_eq split: if_split_asm)
    qed
    show "\<exists>p q. leads d e p q" if e: "enabled (cfg_net d) e" for e
    proof -
      have ec: "enabled (cfg_net c) e" using e by (simp add: E(5))
      then obtain p q where l: "leads c e p q" using T(5) by blast
      have "p \<noteq> i" using T(3) [OF l] ec tc(2) by auto
      then show ?thesis using l L by metis
    qed
    show "endnames d ! p \<noteq> None" if p: "p < cfg_n d" "connected d ! p" for p
    proof -
      show ?thesis using en p T(6) [of p] T(1) by (cases "p = i") (auto simp: sized_cfg_def)
    qed
  qed
  have "same_topology d f" by (simp add: f)
  moreover have "same_topology f cfg'" by (simp add: cfg' same_topology_def new_server_def AddServer_def)
  ultimately show ?thesis using topology_same [OF td] same_topology_trans by blast
qed

section \<open>The shape of a step\<close>

text \<open>What only changes the logs of the services, the statistics and the modes of the network.\<close>

definition quiet :: "config \<Rightarrow> config \<Rightarrow> bool" where
  "quiet cfg cfg' \<longleftrightarrow> same_topology cfg cfg' \<and> pers cfg' = pers cfg \<and> pers_of cfg' = pers_of cfg \<and> raft_objs cfg' = raft_objs cfg \<and>
     rafts cfg' = rafts cfg \<and> cfg_saved cfg' = cfg_saved cfg \<and> rpc_servers (cfg_net cfg') = rpc_servers (cfg_net cfg) \<and>
     map services (store (cfg_net cfg')) = map services (store (cfg_net cfg))"

lemma quiet_refl [simp]: "quiet cfg cfg"
  by (simp add: quiet_def)

lemma quietD:
  assumes "quiet cfg cfg'"
  shows "same_topology cfg cfg'" "cfg_n cfg' = cfg_n cfg" "pers cfg' = pers cfg" "pers_of cfg' = pers_of cfg" "raft_objs cfg' = raft_objs cfg"
    "rafts cfg' = rafts cfg" "cfg_saved cfg' = cfg_saved cfg" "rpc_servers (cfg_net cfg') = rpc_servers (cfg_net cfg)"
    "map services (store (cfg_net cfg')) = map services (store (cfg_net cfg))"
  using assms unfolding quiet_def same_topology_def by blast+

lemma checkLogs_quiet: "checkLogs i m cfg = (err, prevok, cfg') \<Longrightarrow> quiet cfg cfg'"
  by (auto simp: checkLogs_def Let_def quiet_def same_topology_def)

lemma applier_quiet:
  assumes "applier i m cfg = Done cfg'"
  shows "quiet cfg cfg'"
proof (cases "CommandValid m")
  case True
  obtain err prevok c where "checkLogs i m cfg = (err, prevok, c)" by (cases "checkLogs i m cfg")
  moreover from this have "cfg' = c" using assms True by (auto simp: applier_def report_error_def Let_def split: if_split_asm)
  ultimately show ?thesis using checkLogs_quiet by blast
qed (use assms in \<open>simp add: applier_def\<close>)

text \<open>One message of the snapshotting service is quiet, and may then write one Raft.\<close>

lemma applierSnap_elim:
  assumes "applierSnap i m (cfg, k) = Done (cfg', k')"
  obtains "quiet cfg cfg'" | c r rf where "quiet cfg c" "rafts c ! i = Some r" "cfg' = raft_write r rf c"
proof (cases "SnapshotValid m \<or> \<not> (CommandValid m \<and> CommandIndex m > k)")
  case True
  then have "cfg' = cfg \<or> (\<exists>l. cfg' = cfg\<lparr>logs := (logs cfg)[i := l]\<rparr>)"
    using assms by (auto simp: applierSnap_def split: if_split_asm option.splits goval.splits)
  then show thesis by (intro that(1)) (auto simp: quiet_def same_topology_def)
next
  case False
  obtain err prevok c where c: "checkLogs i m cfg = (err, prevok, c)" by (cases "checkLogs i m cfg")
  have "cfg' = c \<or> (\<exists>r rf. rafts c ! i = Some r \<and> cfg' = raft_write r rf c)"
    using assms False c
    by (auto simp: applierSnap_def Let_def report_error_def and_then_Done split_def split: if_split_asm option.splits)
  then show thesis using that checkLogs_quiet [OF c] by blast
qed

lemma map_services_count: "length ks = length rss \<Longrightarrow> map services (map2 (\<lambda>rs k. rs\<lparr>srv_count := k\<rparr>) rss ks) = map services rss"
  by (induction rss ks rule: list_induct2') auto

lemma cfg_step_elim:
  assumes "cfg_step cfg e cfg'"
  obtains (connect) i where "connect i cfg = Done cfg'" | (disconnect) i where "disconnect i cfg = Done cfg'"
  | (crash) i where "crash1 i cfg = Done cfg'" | (start) i names ev where "start1 i names ev cfg = Done cfg'" "length names = cfg_n cfg"
  | (quiet) "quiet cfg cfg'"
  | (raft) c r rf where "quiet cfg c" "r < length (raft_objs c) \<or> (\<exists>i < cfg_n c. rafts c ! i = Some r)" "cfg' = raft_write r rf c"
proof -
  have d: "cfg_do e cfg = Done cfg'" using assms by (simp add: cfg_step_def)
  show thesis
  proof (cases e)
    case (CConnect i) then show thesis using d connect by simp
  next
    case (CDisconnect i) then show thesis using d disconnect by simp
  next
    case (CCrash i) then show thesis using d crash by simp
  next
    case (CStart i names ev) then show thesis using d start by (simp split: if_split_asm)
  next
    case (CUnreliable b) then show thesis using d by (intro quiet) (auto simp: quiet_def same_topology_def setunreliable_def Reliable_def)
  next
    case (CReordering b)
    then show thesis using d by (intro quiet) (auto simp: quiet_def same_topology_def setlongreordering_def LongReordering_def)
  next
    case (CWrite r rf) then show thesis using d raft [of cfg r rf] by (simp split: if_split_asm)
  next
    case (CTraffic c b ks)
    then show thesis using d
      by (intro quiet) (auto simp: quiet_def same_topology_def map_services_count simp del: map_map split: if_split_asm)
  next
    case (CApply i m) then show thesis using d applier_quiet quiet by (simp split: if_split_asm)
  next
    case (CApplySnap i m k)
    then obtain k' where i: "i < cfg_n cfg" and a: "applierSnap i m (cfg, k) = Done (cfg', k')"
      using d by (auto simp: and_then_Done split: if_split_asm)
    from a show thesis
    proof (rule applierSnap_elim)
      fix c r rf assume w: "quiet cfg c" "rafts c ! i = Some r" "cfg' = raft_write r rf c"
      show thesis using raft [OF w(1) _ w(3)] w(2) i quietD(2) [OF w(1)] by auto
    qed (rule quiet)
  qed
qed

lemma raft_write_same [simp]: "same_topology cfg (raft_write r rf cfg)"
  by (simp add: same_topology_def raft_write_def)

lemma topology_step:
  assumes t: "topology cfg" and st: "cfg_step cfg e cfg'"
  shows "topology cfg'"
  using st
proof (cases rule: cfg_step_elim)
  case quiet then show ?thesis using topology_same [OF t] quietD(1) by blast
next
  case (raft c r rf) then show ?thesis using topology_same [OF t] quietD(1) same_topology_trans raft_write_same by blast
qed (use t topology_connect topology_disconnect topology_crash topology_start in blast)+

lemma topology_blank: "topology (blank n)"
  by (auto simp: topology_def sized_cfg_def leads_def blank_def MakeNetwork_def)

end
