(* ===== verification/Config_Storage.thy ===== *)
theory Config_Storage
  imports Config_Invariant
begin

text \<open>
  Persisters across crashes, the point of \<open>crash1\<close> and \<open>start1\<close> of \<open>raft/config.go\<close>: a killed instance goes
  on writing its own persister, and the server that takes its place must start from what the old one
  had written at the crash, and see nothing the old one writes later.
\<close>

definition stored_for :: "nat \<Rightarrow> config \<Rightarrow> Persister" where
  "stored_for i cfg = (case cfg_saved cfg ! i of Some a \<Rightarrow> pers cfg ! a | None \<Rightarrow> MakePersister)"

text \<open>Persisters are not shared between servers; the saved one of a server is that of its living
  instance, if there is one, and of no other.\<close>

definition isolated :: "config \<Rightarrow> bool" where
  "isolated cfg \<longleftrightarrow> length (pers_of cfg) = length (raft_objs cfg) \<and>
     (\<forall>r < length (raft_objs cfg). pers_of cfg ! r < length (pers cfg)) \<and>
     (\<forall>i < cfg_n cfg. \<forall>a. cfg_saved cfg ! i = Some a \<longrightarrow> a < length (pers cfg) \<and>
        (\<forall>j < cfg_n cfg. cfg_saved cfg ! j = Some a \<longrightarrow> j = i) \<and>
        (\<forall>r < length (raft_objs cfg). pers_of cfg ! r = a \<longrightarrow> rafts cfg ! i = Some r)) \<and>
     (\<forall>i < cfg_n cfg. \<forall>r. rafts cfg ! i = Some r \<longrightarrow>
        r < length (raft_objs cfg) \<and> cfg_saved cfg ! i = Some (pers_of cfg ! r) \<and> persister (raft_objs cfg ! r) = pers cfg ! (pers_of cfg ! r))"

lemma isolated_same:
  assumes "isolated cfg" and eq: "cfg_n c = cfg_n cfg" "pers c = pers cfg" "pers_of c = pers_of cfg" "raft_objs c = raft_objs cfg"
    "rafts c = rafts cfg" "cfg_saved c = cfg_saved cfg"
  shows "isolated c"
  using assms(1) unfolding isolated_def eq .

lemma crash1_effect:
  assumes "crash1 i cfg = Done cfg'" and sz: "sized_cfg cfg"
  shows "i < cfg_n cfg" "cfg_n cfg' = cfg_n cfg" "rafts cfg' = (rafts cfg)[i := None]" "pers_of cfg' = pers_of cfg"
    "map persister (raft_objs cfg') = map persister (raft_objs cfg)"
    "cfg_saved cfg ! i = None \<Longrightarrow> pers cfg' = pers cfg \<and> cfg_saved cfg' = cfg_saved cfg"
    "cfg_saved cfg ! i = Some a \<Longrightarrow>
       pers cfg' = pers cfg @ [pers cfg ! a, pers cfg ! a] \<and> cfg_saved cfg' = (cfg_saved cfg)[i := Some (Suc (length (pers cfg)))]"
proof -
  obtain c c1 c2 c3 where c: "disconnect i cfg = Done c" and s: "c1 = c\<lparr>cfg_net := DeleteServer i (cfg_net c)\<rparr>"
    "c2 = (case cfg_saved c1 ! i of Some a \<Rightarrow> new_saved i (Copy (pers c1 ! a)) c1 | None \<Rightarrow> c1)"
    "c3 = (case rafts c2 ! i of
        Some r \<Rightarrow> c2\<lparr>raft_objs := (raft_objs c2)[r := Kill (raft_objs c2 ! r)], rafts := (rafts c2)[i := None]\<rparr> | None \<Rightarrow> c2)"
    "cfg' = (case cfg_saved c3 ! i of Some a \<Rightarrow> new_saved i (SaveStateAndSnapshot (ReadRaftState (pers c3 ! a)) (ReadSnapshot (pers c3 ! a))
        \<lparr>raftstate = [], snapshot = []\<rparr>) c3 | None \<Rightarrow> c3)"
    by (rule crash1_elim [OF assms(1)])
  note D = disconnect_flags [OF c sz]
  show i: "i < cfg_n cfg" by (rule D)
  have f: "rafts c1 = rafts cfg" "cfg_saved c1 = cfg_saved cfg" "pers c1 = pers cfg" "pers_of c1 = pers_of cfg" "raft_objs c1 = raft_objs cfg" "cfg_n c1 = cfg_n cfg"
    by (simp_all add: s(1) D(2))
  have len: "i < length (cfg_saved cfg)" "i < length (rafts cfg)" using sz i by (simp_all add: sized_cfg_def)
  have f2: "rafts c2 = rafts cfg" "pers_of c2 = pers_of cfg" "raft_objs c2 = raft_objs cfg" "cfg_n c2 = cfg_n cfg"
    by (simp_all add: s(2) f split: option.split)
  have upd: "rafts cfg ! i = None \<Longrightarrow> (rafts cfg)[i := None] = rafts cfg" by (metis list_update_id)
  have f3: "rafts c3 = (rafts cfg)[i := None]" "cfg_saved c3 = cfg_saved c2" "pers c3 = pers c2" "pers_of c3 = pers_of cfg" "cfg_n c3 = cfg_n cfg"
    using upd by (auto simp: s(3) f2 split: option.split)
  have p3: "map persister (raft_objs c3) = map persister (raft_objs cfg)"
  proof (cases "rafts cfg ! i")
    case (Some r)
    then have "map persister (raft_objs c3) = (map persister (raft_objs cfg))[r := persister (raft_objs cfg ! r)]"
      by (simp add: s(3) f2 map_update Kill_def)
    then show ?thesis by (cases "r < length (raft_objs cfg)") (simp_all add: nth_map [symmetric] list_update_beyond del: nth_map)
  qed (simp add: s(3) f2)
  show "rafts cfg' = (rafts cfg)[i := None]" "pers_of cfg' = pers_of cfg" "map persister (raft_objs cfg') = map persister (raft_objs cfg)"
    "cfg_n cfg' = cfg_n cfg"
    using p3 by (simp_all add: s(4) f3 split: option.split)
  show "pers cfg' = pers cfg \<and> cfg_saved cfg' = cfg_saved cfg" if "cfg_saved cfg ! i = None"
    using that by (simp add: s(4) f3 s(2) f)
  show "pers cfg' = pers cfg @ [pers cfg ! a, pers cfg ! a] \<and> cfg_saved cfg' = (cfg_saved cfg)[i := Some (Suc (length (pers cfg)))]"
    if "cfg_saved cfg ! i = Some a"
  proof -
    have "SaveStateAndSnapshot (ReadRaftState p) (ReadSnapshot p) \<lparr>raftstate = [], snapshot = []\<rparr> = p" for p
      by (simp add: SaveStateAndSnapshot_def ReadRaftState_def ReadSnapshot_def)
    then show ?thesis using that len by (simp add: s(4) f3 s(2) f nth_append)
  qed
qed


lemma isolatedD:
  assumes "isolated cfg"
  shows "length (pers_of cfg) = length (raft_objs cfg)" "r < length (raft_objs cfg) \<Longrightarrow> pers_of cfg ! r < length (pers cfg)"
    "i < cfg_n cfg \<Longrightarrow> cfg_saved cfg ! i = Some a \<Longrightarrow> a < length (pers cfg)"
    "i < cfg_n cfg \<Longrightarrow> cfg_saved cfg ! i = Some a \<Longrightarrow> j < cfg_n cfg \<Longrightarrow> cfg_saved cfg ! j = Some a \<Longrightarrow> j = i"
    "i < cfg_n cfg \<Longrightarrow> cfg_saved cfg ! i = Some a \<Longrightarrow> r < length (raft_objs cfg) \<Longrightarrow> pers_of cfg ! r = a \<Longrightarrow> rafts cfg ! i = Some r"
    "i < cfg_n cfg \<Longrightarrow> rafts cfg ! i = Some r \<Longrightarrow> r < length (raft_objs cfg) \<and> cfg_saved cfg ! i = Some (pers_of cfg ! r) \<and>
       persister (raft_objs cfg ! r) = pers cfg ! (pers_of cfg ! r)"
  using assms unfolding isolated_def by blast+

lemma isolatedI:
  assumes "length (pers_of cfg) = length (raft_objs cfg)" and "\<And>r. r < length (raft_objs cfg) \<Longrightarrow> pers_of cfg ! r < length (pers cfg)"
    and "\<And>i a. i < cfg_n cfg \<Longrightarrow> cfg_saved cfg ! i = Some a \<Longrightarrow> a < length (pers cfg)"
    and "\<And>i j a. i < cfg_n cfg \<Longrightarrow> cfg_saved cfg ! i = Some a \<Longrightarrow> j < cfg_n cfg \<Longrightarrow> cfg_saved cfg ! j = Some a \<Longrightarrow> j = i"
    and "\<And>i a r. i < cfg_n cfg \<Longrightarrow> cfg_saved cfg ! i = Some a \<Longrightarrow> r < length (raft_objs cfg) \<Longrightarrow> pers_of cfg ! r = a \<Longrightarrow> rafts cfg ! i = Some r"
    and "\<And>i r. i < cfg_n cfg \<Longrightarrow> rafts cfg ! i = Some r \<Longrightarrow> r < length (raft_objs cfg) \<and> cfg_saved cfg ! i = Some (pers_of cfg ! r) \<and>
       persister (raft_objs cfg ! r) = pers cfg ! (pers_of cfg ! r)"
  shows "isolated cfg"
  using assms unfolding isolated_def by blast

text \<open>A server without an instance may get new persisters.\<close>

lemma isolated_fresh:
  assumes iso: "isolated cfg" and i: "i < cfg_n cfg" "i < length (cfg_saved cfg)" "i < length (rafts cfg)"
    and eq: "cfg_n c = cfg_n cfg" "pers_of c = pers_of cfg" "map persister (raft_objs c) = map persister (raft_objs cfg)"
      "rafts c = (rafts cfg)[i := None]" "pers c = pers cfg @ ps" "cfg_saved c = (cfg_saved cfg)[i := Some (length (pers cfg) + k)]" "k < length ps"
  shows "isolated c"
proof -
  note I = isolatedD [OF iso]
  have len: "length (raft_objs c) = length (raft_objs cfg)" using map_eq_imp_length_eq [OF eq(3)] .
  have per: "persister (raft_objs c ! r) = persister (raft_objs cfg ! r)" if "r < length (raft_objs cfg)" for r
    using that len eq(3) by (metis nth_map)
  show ?thesis
  proof (rule isolatedI)
    show "length (pers_of c) = length (raft_objs c)" using I(1) eq len by simp
    show "pers_of c ! r < length (pers c)" if "r < length (raft_objs c)" for r using I(2) [of r] that eq len by simp
    show "a < length (pers c)" if "j < cfg_n c" "cfg_saved c ! j = Some a" for j a
      using I(3) [of j a] that eq i by (cases "j = i") auto
    show "q = j" if "j < cfg_n c" "cfg_saved c ! j = Some a" "q < cfg_n c" "cfg_saved c ! q = Some a" for j q a
      using I(3) [of j a] I(3) [of q a] I(4) [of j a q] that eq(1,6) i by (cases "j = i"; cases "q = i") auto
    show "rafts c ! j = Some r" if "j < cfg_n c" "cfg_saved c ! j = Some a" "r < length (raft_objs c)" "pers_of c ! r = a" for j a r
      using I(5) [of j a r] I(2) [of r] that eq(1,2,4,6) i len by (cases "j = i") auto
    show "r < length (raft_objs c) \<and> cfg_saved c ! j = Some (pers_of c ! r) \<and> persister (raft_objs c ! r) = pers c ! (pers_of c ! r)"
      if "j < cfg_n c" "rafts c ! j = Some r" for j r
      using I(6) [of j r] I(2) [of r] per [of r] that eq(1,2,4,5,6) i len by (cases "j = i") (auto simp: nth_append)
  qed
qed

lemma isolated_crash:
  assumes "isolated cfg" "sized_cfg cfg" "crash1 i cfg = Done c"
  shows "isolated c"
proof -
  note C = crash1_effect [OF assms(3,2)]
  note I = isolatedD [OF assms(1)]
  have i: "i < length (cfg_saved cfg)" "i < length (rafts cfg)" using C(1) assms(2) by (simp_all add: sized_cfg_def)
  show ?thesis
  proof (cases "cfg_saved cfg ! i")
    case None
    then have "rafts cfg ! i = None" using I(6) [OF C(1)] by (cases "rafts cfg ! i") auto
    then have r: "rafts c = rafts cfg" using C(3) by (metis list_update_id)
    have len: "length (raft_objs c) = length (raft_objs cfg)" using map_eq_imp_length_eq [OF C(5)] .
    have per: "persister (raft_objs c ! r) = persister (raft_objs cfg ! r)" if "r < length (raft_objs cfg)" for r
      using that len C(5) by (metis nth_map)
    note eq = C(2,4) C(6) [OF None, THEN conjunct1] C(6) [OF None, THEN conjunct2] r len
    show ?thesis
    proof (rule isolatedI; unfold eq)
      show "r < length (raft_objs cfg) \<and> cfg_saved cfg ! j = Some (pers_of cfg ! r) \<and> persister (raft_objs c ! r) = pers cfg ! (pers_of cfg ! r)"
        if "j < cfg_n cfg" "rafts cfg ! j = Some r" for j r using I(6) [OF that] per [of r] by simp
    qed (fact I)+
  next
    case (Some a)
    show ?thesis
      by (rule isolated_fresh [OF assms(1) C(1) i C(2,4,5,3), where ps = "[pers cfg ! a, pers cfg ! a]" and k = 1])
        (use C(7) [OF Some] in simp_all)
  qed
qed

lemma stored_crash: "crash1 i cfg = Done c \<Longrightarrow> sized_cfg cfg \<Longrightarrow> stored_for i c = stored_for i cfg"
  using crash1_effect [of i cfg c] by (cases "cfg_saved cfg ! i") (auto simp: stored_for_def sized_cfg_def nth_append)

lemma sized_crash:
  assumes "topology cfg" and "crash1 i cfg = Done c" shows "sized_cfg c"
  using topology_crash [OF assms] topologyD(1) by blast

lemma persister_Make: "Make ps i pst ev = Some rf \<Longrightarrow> persister rf = pst"
  by (auto simp: Make_def readPersist_def zeroRaft_def resetElectionTimer_def Let_def split: option.splits bind_splits if_split_asm goval.splits)

text \<open>What \<open>start1\<close> leaves: a new instance, made from what was stored, with a persister of its own.\<close>

lemma start1_effect:
  assumes iso: "isolated cfg" and top: "topology cfg" and st: "start1 i names ev cfg = Done cfg'"
  shows "isolated cfg' \<and> i < cfg_n cfg \<and> cfg_n cfg' = cfg_n cfg \<and>
    (\<exists>rf. rafts cfg' = (rafts cfg)[i := Some (length (raft_objs cfg))] \<and> length (raft_objs cfg') = Suc (length (raft_objs cfg)) \<and>
      raft_objs cfg' ! length (raft_objs cfg) = rf \<and> Make names i (stored_for i cfg) ev = Some rf \<and> stored_for i cfg' = stored_for i cfg)"
proof (rule start1_elim [OF st])
  fix c d f rf
  assume c: "crash1 i cfg = Done c" and d: "each (make_end names) [0..<cfg_n c] (c\<lparr>endnames := (endnames c)[i := Some names]\<rparr>) = Done d"
    and f: "f = new_saved i (case cfg_saved d ! i of Some a \<Rightarrow> Copy (pers d ! a) | None \<Rightarrow> MakePersister) d"
    and rf: "Make names i (pers f ! length (pers d)) ev = Some rf"
    and cfg': "cfg' = f\<lparr>raft_objs := raft_objs f @ [rf], pers_of := pers_of f @ [length (pers d)], rafts := (rafts f)[i := Some (length (raft_objs f))],
       cfg_net := AddServer i (length (store (cfg_net f))) (snd (new_server (AddService (MakeService ''Raft'' (length (raft_objs f)) raft_methods) MakeServer) (cfg_net f)))\<rparr>"
  have sz: "sized_cfg cfg" "sized_cfg c" using topologyD(1) [OF top] sized_crash [OF top c] by simp_all
  note C = crash1_effect [OF c sz(1)]
  have ic: "isolated c" by (rule isolated_crash [OF iso sz(1) c])
  have n: "cfg_n c = cfg_n cfg" "i < cfg_n c" using C(1,2) by simp_all
  have len: "i < length (cfg_saved c)" "i < length (rafts c)" using n sz(2) by (simp_all add: sized_cfg_def)
  have none: "rafts c ! i = None" using C(1,3) sz(1) by (simp add: sized_cfg_def)
  have en: "cfg_n d = cfg_n c" "rafts d = rafts c" "cfg_saved d = cfg_saved c" "pers d = pers c" "pers_of d = pers_of c" "raft_objs d = raft_objs c"
    by (subst make_ends(1) [OF d], simp)+
  have sto: "(case cfg_saved d ! i of Some a \<Rightarrow> Copy (pers d ! a) | None \<Rightarrow> MakePersister) = stored_for i cfg"
    using stored_crash [OF c sz(1)] by (simp add: stored_for_def en split: option.splits)
  have ff: "cfg_n f = cfg_n c" "rafts f = rafts c" "pers_of f = pers_of c" "raft_objs f = raft_objs c" "pers f = pers c @ [stored_for i cfg]"
      "cfg_saved f = (cfg_saved c)[i := Some (length (pers c))]"
    using sto by (simp_all add: f en)
  have lo: "length (raft_objs c) = length (raft_objs cfg)" using map_eq_imp_length_eq [OF C(5)] .
  have rf': "Make names i (stored_for i cfg) ev = Some rf" using rf by (simp add: ff en)
  have fi: "isolated f"
  proof (rule isolated_fresh [OF ic n(2) len ff(1,3), where ps = "[stored_for i cfg]" and k = 0])
    show "rafts f = (rafts c)[i := None]" using none ff(2) by (metis list_update_id)
  qed (simp_all add: ff)
  note I = isolatedD [OF fi]
  have pf: "length (pers_of c) = length (raft_objs c)" using I(1) by (simp add: ff)
  have "isolated cfg'"
  proof (rule isolatedI)
    show "length (pers_of cfg') = length (raft_objs cfg')" using pf by (simp add: cfg' ff)
    show "pers_of cfg' ! r < length (pers cfg')" if "r < length (raft_objs cfg')" for r
      using that I(2) [of r] pf by (auto simp: cfg' ff en nth_append less_Suc_eq)
    show "a < length (pers cfg')" if "j < cfg_n cfg'" "cfg_saved cfg' ! j = Some a" for j a
      using that I(3) [of j a] by (simp add: cfg')
    show "q = j" if "j < cfg_n cfg'" "cfg_saved cfg' ! j = Some a" "q < cfg_n cfg'" "cfg_saved cfg' ! q = Some a" for j q a
      using that I(4) [of j a q] by (simp add: cfg')
    show "rafts cfg' ! j = Some r"
      if h: "j < cfg_n cfg'" "cfg_saved cfg' ! j = Some a" "r < length (raft_objs cfg')" "pers_of cfg' ! r = a" for j a r
    proof (cases "r = length (raft_objs c)")
      case True
      then have "a = length (pers c)" using h(4) pf by (auto simp: cfg' ff en nth_append)
      then have "j = i" using h(1,2) I(4) [of j a i] n len by (simp add: cfg' ff)
      then show ?thesis using True len by (simp add: cfg' ff)
    next
      case False
      then have r: "r < length (raft_objs f)" "pers_of f ! r = a" using h(3,4) pf by (auto simp: cfg' ff nth_append less_Suc_eq)
      then have "rafts f ! j = Some r" using h(1,2) I(5) [of j a r] by (simp add: cfg')
      then show ?thesis using none by (cases "j = i") (simp_all add: cfg' ff)
    qed
    show "r < length (raft_objs cfg') \<and> cfg_saved cfg' ! j = Some (pers_of cfg' ! r) \<and> persister (raft_objs cfg' ! r) = pers cfg' ! (pers_of cfg' ! r)"
      if h: "j < cfg_n cfg'" "rafts cfg' ! j = Some r" for j r
    proof (cases "j = i")
      case True
      then have "r = length (raft_objs c)" using h(2) len by (simp add: cfg' ff)
      then show ?thesis using True len pf persister_Make [OF rf'] by (simp add: cfg' ff en nth_append)
    next
      case False
      then have "rafts f ! j = Some r" "j < cfg_n f" using h by (simp_all add: cfg')
      from I(6) [OF this(2,1)] show ?thesis using pf by (simp add: cfg' ff nth_append)
    qed
  qed
  moreover have "cfg_saved cfg' ! i = Some (length (pers c))" "pers cfg' ! length (pers c) = stored_for i cfg"
    using len by (simp_all add: cfg' ff)
  then have "stored_for i cfg' = stored_for i cfg" by (simp add: stored_for_def [of i cfg'])
  moreover have "rafts cfg' = (rafts cfg)[i := Some (length (raft_objs cfg))]" by (simp add: cfg' ff lo C(3))
  ultimately show ?thesis using rf' lo n by (simp add: cfg' ff nth_append)
qed

lemma isolated_write:
  assumes iso: "isolated cfg" and r: "r < length (raft_objs cfg)"
  shows "isolated (raft_write r rf cfg)"
proof -
  note I = isolatedD [OF iso]
  let ?c = "raft_write r rf cfg"
  have eq: "cfg_n ?c = cfg_n cfg" "rafts ?c = rafts cfg" "cfg_saved ?c = cfg_saved cfg" "pers_of ?c = pers_of cfg"
      "length (raft_objs ?c) = length (raft_objs cfg)" "length (pers ?c) = length (pers cfg)"
    by (simp_all add: raft_write_def)
  show ?thesis
  proof (rule isolatedI; unfold eq)
    show "p < length (raft_objs cfg) \<and> cfg_saved cfg ! j = Some (pers_of cfg ! p) \<and> persister (raft_objs ?c ! p) = pers ?c ! (pers_of cfg ! p)"
      if h: "j < cfg_n cfg" "rafts cfg ! j = Some p" for j p
    proof -
      note P = I(6) [OF h]
      have "pers_of cfg ! p \<noteq> pers_of cfg ! r" if "p \<noteq> r"
        using I(5) [OF h(1), of "pers_of cfg ! p" r] P r h(2) that by auto
      then show ?thesis using P r I(2) [OF r] by (cases "p = r") (simp_all add: raft_write_def)
    qed
  qed (fact I)+
qed

text \<open>A write of an instance that is not the current one of a server changes nothing that is stored
  for it.\<close>

lemma stored_write:
  assumes iso: "isolated cfg" and r: "r < length (raft_objs cfg)" and j: "j < cfg_n cfg"
  shows "stored_for j (raft_write r rf cfg) = (if rafts cfg ! j = Some r then persister rf else stored_for j cfg)"
proof -
  note I = isolatedD [OF iso]
  show ?thesis
  proof (cases "rafts cfg ! j = Some r")
    case True
    then show ?thesis using I(6) [OF j True] I(2) [OF r] by (simp add: stored_for_def raft_write_def)
  next
    case False
    then have "pers_of cfg ! r \<noteq> a" if "cfg_saved cfg ! j = Some a" for a using I(5) [OF j that r] by blast
    then show ?thesis using False by (auto simp: stored_for_def raft_write_def split: option.splits)
  qed
qed


lemma isolated_step:
  assumes iso: "isolated cfg" and top: "topology cfg" and st: "cfg_step cfg e cfg'"
  shows "isolated cfg'"
  using st
proof (cases rule: cfg_step_elim)
  case (connect i) then show ?thesis using connect_flags(2) [OF _ topologyD(1) [OF top], of i cfg'] by (intro isolated_same [OF iso]) simp_all
next
  case (disconnect i)
  then show ?thesis using disconnect_flags(2) [OF _ topologyD(1) [OF top], of i cfg'] by (intro isolated_same [OF iso]) simp_all
next
  case quiet then show ?thesis by (intro isolated_same [OF iso] quietD)
next
  case (raft c r rf)
  have "isolated c" by (intro isolated_same [OF iso] quietD raft(1))
  moreover from this have "r < length (raft_objs c)" using isolatedD(6) raft(2) by blast
  ultimately show ?thesis using isolated_write raft(3) by blast
qed (use isolated_crash [OF iso topologyD(1) [OF top]] start1_effect [OF iso top] in blast)+

lemma isolated_blank: "isolated (blank n)"
  by (simp add: isolated_def blank_def)

section \<open>Who serves\<close>

text \<open>The network has a server for exactly those that have an instance, and it leads to that instance.\<close>

definition serves :: "config \<Rightarrow> bool" where
  "serves cfg \<longleftrightarrow> (\<forall>j < cfg_n cfg.
     case rafts cfg ! j of
       Some r \<Rightarrow> \<exists>a. rpc_servers (cfg_net cfg) j = Some a \<and> a < length (store (cfg_net cfg)) \<and>
         services (store (cfg_net cfg) ! a) = [''Raft'' \<mapsto> MakeService ''Raft'' r raft_methods]
     | None \<Rightarrow> rpc_servers (cfg_net cfg) j = None)"

lemma serves_same:
  assumes "serves cfg" and eq: "cfg_n c = cfg_n cfg" "rafts c = rafts cfg" "rpc_servers (cfg_net c) = rpc_servers (cfg_net cfg)"
    and st: "map services (store (cfg_net c)) = map services (store (cfg_net cfg))"
  shows "serves c"
proof -
  have len: "length (store (cfg_net c)) = length (store (cfg_net cfg))" using map_eq_imp_length_eq [OF st] .
  have "services (store (cfg_net c) ! a) = services (store (cfg_net cfg) ! a)" if "a < length (store (cfg_net cfg))" for a
    using that len st by (metis nth_map)
  then show ?thesis using assms(1) unfolding serves_def eq len by (auto split: option.splits) metis
qed

lemma crash1_net:
  assumes "crash1 i cfg = Done c" and "sized_cfg cfg"
  shows "rpc_servers (cfg_net c) = (rpc_servers (cfg_net cfg))(i := None)" "store (cfg_net c) = store (cfg_net cfg)"
proof -
  obtain c0 c1 c2 c3 where c: "disconnect i cfg = Done c0" and s: "c1 = c0\<lparr>cfg_net := DeleteServer i (cfg_net c0)\<rparr>"
    "c2 = (case cfg_saved c1 ! i of Some a \<Rightarrow> new_saved i (Copy (pers c1 ! a)) c1 | None \<Rightarrow> c1)"
    "c3 = (case rafts c2 ! i of
        Some r \<Rightarrow> c2\<lparr>raft_objs := (raft_objs c2)[r := Kill (raft_objs c2 ! r)], rafts := (rafts c2)[i := None]\<rparr> | None \<Rightarrow> c2)"
    "c = (case cfg_saved c3 ! i of Some a \<Rightarrow> new_saved i (SaveStateAndSnapshot (ReadRaftState (pers c3 ! a)) (ReadSnapshot (pers c3 ! a))
        \<lparr>raftstate = [], snapshot = []\<rparr>) c3 | None \<Rightarrow> c3)"
    by (rule crash1_elim [OF assms(1)])
  have "cfg_net c = cfg_net c1" by (simp add: s(2,3,4) split: option.split)
  then show "rpc_servers (cfg_net c) = (rpc_servers (cfg_net cfg))(i := None)" "store (cfg_net c) = store (cfg_net cfg)"
    by (simp_all add: s(1) disconnect_flags(2) [OF c assms(2)] DeleteServer_def flagged_def)
qed

lemma serves_crash:
  assumes "serves cfg" and sz: "sized_cfg cfg" and c: "crash1 i cfg = Done c"
  shows "serves c"
  unfolding serves_def
proof (intro allI impI)
  fix j assume "j < cfg_n c"
  note C = crash1_effect [OF c sz]
  have "j < cfg_n cfg" "i < length (rafts cfg)" using \<open>j < cfg_n c\<close> C(1,2) sz by (simp_all add: sized_cfg_def)
  with assms(1) [unfolded serves_def, rule_format, of j] show "case rafts c ! j of
       Some r \<Rightarrow> \<exists>a. rpc_servers (cfg_net c) j = Some a \<and> a < length (store (cfg_net c)) \<and>
         services (store (cfg_net c) ! a) = [''Raft'' \<mapsto> MakeService ''Raft'' r raft_methods]
     | None \<Rightarrow> rpc_servers (cfg_net c) j = None"
    unfolding crash1_net [OF c sz] C(3) by (cases "j = i"; cases "rafts cfg ! j") simp_all
qed

lemma serves_start:
  assumes sv: "serves cfg" and top: "topology cfg" and st: "start1 i names ev cfg = Done cfg'"
  shows "serves cfg'"
proof (rule start1_elim [OF st])
  fix c d f rf
  assume c: "crash1 i cfg = Done c" and d: "each (make_end names) [0..<cfg_n c] (c\<lparr>endnames := (endnames c)[i := Some names]\<rparr>) = Done d"
    and f: "f = new_saved i (case cfg_saved d ! i of Some a \<Rightarrow> Copy (pers d ! a) | None \<Rightarrow> MakePersister) d"
    and cfg': "cfg' = f\<lparr>raft_objs := raft_objs f @ [rf], pers_of := pers_of f @ [length (pers d)], rafts := (rafts f)[i := Some (length (raft_objs f))],
       cfg_net := AddServer i (length (store (cfg_net f))) (snd (new_server (AddService (MakeService ''Raft'' (length (raft_objs f)) raft_methods) MakeServer) (cfg_net f)))\<rparr>"
  have sz: "sized_cfg cfg" "sized_cfg c" using topologyD(1) [OF top] sized_crash [OF top c] by simp_all
  have sc: "serves c" by (rule serves_crash [OF sv sz(1) c])
  have en: "cfg_n d = cfg_n c" "rafts d = rafts c" by (subst make_ends(1) [OF d], simp)+
  note E = make_ends(8,9) [OF d]
  have i: "i < length (rafts c)" using crash1_effect(1,2) [OF c sz(1)] sz(2) by (simp add: sized_cfg_def)
  show ?thesis
    unfolding serves_def
  proof (intro allI impI)
    fix j assume "j < cfg_n cfg'"
    then have j: "j < cfg_n c" by (simp add: cfg' f en)
    note S = sc [unfolded serves_def, rule_format, OF j]
    show "case rafts cfg' ! j of
       Some r \<Rightarrow> \<exists>a. rpc_servers (cfg_net cfg') j = Some a \<and> a < length (store (cfg_net cfg')) \<and>
         services (store (cfg_net cfg') ! a) = [''Raft'' \<mapsto> MakeService ''Raft'' r raft_methods]
     | None \<Rightarrow> rpc_servers (cfg_net cfg') j = None"
    proof (cases "j = i")
      case True
      then show ?thesis using i by (simp add: cfg' f en new_server_def AddServer_def AddService_def MakeServer_def MakeService_def)
    next
      case False
      then show ?thesis using S by (auto simp: cfg' f en new_server_def AddServer_def E nth_append split: option.splits)
    qed
  qed
qed

lemma serves_step:
  assumes sv: "serves cfg" and top: "topology cfg" and st: "cfg_step cfg e cfg'"
  shows "serves cfg'"
  using st
proof (cases rule: cfg_step_elim)
  case (connect i)
  then show ?thesis using connect_flags(2) [OF _ topologyD(1) [OF top], of i cfg'] by (intro serves_same [OF sv]) (simp_all add: flagged_def)
next
  case (disconnect i)
  then show ?thesis using disconnect_flags(2) [OF _ topologyD(1) [OF top], of i cfg']
    by (intro serves_same [OF sv]) (simp_all add: flagged_def)
next
  case quiet then show ?thesis by (intro serves_same [OF sv] quietD)
next
  case (raft c r rf)
  have "serves c" by (intro serves_same [OF sv] quietD raft(1))
  then show ?thesis unfolding raft(3) by (rule serves_same) (simp_all add: raft_write_def)
qed (use serves_crash [OF sv topologyD(1) [OF top]] serves_start [OF sv top] in blast)+

interpretation tp: step_invariant "cfg_initial n" cfg_step "\<lambda>e. True" "\<lambda>cfg. topology cfg \<and> isolated cfg \<and> serves cfg" for n
proof (unfold_locales, goal_cases)
  case (1 cfg)
  then show ?case by (simp add: cfg_initial_def topology_blank isolated_blank) (simp add: serves_def blank_def MakeNetwork_def)
next
  case 2
  then show ?case using topology_step isolated_step serves_step by blast
qed

end
