(* ===== verification/Config_Tester.thy ===== *)
theory Config_Tester
  imports Config_Checks
begin

text \<open>
  What the checks of \<open>raft/config.go\<close> decide, in terms of what was delivered and what the servers
  answered: specifications of the appliers, of \<open>nCommitted\<close> and of \<open>checkOneLeader\<close>.
\<close>

section \<open>What the services accept\<close>

fun deliveries :: "(nat \<times> ApplyMsg) list \<Rightarrow> config \<Rightarrow> config outcome" where
  \<comment> \<open>the messages of all servers in the order their services lock \<open>cfg.mu\<close>\<close>
  "deliveries [] cfg = Done cfg"
| "deliveries ((i, m) # ms) cfg = and_then (applier i m cfg) (deliveries ms)"

definition agreed :: "(nat \<times> ApplyMsg) list \<Rightarrow> bool" where
  "agreed ms \<longleftrightarrow> (\<forall>(i, m) \<in> set ms. \<forall>(j, m') \<in> set ms.
     CommandValid m \<and> CommandValid m' \<and> CommandIndex m = CommandIndex m' \<longrightarrow> am_Command m = am_Command m')"

fun in_order_after :: "(nat \<times> ApplyMsg) list \<Rightarrow> (nat \<times> ApplyMsg) list \<Rightarrow> bool" where
  "in_order_after seen [] \<longleftrightarrow> True"
| "in_order_after seen ((i, m) # ms) \<longleftrightarrow>
     (CommandValid m \<and> CommandIndex m > 1 \<longrightarrow>
        (\<exists>(j, m') \<in> set seen. j = i \<and> CommandValid m' \<and> CommandIndex m' = CommandIndex m - 1)) \<and>
     in_order_after (seen @ [(i, m)]) ms"

definition in_order :: "(nat \<times> ApplyMsg) list \<Rightarrow> bool" where
  "in_order ms \<longleftrightarrow> in_order_after [] ms"

text \<open>A service has received this.\<close>

definition received :: "(nat \<times> ApplyMsg) list \<Rightarrow> nat \<Rightarrow> int \<Rightarrow> iface \<Rightarrow> bool" where
  "received ms i k v \<longleftrightarrow> (\<exists>m. (i, m) \<in> set ms \<and> CommandValid m \<and> CommandIndex m = k \<and> am_Command m = v)"

lemma deliveries_snoc: "deliveries (ms @ [(i, m)]) cfg = and_then (deliveries ms cfg) (applier i m)"
proof (induction ms arbitrary: cfg)
  case Nil
  show ?case by (cases "applier i m cfg") simp_all
next
  case (Cons x ms)
  then show ?case by (cases x; cases "applier (fst x) (snd x) cfg") simp_all
qed

lemma agreed_snoc:
  "agreed (ms @ [(i, m)]) \<longleftrightarrow> agreed ms \<and> (CommandValid m \<longrightarrow> (\<forall>j v. received ms j (CommandIndex m) v \<longrightarrow> v = am_Command m))"
  unfolding agreed_def received_def by auto metis+

lemma in_order_after_snoc:
  "in_order_after seen (ms @ [(i, m)]) \<longleftrightarrow>
     in_order_after seen ms \<and> (CommandValid m \<and> CommandIndex m > 1 \<longrightarrow> (\<exists>v. received (seen @ ms) i (CommandIndex m - 1) v))"
  by (induction seen ms rule: in_order_after.induct) (auto simp: received_def)

lemma in_order_snoc:
  "in_order (ms @ [(i, m)]) \<longleftrightarrow>
     in_order ms \<and> (CommandValid m \<and> CommandIndex m > 1 \<longrightarrow> (\<exists>v. received ms i (CommandIndex m - 1) v))"
  by (simp add: in_order_def in_order_after_snoc)

lemma received_snoc:
  "received (ms @ [(i, m)]) j k v \<longleftrightarrow> received ms j k v \<or> j = i \<and> CommandValid m \<and> CommandIndex m = k \<and> am_Command m = v"
  unfolding received_def by auto

lemma checkLogs_loop_None:
  "checkLogs_loop i m cfg js err = None \<longleftrightarrow>
     err = None \<and> (\<forall>j \<in> set js. \<forall>old. (logs cfg ! j) (CommandIndex m) = Some old \<longrightarrow> old = am_Command m)"
  by (induction js arbitrary: err) (auto split: option.splits)

text \<open>One message, in terms of the logs.\<close>

lemma applier_Done:
  assumes "CommandValid m"
  shows "applier i m cfg = Done cfg' \<longleftrightarrow>
    (\<forall>j < length (logs cfg). \<forall>old. (logs cfg ! j) (CommandIndex m) = Some old \<longrightarrow> old = am_Command m) \<and>
    (CommandIndex m > 1 \<longrightarrow> (logs cfg ! i) (CommandIndex m - 1) \<noteq> None) \<and>
    cfg' = (let c = cfg\<lparr>logs := (logs cfg)[i := (logs cfg ! i)(CommandIndex m \<mapsto> am_Command m)]\<rparr>
            in if CommandIndex m > maxIndex c then c\<lparr>maxIndex := CommandIndex m\<rparr> else c)"
  using assms checkLogs_loop_None [of i m cfg "[0..<length (logs cfg)]" None]
  by (cases "checkLogs_loop i m cfg [0..<length (logs cfg)] None") (auto simp: applier_def checkLogs_def report_error_def Let_def)

text \<open>The logs hold what was received.\<close>

definition records :: "nat \<Rightarrow> config \<Rightarrow> (nat \<times> ApplyMsg) list \<Rightarrow> config \<Rightarrow> bool" where
  "records n cfg0 ms cfg \<longleftrightarrow> length (logs cfg) = n \<and> rafts cfg = rafts cfg0 \<and> applyErr cfg = applyErr cfg0 \<and>
     (\<forall>i < n. \<forall>k v. (logs cfg ! i) k = Some v \<longleftrightarrow> received ms i k v)"

lemma deliveries_spec:
  assumes "logs cfg = replicate n Map.empty" and "\<forall>(i, m) \<in> set ms. i < n"
  shows "(\<exists>c. deliveries ms cfg = Done c \<and> agreed ms \<and> in_order ms \<and> records n cfg ms c) \<or>
    (\<forall>c. deliveries ms cfg \<noteq> Done c) \<and> \<not> (agreed ms \<and> in_order ms)"
  using assms(2)
proof (induction ms rule: rev_induct)
  case Nil
  then show ?case using assms(1) by (simp add: agreed_def in_order_def records_def received_def)
next
  case (snoc x ms)
  obtain i m where x: "x = (i, m)" by (cases x)
  have i: "i < n" and IH: "(\<exists>c. deliveries ms cfg = Done c \<and> agreed ms \<and> in_order ms \<and> records n cfg ms c) \<or>
    (\<forall>c. deliveries ms cfg \<noteq> Done c) \<and> \<not> (agreed ms \<and> in_order ms)"
    using snoc by (auto simp: x)
  show ?case
  proof (cases "\<exists>c. deliveries ms cfg = Done c")
    case False
    then have "\<not> (agreed (ms @ [x]) \<and> in_order (ms @ [x]))" "\<forall>c. deliveries (ms @ [x]) cfg \<noteq> Done c"
      using IH by (auto simp: x agreed_snoc in_order_snoc deliveries_snoc and_then_Done)
    then show ?thesis by blast
  next
    case True
    then obtain c where c: "deliveries ms cfg = Done c" "agreed ms" "in_order ms" "records n cfg ms c" using IH by blast
    note rec = c(4) [unfolded records_def]
    have d: "deliveries (ms @ [x]) cfg = applier i m c" by (simp add: x deliveries_snoc c(1))
    show ?thesis
    proof (cases "CommandValid m")
      case False
      then show ?thesis using c unfolding d by (simp add: x applier_def agreed_snoc in_order_snoc records_def received_snoc)
    next
      case True
      have a: "(\<forall>j < length (logs c). \<forall>old. (logs c ! j) (CommandIndex m) = Some old \<longrightarrow> old = am_Command m) \<longleftrightarrow> agreed (ms @ [x])"
        using rec c(2) snoc.prems True unfolding x agreed_snoc received_def by fastforce
      have o: "(CommandIndex m > 1 \<longrightarrow> (logs c ! i) (CommandIndex m - 1) \<noteq> None) \<longleftrightarrow> in_order (ms @ [x])"
        using rec c(3) i True unfolding x in_order_snoc by auto
      show ?thesis
      proof (cases "agreed (ms @ [x]) \<and> in_order (ms @ [x])")
        case False
        then show ?thesis unfolding d applier_Done [OF True] a o by blast
      next
        case ao: True
        let ?c = "c\<lparr>logs := (logs c)[i := (logs c ! i)(CommandIndex m \<mapsto> am_Command m)]\<rparr>"
        let ?d = "if CommandIndex m > maxIndex ?c then ?c\<lparr>maxIndex := CommandIndex m\<rparr> else ?c"
        have "applier i m c = Done ?d" unfolding applier_Done [OF True] a o Let_def using ao by blast
        moreover have "records n cfg (ms @ [x]) ?d"
        proof -
          have "received ms j (CommandIndex m) v \<Longrightarrow> v = am_Command m" for j v using ao True unfolding x agreed_snoc by blast
          then show ?thesis using rec i True by (auto simp: records_def x received_snoc nth_list_update)
        qed
        ultimately show ?thesis using ao d by auto
      qed
    qed
  qed
qed

text \<open>\<open>nCommitted\<close> counts the services that have received the index.\<close>

lemma nCommitted_loop_spec:
  assumes "\<forall>i \<in> set is. applyErr cfg ! i = []" and "\<forall>i \<in> set is. \<forall>v. (logs cfg ! i) k = Some v \<longrightarrow> v = w"
    and "count > 0 \<longrightarrow> cmd = w"
  shows "nCommitted_loop k cfg is (count, cmd) =
    Done (count + length (filter (\<lambda>i. (logs cfg ! i) k \<noteq> None) is), if \<exists>i \<in> set is. (logs cfg ! i) k \<noteq> None then w else cmd)"
  using assms
proof (induction "is" arbitrary: count cmd)
  case Nil
  then show ?case by simp
next
  case (Cons i "is")
  show ?case
  proof (cases "(logs cfg ! i) k")
    case None
    then show ?thesis using Cons by simp
  next
    case (Some v)
    then have "v = w" using Cons.prems(2) by simp
    then show ?thesis using Cons Some by auto
  qed
qed

lemma length_filter_upt: "length (filter P [0..<n]) = card {i. i < n \<and> P i}"
proof -
  have "length (filter P [0..<n]) = card (set (filter P [0..<n]))" by (rule distinct_card [symmetric]) simp
  also have "set (filter P [0..<n]) = {i. i < n \<and> P i}" by auto
  finally show ?thesis .
qed

lemma upto_split:
  assumes "xs @ y # ys = [1..k]" and "y > 1"
  shows "y - 1 \<in> set xs"
proof -
  have at: "(xs @ y # ys) ! p = 1 + int p" if "p < length (xs @ y # ys)" for p
    using that unfolding assms(1) by (subst nth_upto) simp_all
  have y: "y = 1 + int (length xs)" using at [of "length xs"] by simp
  then have "xs ! (length xs - 1) = y - 1" "length xs - 1 < length xs"
    using at [of "length xs - 1"] assms(2) by (simp_all add: nth_append of_nat_diff)
  then show ?thesis by (metis nth_mem)
qed

text \<open>If every server's messages are numbered 1, 2, 3, ..., every interleaving of them is in order.\<close>

lemma in_order_after_numbered:
  assumes "\<And>x. x \<in> set (seen @ ms) \<Longrightarrow> CommandValid (snd x)"
    and "\<And>i m. (i, m) \<in> set ms \<Longrightarrow> \<exists>k ys. map (\<lambda>x. CommandIndex (snd x)) (filter (\<lambda>x. fst x = i) (seen @ ms)) @ ys = [1..k]"
  shows "in_order_after seen ms"
  using assms
proof (induction seen ms rule: in_order_after.induct)
  case (2 seen i m ms)
  let ?f = "\<lambda>xs. map (\<lambda>x. CommandIndex (snd x)) (filter (\<lambda>x. fst x = i) xs)"
  have "in_order_after (seen @ [(i, m)]) ms"
  proof (rule 2(1))
    have eq: "(seen @ [(i, m)]) @ ms = seen @ (i, m) # ms" by simp
    show "CommandValid (snd x)" if "x \<in> set ((seen @ [(i, m)]) @ ms)" for x using 2(2) that unfolding eq .
    show "\<exists>k ys. map (\<lambda>x. CommandIndex (snd x)) (filter (\<lambda>x. fst x = j) ((seen @ [(i, m)]) @ ms)) @ ys = [1..k]"
      if "(j, m') \<in> set ms" for j m' using 2(3) [of j m'] that unfolding eq by simp
  qed
  moreover have "\<exists>(j, m') \<in> set seen. j = i \<and> CommandValid m' \<and> CommandIndex m' = CommandIndex m - 1" if "CommandIndex m > 1"
  proof -
    obtain k ys where "?f (seen @ (i, m) # ms) @ ys = [1..k]" using 2(3) [of i m] by auto
    then have "?f seen @ CommandIndex m # (?f ms @ ys) = [1..k]" by simp
    then have "CommandIndex m - 1 \<in> set (?f seen)" using upto_split that by blast
    then show ?thesis using 2(2) by fastforce
  qed
  ultimately show ?case by simp
qed simp

section \<open>Leaders\<close>

abbreviation seen_leader :: "config \<Rightarrow> (nat \<Rightarrow> int \<times> bool) \<Rightarrow> nat \<Rightarrow> bool" where
  "seen_leader cfg st i \<equiv> connected cfg ! i \<and> snd (st i)"

lemma map_of_add_leader:
  "map_of (add_leader t i ls) t' = (if t' = t then Some (case map_of ls t of Some is \<Rightarrow> is @ [i] | None \<Rightarrow> [i]) else map_of ls t')"
  by (induction ls) auto

lemma keys_add_leader: "map fst (add_leader t i ls) = (if t \<in> set (map fst ls) then map fst ls else map fst ls @ [t])"
  by (induction ls) (auto simp: rev_image_eqI)

lemma distinct_add_leader: "distinct (map fst ls) \<Longrightarrow> distinct (map fst (add_leader t i ls))"
  unfolding keys_add_leader by auto

lemma singleton_list: "distinct xs \<Longrightarrow> set xs = {i} \<Longrightarrow> xs = [i]"
  by (cases xs) (auto dest: subset_singletonD)

text \<open>The leaders of a term, in the order they were asked.\<close>

abbreviation of_term :: "config \<Rightarrow> (nat \<Rightarrow> int \<times> bool) \<Rightarrow> int \<Rightarrow> nat list \<Rightarrow> nat list" where
  "of_term cfg st t \<equiv> filter (\<lambda>i. seen_leader cfg st i \<and> fst (st i) = t)"

fun collected :: "config \<Rightarrow> (nat \<Rightarrow> int \<times> bool) \<Rightarrow> nat list \<Rightarrow> (int \<times> nat list) list \<Rightarrow> (int \<times> nat list) list" where
  "collected cfg st [] ls = ls"
| "collected cfg st (i # is) ls = collected cfg st is (if seen_leader cfg st i then add_leader (fst (st i)) i ls else ls)"

lemma collect_leaders_collected:
  "\<forall>i \<in> set is. connected cfg ! i \<longrightarrow> rafts cfg ! i \<noteq> None \<Longrightarrow> collect_leaders cfg st is ls = Done (collected cfg st is ls)"
  by (induction "is" arbitrary: ls) (auto split: prod.split)

lemma map_of_collected:
  "map_of (collected cfg st is ls) t =
     (if of_term cfg st t is = [] then map_of ls t
      else Some (case map_of ls t of Some xs \<Rightarrow> xs @ of_term cfg st t is | None \<Rightarrow> of_term cfg st t is))"
  by (induction "is" arbitrary: ls) (auto simp: map_of_add_leader split: option.splits prod.splits)

lemma distinct_collected: "distinct (map fst ls) \<Longrightarrow> distinct (map fst (collected cfg st is ls))"
  by (induction "is" arbitrary: ls) (auto simp: distinct_add_leader split: prod.splits)

lemma last_term_Done:
  assumes "\<forall>(t, xs) \<in> set ls. length xs \<le> 1"
  shows "\<exists>t. last_term ls m = Done t \<and> m \<le> t \<and> (\<forall>x \<in> set ls. fst x \<le> t) \<and> (t = m \<or> t \<in> fst ` set ls)"
  using assms
proof (induction ls arbitrary: m)
  case (Cons x ls)
  obtain t xs where x: "x = (t, xs)" by (cases x)
  obtain u where u: "last_term ls (if t > m then t else m) = Done u" "(if t > m then t else m) \<le> u" "\<forall>x \<in> set ls. fst x \<le> u"
    "u = (if t > m then t else m) \<or> u \<in> fst ` set ls"
    using Cons.IH [of "if t > m then t else m"] Cons.prems by auto
  show ?case using u Cons.prems by (auto simp: x split: if_split_asm)
qed simp

text \<open>One attempt, when no two of the leaders have the same term: it finds none exactly if there is
  none, and else the one with the greatest term.\<close>

lemma checkOneLeader_try_spec:
  assumes uniq: "\<And>i j. i < cfg_n cfg \<Longrightarrow> j < cfg_n cfg \<Longrightarrow> seen_leader cfg st i \<Longrightarrow> seen_leader cfg st j \<Longrightarrow>
      fst (st i) = fst (st j) \<Longrightarrow> i = j"
    and pos: "\<And>i. i < cfg_n cfg \<Longrightarrow> seen_leader cfg st i \<Longrightarrow> 0 \<le> fst (st i)"
    and alive: "\<And>i. i < cfg_n cfg \<Longrightarrow> connected cfg ! i \<Longrightarrow> rafts cfg ! i \<noteq> None"
  shows "(checkOneLeader_try cfg st = Done None \<and> (\<forall>i < cfg_n cfg. \<not> seen_leader cfg st i)) \<or>
    (\<exists>i < cfg_n cfg. checkOneLeader_try cfg st = Done (Some i) \<and> seen_leader cfg st i \<and>
      (\<forall>j < cfg_n cfg. seen_leader cfg st j \<longrightarrow> j = i \<or> fst (st j) < fst (st i)))"
proof -
  define ls where "ls = collected cfg st [0..<cfg_n cfg] []"
  let ?o = "\<lambda>t. of_term cfg st t [0..<cfg_n cfg]"
  have m: "map_of ls t = (if ?o t = [] then None else Some (?o t))" for t
    by (simp add: ls_def map_of_collected)
  have dist: "distinct (map fst ls)" by (simp add: ls_def distinct_collected)
  have mem: "(t, xs) \<in> set ls \<longleftrightarrow> xs = ?o t \<and> xs \<noteq> []" for t xs
    using map_of_eq_Some_iff [OF dist, of t xs] m [of t] by (auto split: if_split_asm)
  have one: "?o (fst (st i)) = [i]" if i: "i < cfg_n cfg" "seen_leader cfg st i" for i
  proof -
    have "j \<in> set (?o (fst (st i))) \<longleftrightarrow> j = i" for j using uniq [of j i] i by auto
    then have set: "set (?o (fst (st i))) = {i}" by blast
    show ?thesis by (rule singleton_list [OF _ set]) simp
  qed
  have small: "\<forall>(t, xs) \<in> set ls. length xs \<le> 1"
  proof clarify
    fix t xs assume "(t, xs) \<in> set ls"
    then have xs: "xs = ?o t" "xs \<noteq> []" using mem by auto
    then have "hd xs \<in> set (?o t)" by (metis hd_in_set)
    then have "?o t = [hd xs]" using one [of "hd xs"] by auto
    then have "xs = [hd xs]" by (simp only: xs(1) [symmetric])
    then show "length xs \<le> 1" by (metis length_Cons list.size(3) One_nat_def order_refl)
  qed
  obtain t where t: "last_term ls (-1) = Done t" "\<forall>x \<in> set ls. fst x \<le> t" "t = -1 \<or> t \<in> fst ` set ls"
    using last_term_Done [OF small] by blast
  have att: "checkOneLeader_try cfg st = (if ls \<noteq> [] then (case map_of ls t of Some (i # _) \<Rightarrow> Done (Some i) | _ \<Rightarrow> Panic) else Done None)"
    using collect_leaders_collected [of "[0..<cfg_n cfg]" cfg st "[]"] alive by (simp add: checkOneLeader_try_def ls_def [symmetric] t(1))
  have key: "fst (st i) \<in> fst ` set ls" if "i < cfg_n cfg" "seen_leader cfg st i" for i
    using mem [of "fst (st i)" "[i]"] one [OF that] by force
  show ?thesis
  proof (cases "ls = []")
    case True
    then show ?thesis using att key by auto
  next
    case False
    then obtain t' xs where "(t', xs) \<in> set ls" by (cases ls) auto
    then have "xs = ?o t'" "xs \<noteq> []" using mem by auto
    then have "hd xs \<in> set (?o t')" by (metis hd_in_set)
    then have "0 \<le> t'" using pos [of "hd xs"] by auto
    moreover have "t' \<le> t" using t(2) \<open>(t', xs) \<in> set ls\<close> by fastforce
    ultimately have "t \<in> fst ` set ls" using t(3) by auto
    then have "?o t \<noteq> []" using mem by auto
    then obtain j where j: "j < cfg_n cfg" "seen_leader cfg st j" "fst (st j) = t" by (auto simp: filter_empty_conv)
    have "checkOneLeader_try cfg st = Done (Some j)" using att False m [of t] one [OF j(1,2)] j(3) by simp
    moreover have "k = j \<or> fst (st k) < fst (st j)" if "k < cfg_n cfg" "seen_leader cfg st k" for k
    proof -
      have "fst (st k) \<le> t" using key [OF that] t(2) by auto
      then show ?thesis using uniq [OF that(1) j(1) that(2) j(2)] j(3) by fastforce
    qed
    ultimately show ?thesis using j by blast
  qed
qed

text \<open>An index \<open>one\<close> returns was seen to hold the command on enough servers.\<close>

lemma one_polls_Done:
  "one_polls cmd ex k polls = Done True \<Longrightarrow> \<exists>c \<in> set polls. \<exists>nd. nCommitted k c = Done (nd, cmd) \<and> nd > 0 \<and> nd \<ge> ex"
  by (induction polls) (auto simp: and_then_Done one_agreed_def split: if_split_asm)

lemma one_rounds_Done:
  "one_rounds cmd ex retry final starts index rounds = Done k \<Longrightarrow>
   \<exists>(cfg, ev, polls) \<in> set rounds. \<exists>c \<in> set polls. \<exists>nd. nCommitted k c = Done (nd, cmd) \<and> nd > 0 \<and> nd \<ge> ex"
proof (induction rounds arbitrary: starts index)
  case Nil
  then show ?case by (auto simp: and_then_Done split: if_split_asm)
next
  case (Cons x rounds)
  obtain cfg ev polls where x: "x = (cfg, ev, polls)" by (cases x)
  obtain j st rest where s: "one_start cmd ev (cfg_n cfg) starts cfg = Done (j, st, rest)"
    using Cons.prems by (cases "one_start cmd ev (cfg_n cfg) starts cfg") (auto simp: x)
  have "one_polls cmd ex j polls = Done True \<and> k = j \<or> one_rounds cmd ex retry final st j rounds = Done k"
    using Cons.prems by (cases "one_polls cmd ex j polls") (simp_all add: x s split: if_split_asm)
  then consider "one_polls cmd ex j polls = Done True" "k = j" | "one_rounds cmd ex retry final st j rounds = Done k" by blast
  then show ?case
  proof cases
    case 1
    then show ?thesis using one_polls_Done by (auto simp: x)
  next
    case 2
    then show ?thesis using Cons.IH [OF 2] by auto
  qed
qed

text \<open>A command \<open>wait\<close> returns, other than -1, was committed on enough servers in the end.\<close>

lemma wait_for_Done:
  "wait_for k need startTerm turns final = Done v \<Longrightarrow> v = IInt (-1) \<or> (\<exists>nd. nCommitted k final = Done (nd, v) \<and> nd \<ge> need)"
  by (auto simp: wait_for_def and_then_Done split: if_split_asm)

end
