(* ===== verification/Config_Properties.thy ===== *)
theory Config_Properties
  imports Config_Storage Config_Tester Election_Safety Apply_Order Cluster_Anomalies
begin

text \<open>
  What the harness of \<open>raft/config.go\<close> guarantees and what its checks mean: for its own state under any
  sequence of its operations, and for the clusters of \<open>Raft_Cluster\<close> it watches.
\<close>

section \<open>Runs of the harness\<close>

fun cfg_run :: "cfg_event list \<Rightarrow> config \<Rightarrow> config outcome" where
  "cfg_run [] cfg = Done cfg"
| "cfg_run (e # es) cfg = and_then (cfg_do e cfg) (cfg_run es)"

lemma cfg_run_reach: "reach I cfg_step (\<lambda>e. True) cfg \<Longrightarrow> cfg_run es cfg = Done cfg' \<Longrightarrow> reach I cfg_step (\<lambda>e. True) cfg'"
proof (induction es arbitrary: cfg)
  case (Cons e es)
  then obtain c where c: "cfg_do e cfg = Done c" "cfg_run es c = Done cfg'" by (auto simp: and_then_Done)
  have st: "cfg_step cfg e c" by (simp add: cfg_step_def c(1))
  show ?case by (rule Cons.IH [OF reach_step [OF Cons.prems(1) st] c(2)]) simp
qed simp

text \<open>Two servers, up and connected; then server 1 is cut off.\<close>

definition two_up :: "cfg_event list" where
  "two_up = [CStart 0 [''aa'', ''ab''] early, CStart 1 [''ba'', ''bb''] early, CConnect 0, CConnect 1]"

lemma two_up_run:
  "case cfg_run two_up (blank 2) of
     Done c \<Rightarrow> cfg_n c = 2 \<and> connected c = [True, True] \<and> endnames c = [Some [''aa'', ''ab''], Some [''ba'', ''bb'']] \<and>
       rafts c = [Some 0, Some 1] \<and> reliable (cfg_net c) \<and> length (raft_objs c) = 2
   | _ \<Rightarrow> False"
  by code_simp

lemma two_up_reach:
  obtains c where "reach (cfg_initial 2) cfg_step (\<lambda>e. True) c" "cfg_n c = 2" "connected c = [True, True]"
    "endnames c = [Some [''aa'', ''ab''], Some [''ba'', ''bb'']]" "rafts c = [Some 0, Some 1]" "reliable (cfg_net c)" "length (raft_objs c) = 2"
proof -
  obtain c where c: "cfg_run two_up (blank 2) = Done c" "cfg_n c = 2 \<and> connected c = [True, True] \<and>
      endnames c = [Some [''aa'', ''ab''], Some [''ba'', ''bb'']] \<and> rafts c = [Some 0, Some 1] \<and> reliable (cfg_net c) \<and> length (raft_objs c) = 2"
    using two_up_run by (cases "cfg_run two_up (blank 2)") simp_all
  have "reach (cfg_initial 2) cfg_step (\<lambda>e. True) (blank 2)" by (rule reach_init) (simp add: cfg_initial_def)
  from cfg_run_reach [OF this c(1)] show thesis using that c(2) by blast
qed

section \<open>Requests follow the connections\<close>

text \<open>C39: In every state of the harness, the network starts a handler for a request exactly if the request
  was sent on the end that leads from one connected server to another, in the living incarnation of the
  sender, the receiver has an instance, and the request is not dropped; and the handler then runs on the
  receiver's current instance, never on one that was crashed before.\<close>

theorem requests_follow_connections:
  assumes "reach (cfg_initial n) cfg_step (\<lambda>e. True) cfg"
  shows "case snd (processReq_start d (cfg_net cfg) rq) of
      Started a \<Rightarrow> \<exists>i j r. leads cfg (endname rq) i j \<and> connected cfg ! i \<and> connected cfg ! j \<and> rafts cfg ! j = Some r \<and>
        a < length (store (cfg_net cfg)) \<and> services (store (cfg_net cfg) ! a) ''Raft'' = Some (MakeService ''Raft'' r raft_methods)
    | _ \<Rightarrow> \<forall>i j. leads cfg (endname rq) i j \<and> connected cfg ! i \<and> connected cfg ! j \<and> rafts cfg ! j \<noteq> None \<longrightarrow>
        \<not> reliable (cfg_net cfg) \<and> d mod 1000 < 100"
proof -
  have inv: "topology cfg" "serves cfg" using tp.inv_reach [OF assms] by blast+
  note T = topologyD [OF inv(1)]
  have serv: "case rafts cfg ! j of
       Some r \<Rightarrow> \<exists>a. rpc_servers (cfg_net cfg) j = Some a \<and> a < length (store (cfg_net cfg)) \<and>
         services (store (cfg_net cfg) ! a) = [''Raft'' \<mapsto> MakeService ''Raft'' r raft_methods]
     | None \<Rightarrow> rpc_servers (cfg_net cfg) j = None" if "j < cfg_n cfg" for j
    using inv(2) that unfolding serves_def by blast
  let ?e = "endname rq"
  show ?thesis
  proof (cases "\<exists>i j. leads cfg ?e i j \<and> connected cfg ! i \<and> connected cfg ! j")
    case False
    then have "\<not> enabled (cfg_net cfg) ?e" using T(3,5) by blast
    then have "snd (processReq_start d (cfg_net cfg) rq) = Idle"
      by (simp add: processReq_start_def readEndnameInfo_def Let_def split: option.split)
    then show ?thesis using False by auto
  next
    case True
    then obtain i j where l: "leads cfg ?e i j" "connected cfg ! i" "connected cfg ! j" by blast
    have j: "j < cfg_n cfg" using leads_bound [OF l(1)] by blast
    have en: "enabled (cfg_net cfg) ?e" "connections (cfg_net cfg) ?e = Some j" using T(2,3) [OF l(1)] l by simp_all
    have uniq: "leads cfg ?e i' j' \<Longrightarrow> j' = j" for i' j' using T(4) [OF l(1)] by blast
    show ?thesis
    proof (cases "rafts cfg ! j")
      case None
      then have "rpc_servers (cfg_net cfg) j = None" using serv [OF j] by simp
      then have "snd (processReq_start d (cfg_net cfg) rq) = Idle" by (simp add: processReq_start_def readEndnameInfo_def en)
      then show ?thesis using uniq None by auto
    next
      case (Some r)
      then obtain a where a: "rpc_servers (cfg_net cfg) j = Some a" "a < length (store (cfg_net cfg))"
        "services (store (cfg_net cfg) ! a) = [''Raft'' \<mapsto> MakeService ''Raft'' r raft_methods]"
        using serv [OF j] by auto
      have "snd (processReq_start d (cfg_net cfg) rq) = (if \<not> reliable (cfg_net cfg) \<and> d mod 1000 < 100 then Idle else Started a)"
        by (simp add: processReq_start_def readEndnameInfo_def en a(1))
      then show ?thesis using l Some a by auto
    qed
  qed
qed

lemma requests_follow_connections_witness:
  "\<exists>cfg. leads cfg ''ab'' 0 1 \<and> connected cfg = [True, True] \<and> reliable (cfg_net cfg) \<and>
    (case snd (processReq_start 0 (cfg_net cfg) \<lparr>endname = ''ab'', svcMeth = ''Raft.RequestVote'', argsType = TInt, args = []\<rparr>) of
      Started a \<Rightarrow> \<exists>i j r. leads cfg ''ab'' i j \<and> connected cfg ! i \<and> connected cfg ! j \<and> rafts cfg ! j = Some r \<and>
        a < length (store (cfg_net cfg)) \<and> services (store (cfg_net cfg) ! a) ''Raft'' = Some (MakeService ''Raft'' r raft_methods)
    | _ \<Rightarrow> False)"
proof -
  obtain c where c: "reach (cfg_initial 2) cfg_step (\<lambda>e. True) c" "cfg_n c = 2" "connected c = [True, True]"
    "endnames c = [Some [''aa'', ''ab''], Some [''ba'', ''bb'']]" "rafts c = [Some 0, Some 1]" "reliable (cfg_net c)" "length (raft_objs c) = 2"
    by (rule two_up_reach)
  have l: "leads c ''ab'' 0 1" using c by (simp add: leads_def)
  have "connected c ! 0" "connected c ! 1" "rafts c ! 1 \<noteq> None" using c by simp_all
  then have never: "\<not> (\<forall>i j. leads c ''ab'' i j \<and> connected c ! i \<and> connected c ! j \<and> rafts c ! j \<noteq> None \<longrightarrow>
      \<not> reliable (cfg_net c) \<and> (0 :: nat) mod 1000 < 100)" using l c(6) by blast
  show ?thesis
    using never requests_follow_connections [OF c(1), where d = 0 and rq = "\<lparr>endname = ''ab'', svcMeth = ''Raft.RequestVote'', argsType = TInt, args = []\<rparr>"] l c(3,6)
    by (intro exI [of _ c] conjI) (simp_all split: handling.splits)
qed

section \<open>Crash and restart\<close>




section \<open>What the services receive\<close>

text \<open>C37: The services of all servers accept a sequence of messages, in any interleaving, exactly if no two
  of them give different commands for an index and every server gets index k + 1 only after index k; then
  \<open>nCommitted\<close> returns, for every index, the number of servers that have received it and the command.\<close>

theorem services_accept:
  assumes "logs cfg = replicate (length (rafts cfg)) Map.empty" and "\<forall>i < length (rafts cfg). applyErr cfg ! i = []"
    and "\<forall>(i, m) \<in> set ms. i < length (rafts cfg)"
  shows "case deliveries ms cfg of
      Done c \<Rightarrow> agreed ms \<and> in_order ms \<and>
        (\<forall>k. \<exists>v. nCommitted k c = Done (card {i. i < length (rafts cfg) \<and> (\<exists>w. received ms i k w)}, v) \<and>
          (\<forall>i w. received ms i k w \<longrightarrow> v = w))
    | _ \<Rightarrow> \<not> (agreed ms \<and> in_order ms)"
proof -
  let ?n = "length (rafts cfg)"
  note D = deliveries_spec [OF assms(1,3)]
  show ?thesis
  proof (cases "deliveries ms cfg")
    case (Done c)
    then have ok: "agreed ms" "in_order ms" "records ?n cfg ms c" using D by auto
    have "\<exists>v. nCommitted k c = Done (card {i. i < ?n \<and> (\<exists>w. received ms i k w)}, v) \<and> (\<forall>i w. received ms i k w \<longrightarrow> v = w)" for k
    proof -
      have rec: "(logs c ! i) k = Some v \<longleftrightarrow> received ms i k v" if "i < ?n" for i v using ok(3) that by (simp add: records_def)
      have lt: "i < ?n" if "received ms i k w" for i w using that assms(3) by (auto simp: received_def)
      have "w' = w" if "received ms i k w" "received ms j k w'" for i j w w'
        using ok(1) that unfolding agreed_def received_def by fastforce
      then obtain v where v: "\<And>i w. received ms i k w \<Longrightarrow> w = v" by metis
      have "nCommitted k c = Done (card {i. i < ?n \<and> (logs c ! i) k \<noteq> None}, if \<exists>i \<in> set [0..<?n]. (logs c ! i) k \<noteq> None then v else INil)"
        using nCommitted_loop_spec [of "[0..<?n]" c k v 0 INil] ok(3) assms(2) v rec
        by (simp add: nCommitted_def records_def length_filter_upt)
      moreover have "{i. i < ?n \<and> (logs c ! i) k \<noteq> None} = {i. i < ?n \<and> (\<exists>w. received ms i k w)}" using rec by auto
      moreover have "(if \<exists>i \<in> set [0..<?n]. (logs c ! i) k \<noteq> None then v else INil) = w" if r: "received ms i k w" for i w
        using v [OF r] rec [of i w] lt [OF r] r by auto
      ultimately show ?thesis by auto
    qed
    then show ?thesis using Done ok by simp
  qed (use D in auto)
qed


section \<open>The one leader\<close>

lemma elections_mono: "step s e s' \<Longrightarrow> set (elections s) \<subseteq> set (elections s')"
  by (erule step.cases) auto

lemma elections_mono_reach: "reach ((=) s) step P s' \<Longrightarrow> set (elections s) \<subseteq> set (elections s')"
  by (induction rule: reach.induct) (use elections_mono in blast)+


text \<open>A run that keeps votes: server 0 of three becomes leader of term 1.\<close>

lemma elect_0_run:
  "case simulate three early elect_0 of None \<Rightarrow> False | Some (es, s) \<Rightarrow>
     list_all keeps_votes es \<and> elections s = [(1, 0)] \<and> state (servers s ! 0) = Leader"
  by code_simp

lemma elect_0_reachable:
  "\<exists>s. reachable three keeps_votes s \<and> elections s = [(1, 0)] \<and> state (servers s ! 0) = Leader"
  by (rule simulate_ex [OF elect_0_run])

text \<open>The ten attempts.\<close>

lemma checkOneLeader_loop_spec:
  assumes "\<And>k. (checkOneLeader_try cfg (sts k) = Done None \<and> (\<forall>i < n. \<not> seen_leader cfg (sts k) i)) \<or>
    (\<exists>i < n. checkOneLeader_try cfg (sts k) = Done (Some i) \<and> seen_leader cfg (sts k) i \<and>
      (\<forall>j < n. seen_leader cfg (sts k) j \<longrightarrow> j = i \<or> fst (sts k j) < fst (sts k i)))"
  shows "case checkOneLeader_loop cfg sts [l..<m] of
      Done i \<Rightarrow> i < n \<and> (\<exists>k < m. seen_leader cfg (sts k) i \<and>
        (\<forall>j < n. seen_leader cfg (sts k) j \<longrightarrow> j = i \<or> fst (sts k j) < fst (sts k i)) \<and>
        (\<forall>k' < k. l \<le> k' \<longrightarrow> (\<forall>j < n. \<not> seen_leader cfg (sts k') j)))
    | Fatal err \<Rightarrow> \<forall>k < m. l \<le> k \<longrightarrow> (\<forall>j < n. \<not> seen_leader cfg (sts k) j)
    | Panic \<Rightarrow> False"
proof (induction "m - l" arbitrary: l)
  case 0
  then show ?case by simp
next
  case (Suc d)
  then have lm: "[l..<m] = l # [Suc l..<m]" "l < m" by (simp_all add: upt_conv_Cons)
  have IH: "case checkOneLeader_loop cfg sts [Suc l..<m] of
      Done i \<Rightarrow> i < n \<and> (\<exists>k < m. seen_leader cfg (sts k) i \<and>
        (\<forall>j < n. seen_leader cfg (sts k) j \<longrightarrow> j = i \<or> fst (sts k j) < fst (sts k i)) \<and>
        (\<forall>k' < k. Suc l \<le> k' \<longrightarrow> (\<forall>j < n. \<not> seen_leader cfg (sts k') j)))
    | Fatal err \<Rightarrow> \<forall>k < m. Suc l \<le> k \<longrightarrow> (\<forall>j < n. \<not> seen_leader cfg (sts k) j)
    | Panic \<Rightarrow> False"
    using Suc(1) [of "Suc l"] Suc(2) by simp
  have first: "l \<le> k \<longleftrightarrow> k = l \<or> Suc l \<le> k" for k by auto
  from assms [of l] show ?case
  proof
    assume none: "checkOneLeader_try cfg (sts l) = Done None \<and> (\<forall>i < n. \<not> seen_leader cfg (sts l) i)"
    then have "checkOneLeader_loop cfg sts [l..<m] = checkOneLeader_loop cfg sts [Suc l..<m]" by (simp add: lm(1))
    then show ?thesis using IH none unfolding first by (cases "checkOneLeader_loop cfg sts [Suc l..<m]") auto
  next
    assume "\<exists>i < n. checkOneLeader_try cfg (sts l) = Done (Some i) \<and> seen_leader cfg (sts l) i \<and>
      (\<forall>j < n. seen_leader cfg (sts l) j \<longrightarrow> j = i \<or> fst (sts l j) < fst (sts l i))"
    then obtain i where i: "i < n" "checkOneLeader_try cfg (sts l) = Done (Some i)" "seen_leader cfg (sts l) i"
      "\<forall>j < n. seen_leader cfg (sts l) j \<longrightarrow> j = i \<or> fst (sts l j) < fst (sts l i)" by blast
    then show ?thesis using lm(2) by (simp add: lm(1)) (intro exI [of _ l], simp)
  qed
qed

text \<open>C36: A test that asks the servers of a running cluster one after another who leads (\<open>checkOneLeader\<close>, ten
  attempts, the cluster going on between any two questions) never finds two leaders of one term, if no
  snapshot handler erases a vote and the connected servers have not crashed, and never panics: it returns, from its first attempt that sees a connected
  leader, the one with the greatest term, and fails only if no attempt sees any.\<close>

theorem one_leader_found:
  assumes "reachable ps keeps_votes (ss 0)" and "\<forall>q. reach ((=) (ss q)) step keeps_votes (ss (Suc q))" and "cfg_n cfg = length ps"
    and "\<forall>i < length ps. connected cfg ! i \<longrightarrow> rafts cfg ! i \<noteq> None"
  shows "let sts = (\<lambda>k i. GetState (servers (ss (k * length ps + i)) ! i)) in
    case checkOneLeader cfg sts of
      Done i \<Rightarrow> i < length ps \<and> (\<exists>k < 10. seen_leader cfg (sts k) i \<and>
        (\<forall>j < length ps. seen_leader cfg (sts k) j \<longrightarrow> j = i \<or> fst (sts k j) < fst (sts k i)) \<and>
        (\<forall>k' < k. \<forall>j < length ps. \<not> seen_leader cfg (sts k') j))
    | Fatal err \<Rightarrow> \<forall>k < 10. \<forall>j < length ps. \<not> seen_leader cfg (sts k) j
    | Panic \<Rightarrow> False"
proof -
  define sts where "sts = (\<lambda>k i. GetState (servers (ss (k * length ps + i)) ! i))"
  have inv: "election_inv (length ps) (ss q)" for q
  proof (rule es.inv_reach)
    show "reachable ps keeps_votes (ss q)"
    proof (induction q)
      case (Suc q)
      show ?case by (rule reach_trans [OF assms(2) [rule_format] Suc])
    qed (rule assms(1))
  qed
  have mono: "set (elections (ss p)) \<subseteq> set (elections (ss q))" if "p \<le> q" for p q
    by (rule lift_Suc_mono_le [of "\<lambda>q. set (elections (ss q))", OF _ that]) (rule elections_mono_reach [OF assms(2) [rule_format]])
  have lead: "(fst (sts k i), i) \<in> set (elections (ss q))" if "i < length ps" "snd (sts k i)" "k * length ps + i \<le> q" for k i q
    using election_inv_leader [OF inv that(1)] mono [OF that(3)] that(2) by (auto simp: sts_def GetState_def)
  have uniq: "i = j" if "i < length ps" "j < length ps" "snd (sts k i)" "snd (sts k j)" "fst (sts k i) = fst (sts k j)" for k i j
  proof -
    let ?q = "k * length ps + max i j"
    have "(fst (sts k i), i) \<in> set (elections (ss ?q))" "(fst (sts k i), j) \<in> set (elections (ss ?q))"
      using lead [of i k ?q] lead [of j k ?q] that by simp_all
    then show ?thesis by (rule election_inv_unique [OF inv])
  qed
  have pos: "0 \<le> fst (sts k i)" if "i < length ps" for k i
    using inv [of "k * length ps + i"] that cluster_ok_server [of "length ps" "ss (k * length ps + i)" i]
    by (simp add: election_inv_def sts_def GetState_def server_ok_def cluster_ok_def)
  have one: "(checkOneLeader_try cfg (sts k) = Done None \<and> (\<forall>i < length ps. \<not> seen_leader cfg (sts k) i)) \<or>
    (\<exists>i < length ps. checkOneLeader_try cfg (sts k) = Done (Some i) \<and> seen_leader cfg (sts k) i \<and>
      (\<forall>j < length ps. seen_leader cfg (sts k) j \<longrightarrow> j = i \<or> fst (sts k j) < fst (sts k i)))" for k
    unfolding assms(3) [symmetric] by (rule checkOneLeader_try_spec) (use uniq pos assms(3,4) in auto)
  show ?thesis
    using checkOneLeader_loop_spec [where sts = sts and l = 0 and m = 10, OF one] unfolding checkOneLeader_def Let_def sts_def [symmetric]
    by (cases "checkOneLeader_loop cfg sts [0..<10]") simp_all
qed


definition told :: "int \<Rightarrow> int \<Rightarrow> ApplyMsg" where
  "told k v = \<lparr>CommandValid = True, am_Command = IInt v, CommandIndex = k, SnapshotValid = False, am_Snapshot = [], SnapshotTerm = 0, SnapshotIndex = 0\<rparr>"

lemma services_accept_witness:
  "let ms = [(0, told 1 7), (1, told 1 7), (0, told 2 8)] in
   agreed ms \<and> in_order ms \<and>
   (case deliveries ms (blank 2) of
      Done c \<Rightarrow> agreed ms \<and> in_order ms \<and>
        (\<forall>k. \<exists>v. nCommitted k c = Done (card {i. i < length (rafts (blank 2)) \<and> (\<exists>w. received ms i k w)}, v) \<and>
          (\<forall>i w. received ms i k w \<longrightarrow> v = w))
    | _ \<Rightarrow> \<not> (agreed ms \<and> in_order ms))"
proof -
  have "agreed [(0, told 1 7), (1, told 1 7), (0, told 2 8)]" by (simp add: agreed_def told_def)
  moreover have "in_order [(0, told 1 7), (1, told 1 7), (0, told 2 8)]" by (simp add: in_order_def told_def)
  ultimately show ?thesis unfolding Let_def
    by (intro conjI services_accept) (simp_all add: blank_def)
qed



lemma one_leader_found_witness:
  "\<exists>s :: Cluster. elections s = [(1, 0)] \<and>
    (let cfg = blank 3\<lparr>connected := [True, True, True], rafts := [Some 0, Some 1, Some 2]\<rparr>; sts = (\<lambda>k i. GetState (servers s ! i)) in
     case checkOneLeader cfg sts of
       Done i \<Rightarrow> i < length three \<and> (\<exists>k < 10. seen_leader cfg (sts k) i \<and>
         (\<forall>j < length three. seen_leader cfg (sts k) j \<longrightarrow> j = i \<or> fst (sts k j) < fst (sts k i)) \<and>
         (\<forall>k' < k. \<forall>j < length three. \<not> seen_leader cfg (sts k') j))
     | _ \<Rightarrow> False)"
proof -
  obtain s where s: "reachable three keeps_votes s" "elections s = [(1, 0)]" "state (servers s ! 0) = Leader"
    using elect_0_reachable by blast
  let ?cfg = "blank 3\<lparr>connected := [True, True, True], rafts := [Some 0, Some 1, Some 2]\<rparr>"
  have "reach ((=) s) step keeps_votes s" by (rule reach_init) simp
  then have t: "let sts = (\<lambda>k i. GetState (servers s ! i)) in
     case checkOneLeader ?cfg sts of
       Done i \<Rightarrow> i < length three \<and> (\<exists>k < 10. seen_leader ?cfg (sts k) i \<and>
         (\<forall>j < length three. seen_leader ?cfg (sts k) j \<longrightarrow> j = i \<or> fst (sts k j) < fst (sts k i)) \<and>
         (\<forall>k' < k. \<forall>j < length three. \<not> seen_leader ?cfg (sts k') j))
     | Fatal err \<Rightarrow> \<forall>k < 10. \<forall>j < length three. \<not> seen_leader ?cfg (sts k) j | Panic \<Rightarrow> False"
    using one_leader_found [of three "\<lambda>q. s" ?cfg] s(1)
    by (simp add: three_def blank_def less_Suc_eq numeral_3_eq_3)
  have "seen_leader ?cfg (\<lambda>i. GetState (servers s ! i)) 0" "0 < length three" using s(3) by (simp_all add: GetState_def three_def)
  then show ?thesis using t s(2) unfolding Let_def by (intro exI [of _ s]) (fastforce split: outcome.splits)
qed

end
