(* ===== verification/Spec2Isabelle.thy ===== *)
theory Spec2Isabelle
  imports Node_Properties Log_Matching Apply_Order Cluster_Anomalies Labgob_Check Labrpc_Properties Config_Properties
begin

text \<open>
  A Raft library in Go with its RPC simulator, encoder and test harness (\<open>src/src\<close>): a server keeps a
  replicated log, elects leaders, compacts its log into snapshots of the service above it, and survives
  crashes by writing its state to a persister.

  HOW THE PROGRAM FITS TOGETHER. A test makes a \<open>config\<close> (\<open>raft/config.go\<close>), which makes a network
  (\<open>labrpc/labrpc.go\<close>) and, for every server, a persister (\<open>raft/persister.go\<close>) and a \<open>Raft\<close>
  (\<open>raft/raft.go\<close>). Servers elect a leader (\<open>raft/leader_election.go\<close>, \<open>raft/request_vote.go\<close>) and replicate
  the leader's log (\<open>raft/append_entry.go\<close>, \<open>raft/log.go\<close>) by RPCs of the network, whose arguments and
  replies, like the persisted state, go through \<open>labgob/labgob.go\<close>. Committed commands and snapshots go
  over \<open>applyCh\<close> to the service, in the tests the appliers of \<open>config.go\<close>, which compare what the servers
  report.

  THE THEORIES, bottom up.
  \<^item> \<open>Raft_Prelude\<close>: Go indexing and slicing with panics as None; majorities (\<open>quorums\<close>); runs of a labelled
    step relation and the interface \<open>step_invariant\<close>.
  \<^item> \<open>Labgob\<close>, \<open>Labgob_Check\<close> (\<open>labgob.go\<close>): types, values and encodings of gob as datatypes, the round trip; the
    checks of types (\<open>checkType\<close>, with the table of types seen as the global \<open>checked\<close>) and of variables
    decoded into.
  \<^item> \<open>Persister\<close> (\<open>persister.go\<close>) with the interface \<open>stable_storage\<close>; \<open>Raft_Log\<close> (\<open>log.go\<close>) with the
    interface \<open>entry_log\<close>.
  \<^item> \<open>Raft_Node\<close>: the record \<open>Raft\<close> is \<open>type Raft struct\<close>, field by field; persistence, \<open>Make\<close>, index helpers.
    \<open>Raft_Rpc\<close>: the RPC structs. \<open>Raft_Replication\<close>, \<open>Raft_Election\<close>, \<open>Raft_Snapshot\<close>, \<open>Raft_Server\<close>: the
    handlers, the code that handles replies, \<open>Start\<close>, and one turn of the ticker and of the applier. An
    operation takes the server, its arguments and the readings it makes (\<open>env\<close>: clock and random draw),
    and returns the new server, the reply, and the goroutines and messages it starts; it is None if the
    code panics. The code holds \<open>rf.mu\<close> throughout each of them, so it is one state change.
  \<^item> \<open>Node_Properties\<close>: what each operation does, on every branch.
  \<^item> \<open>Raft_Cluster\<close>, \<open>Cluster_Runs\<close>, \<open>Cluster_Invariant\<close>: all servers, their goroutines and RPCs in flight as an
    inductive \<open>step\<close>, with loss, delay, reordering, crash and restart; an executable scheduler for
    concrete runs; well-formedness of every reachable state.
  \<^item> \<open>Election_Safety\<close>, \<open>Log_Matching\<close>, \<open>Apply_Order\<close>: the invariants behind the properties of this theory.
    \<open>Cluster_Anomalies\<close>: runs in which this implementation breaks what the protocol promises.
  \<^item> \<open>Labrpc\<close>, \<open>Labrpc_Calls\<close>, \<open>Labrpc_Invariants\<close> (\<open>labrpc.go\<close>): the tables of the network and their operations;
    calls with the goroutines that carry them as an interleaving of stages. \<open>Rpc_Messages\<close>: this refines
    messages that are executed once or lost. \<open>Raft_Wire\<close>: the RPC structs as gob values, the senders, and the
    Raft handlers as the handlers of the network. \<open>Labrpc_Properties\<close>: what callers may rely on.
  \<^item> \<open>Config\<close>, \<open>Config_Checks\<close> (\<open>config.go\<close>): the record \<open>config\<close> is its struct; Rafts, persisters and server
    objects are addresses into stores, because a killed instance goes on using its own. Operations may
    complete, panic, or end the process or test (\<open>outcome\<close>: \<open>Done\<close>, \<open>Panic\<close>, \<open>Fatal\<close>). \<open>Config_Invariant\<close>,
    \<open>Config_Storage\<close>, \<open>Config_Tester\<close>, \<open>Config_Properties\<close>: the topology, who writes which persister, who serves,
    and what the checks decide.

  WHAT THE LEMMAS SHOW. For a node: \<open>node_ok\<close> is preserved by every operation, and the properties of
  \<open>Node_Properties\<close> give its effect. For a cluster: no handler panics in a reachable state (but for
  \<open>Snapshot\<close>, precisely characterised); one leader per term if no snapshot handler erases a vote; log
  matching and in-order application in runs without compaction. The hypotheses on runs (\<open>keeps_votes\<close>,
  \<open>plain\<close>, \<open>no_compaction\<close>) are filters on the labels of steps, needed because the code really violates
  the unrestricted statements: \<open>two_leaders_in_one_term\<close>, \<open>services_diverge\<close>. For the network: at most once
  execution, no answers from deleted servers, delivery when reliable. For the harness: requests follow
  connections, restarts recover exactly what was persisted, the checks mean what they say.

  BOUNDS. There is no fuel: loops of the code are structural recursions or have a measure (\<open>checkType\<close>
  ends because the table of types is finite), and loops that wait for time run over the list of what they
  see at each turn, of any length. Terms, indices and Go's \<open>int\<close> are unbounded integers; the counters of
  the network have the width of the code (32 and 64 bit) and wrap; the flag \<open>dead\<close> is a 32-bit word.

  NOT MODELLED. \<open>Register\<close> and \<open>RegisterName\<close> of \<open>labgob\<close> (they pass their argument to gob and the program
  does not use them); the byte layout of gob (its length is a parameter of the network); \<open>String\<close>
  methods, \<open>commits\<close>, \<open>DPrintf\<close> and all printing; \<open>randstring\<close>, \<open>makeSeed\<close> (their results are arguments);
  reflection other than as a list of methods; the Go memory model outside critical sections; the
  tests themselves.
\<close>

section \<open>Every critical section completes\<close>

text \<open>C6: In every state a cluster can reach, under any interleaving, loss, delay, crash and restart, no
  critical section of any server indexes or slices a log out of range: the handlers of the three
  RPCs, the reply code of every goroutine in flight, \<open>Start\<close>, the ticker and the applier complete.
  \<open>Snapshot\<close> is the exception, and panics exactly when its index is committed but lies more than one
  past the end of the log.\<close>

theorem critical_sections_complete:
  assumes "reachable ps P s"
  shows "\<forall>i < length ps. let rf = servers s ! i in
    ticker_turn ev1 ev2 rf \<noteq> None \<and> Start cmd ev rf \<noteq> None \<and> applier_turn rf \<noteq> None \<and>
    RequestVote va ev rf \<noteq> None \<and> AppendEntries aa ev rf \<noteq> None \<and> InstallSnapShot ia ev rf \<noteq> None \<and>
    candidateRequestVote va vr b ev rf \<noteq> None \<and>
    (\<forall>p < length ps. leaderSendEntries p aa ar rf \<noteq> None \<and> leaderSendSnapShot_reply p ia ir ev rf \<noteq> None) \<and>
    (Snapshot index snap rf = None \<longleftrightarrow>
       \<not> killed rf \<and> lastIncludeIndex rf < index \<and> index \<le> commitIndex rf \<and> getLastIndex rf + 1 < index)"
proof (intro allI impI)
  fix i assume "i < length ps"
  then have so: "server_ok (length ps) i (servers s ! i)"
    using reachable_cluster_ok [OF assms] by (simp add: cluster_ok_def)
  then have ok: "node_ok (servers s ! i)" and ap: "apply_ok (servers s ! i)" and n: "length (peers (servers s ! i)) = length ps"
    by (simp_all add: server_ok_def)
  then have wi: "well_indexed (servers s ! i)" "sized (servers s ! i)" by (simp_all add: node_ok_def)
  have "leaderSendEntries p aa ar (servers s ! i) \<noteq> None" if "p < length ps" for p
    using leaderSendEntries_total [OF ok] that n by simp
  moreover have "leaderSendSnapShot_reply p ia ir ev (servers s ! i) \<noteq> None" if "p < length ps" for p
    using leaderSendSnapShot_reply_eq [OF wi(2)] that n by simp
  moreover have "applier_turn (servers s ! i) \<noteq> None" using applier_turn_eq [OF wi(1) ap] by simp
  moreover have "InstallSnapShot ia ev (servers s ! i) \<noteq> None" by (simp add: InstallSnapShot_eq [OF ok])
  ultimately show "let rf = servers s ! i in
    ticker_turn ev1 ev2 rf \<noteq> None \<and> Start cmd ev rf \<noteq> None \<and> applier_turn rf \<noteq> None \<and>
    RequestVote va ev rf \<noteq> None \<and> AppendEntries aa ev rf \<noteq> None \<and> InstallSnapShot ia ev rf \<noteq> None \<and>
    candidateRequestVote va vr b ev rf \<noteq> None \<and>
    (\<forall>p < length ps. leaderSendEntries p aa ar rf \<noteq> None \<and> leaderSendSnapShot_reply p ia ir ev rf \<noteq> None) \<and>
    (Snapshot index snap rf = None \<longleftrightarrow>
       \<not> killed rf \<and> lastIncludeIndex rf < index \<and> index \<le> commitIndex rf \<and> getLastIndex rf + 1 < index)"
    using ticker_turn_total [OF ok] Start_total [OF ok] RequestVote_total [OF ok] AppendEntries_total [OF ok]
      candidateRequestVote_total [OF ok] Snapshot_None [OF ok]
    by (simp only: Let_def simp_thms not_False_eq_True) blast
qed

lemma critical_sections_complete_witness:
  "\<exists>s :: Cluster. elections s = [(1, 0)] \<and> (\<forall>i < length three. let rf = servers s ! i in
    ticker_turn early late rf \<noteq> None \<and> Start INil early rf \<noteq> None \<and> applier_turn rf \<noteq> None \<and>
    RequestVote ask_b early rf \<noteq> None \<and> AppendEntries request_b early rf \<noteq> None \<and> InstallSnapShot install_b early rf \<noteq> None \<and>
    candidateRequestVote ask_b yes_d newBallot early rf \<noteq> None \<and>
    (\<forall>p < length three. leaderSendEntries p request_b ack_a rf \<noteq> None \<and>
       leaderSendSnapShot_reply p install_b \<lparr>isr_Term = 1\<rparr> early rf \<noteq> None) \<and>
    (Snapshot 1 [] rf = None \<longleftrightarrow>
       \<not> killed rf \<and> lastIncludeIndex rf < 1 \<and> 1 \<le> commitIndex rf \<and> getLastIndex rf + 1 < 1))"
proof -
  obtain s where s: "reachable three keeps_votes s" "elections s = [(1, 0)]" using elect_0_reachable by blast
  show ?thesis by (rule exI [of _ s], rule conjI [OF s(2)], rule critical_sections_complete [OF s(1)])
qed

section \<open>Election safety\<close>

text \<open>C1: Election safety: in every run in which no snapshot handler erases a vote of the current term, at
  most one server ever becomes leader in a term, even across crashes; and two servers that are
  leaders of the same term at the same time are the same server.\<close>

theorem election_safety:
  assumes "reachable ps keeps_votes s"
  shows "(\<forall>t i j. (t, i) \<in> set (elections s) \<longrightarrow> (t, j) \<in> set (elections s) \<longrightarrow> i = j) \<and>
    (\<forall>i < length ps. \<forall>j < length ps. state (servers s ! i) = Leader \<longrightarrow> state (servers s ! j) = Leader \<longrightarrow>
       currentTerm (servers s ! i) = currentTerm (servers s ! j) \<longrightarrow> i = j)"
proof -
  have "election_inv (length ps) s" by (rule es.inv_reach [OF assms])
  then show ?thesis using election_inv_unique election_inv_leader by metis
qed

lemma election_safety_witness:
  "\<exists>s :: Cluster. elections s = [(1, 0)] \<and> state (servers s ! 0) = Leader \<and>
    (\<forall>t i j. (t, i) \<in> set (elections s) \<longrightarrow> (t, j) \<in> set (elections s) \<longrightarrow> i = j) \<and>
    (\<forall>i < length three. \<forall>j < length three. state (servers s ! i) = Leader \<longrightarrow> state (servers s ! j) = Leader \<longrightarrow>
       currentTerm (servers s ! i) = currentTerm (servers s ! j) \<longrightarrow> i = j)"
proof -
  obtain s where s: "reachable three keeps_votes s" "elections s = [(1, 0)]" "state (servers s ! 0) = Leader" using elect_0_reachable by blast
  show ?thesis by (rule exI [of _ s], rule conjI [OF s(2)], rule conjI [OF s(3)], rule election_safety [OF s(1)])
qed

section \<open>Log matching\<close>

text \<open>C2: Log matching: in every run without log compaction and without erased votes, if two servers hold
  entries of the same term at the same index, then their logs hold the same entries, commands
  included, at every index up to that one.\<close>

theorem log_matching:
  assumes "reachable ps plain s" and "i < length ps" and "j < length ps"
    and "logmap (servers s ! i) k = Some e" and "logmap (servers s ! j) k = Some f" and "e_Term e = e_Term f"
  shows "\<forall>m \<le> k. logmap (servers s ! i) m = logmap (servers s ! j) m"
proof -
  obtain L where "log_inv (length ps) L s" using lm.inv_reach [OF assms(1)] unfolding matching_inv_def by blast
  then have "log_node L (servers s ! i)" "log_node L (servers s ! j)" using assms(2,3) by (simp_all add: log_inv_def)
  from log_node_match [OF this assms(4-6)] show ?thesis by blast
qed

text \<open>Server 0 is elected, appends two commands, and server 1 stores them both.\<close>

lemma replicate_run:
  "case simulate three early (elect_0 @ [MStart 0 (IInt 7) early, MStart 0 (IInt 8) early, MDeliver 5 early]) of
     None \<Rightarrow> False
   | Some (es, s) \<Rightarrow> list_all plain es \<and>
       logmap (servers s ! 0) 2 = Some \<lparr>Command = IInt 8, e_Term = 1, e_Index = 2\<rparr> \<and>
       logmap (servers s ! 1) 2 = Some \<lparr>Command = IInt 8, e_Term = 1, e_Index = 2\<rparr>"
  by code_simp

lemma log_matching_witness:
  "\<exists>s :: Cluster. logmap (servers s ! 0) 2 = Some \<lparr>Command = IInt 8, e_Term = 1, e_Index = 2\<rparr> \<and>
     (\<forall>m \<le> 2. logmap (servers s ! 0) m = logmap (servers s ! 1) m)"
proof -
  obtain s where s: "reachable three plain s"
    "logmap (servers s ! 0) 2 = Some \<lparr>Command = IInt 8, e_Term = 1, e_Index = 2\<rparr>"
    "logmap (servers s ! 1) 2 = Some \<lparr>Command = IInt 8, e_Term = 1, e_Index = 2\<rparr>"
    using simulate_ex [OF replicate_run] by blast
  show ?thesis by (rule exI [of _ s], rule conjI [OF s(2)], rule log_matching [OF s(1) _ _ s(2,3)]) (simp_all add: three_def)
qed

section \<open>Services receive commands in order\<close>

text \<open>C3: In every run without log compaction, what the service of a server has received since its last
  restart are commands with the indices 1, 2, 3, ... without gap, repetition or reordering, and at
  most one more, with the next index, is waiting on the channel: \<open>lastApplied\<close> counts both.\<close>

theorem commands_applied_in_order:
  assumes "reachable ps no_compaction s" and "i < length ps"
  shows "map CommandIndex (applied s ! i @ pending i (incs s ! i) (flights s)) = [1..lastApplied (servers s ! i)] \<and>
    length (pending i (incs s ! i) (flights s)) \<le> 1 \<and> (\<forall>m \<in> set (applied s ! i). CommandValid m)"
  using ao.inv_reach [OF assms(1)] assms(2) by (simp add: order_inv_def order_node_def)

lemma panic_run_applied:
  "case simulate three early (butlast run_panic) of None \<Rightarrow> False | Some (es, s) \<Rightarrow>
     list_all no_compaction es \<and> map CommandIndex (applied s ! 1) = [1, 2]"
  by code_simp

lemma commands_applied_in_order_witness:
  "\<exists>s :: Cluster. map CommandIndex (applied s ! 1) = [1, 2] \<and>
    map CommandIndex (applied s ! 1 @ pending 1 (incs s ! 1) (flights s)) = [1..lastApplied (servers s ! 1)] \<and>
    length (pending 1 (incs s ! 1) (flights s)) \<le> 1 \<and> (\<forall>m \<in> set (applied s ! 1). CommandValid m)"
proof -
  obtain s where s: "reachable three no_compaction s" "map CommandIndex (applied s ! 1) = [1, 2]"
    using simulate_ex [OF panic_run_applied] by metis
  show ?thesis by (rule exI [of _ s], rule conjI [OF s(2)], rule commands_applied_in_order [OF s(1)]) (simp add: three_def)
qed

end
